(* ===== verification/Prelude.thy ===== *)
theory Prelude
  imports Main "HOL-Library.Word"
begin

unbundle bit_operations_syntax

text \<open>
  What the components share: the names of the C integer types, the outcome of
  a C call, the layout of a packed register block, and the generic lemmas on
  words and lists that the component theories use.
\<close>

section \<open>Types\<close>

type_synonym u8 = "8 word"
type_synonym u16 = "16 word"
type_synonym u32 = "32 word"
type_synonym u64 = "64 word"

text \<open>
  The functions of 08_scheduler whose addresses are taken; a function pointer
  is an option over them, \<^const>\<open>None\<close> being \<^verbatim>\<open>NULL\<close>.
\<close>

datatype fn_ptr = uart_isr_fn | ptimer_isr_fn | task0_fn | task1_fn | task2_fn

section \<open>Outcomes of a call\<close>

text \<open>
  A C function that contains an unbounded loop may never return, and one that
  writes outside an object has undefined behaviour. Both are values of the
  model, so that a claim that a function returns says so.
\<close>

datatype 'a outcome = Hangs | UB | is_Returns: Returns (ret: 'a)

primrec bindO :: "'a outcome \<Rightarrow> ('a \<Rightarrow> 'b outcome) \<Rightarrow> 'b outcome" where
  "bindO Hangs f = Hangs"
| "bindO UB f = UB"
| "bindO (Returns a) f = f a"

primrec of_option :: "'a option \<Rightarrow> 'a outcome" where
  "of_option None = Hangs"
| "of_option (Some a) = Returns a"

lemma bindO_Returns_iff [simp]:
  "bindO m f = Returns b \<longleftrightarrow> (\<exists>a. m = Returns a \<and> f a = Returns b)"
  by (cases m) auto

lemma bindO_assoc: "bindO (bindO m f) g = bindO m (\<lambda>a. bindO (f a) g)"
  by (cases m) auto

lemma of_option_Returns_iff [simp]: "of_option x = Returns a \<longleftrightarrow> x = Some a"
  by (cases x) auto

section \<open>Packed structs of 32-bit registers\<close>

text \<open>
  A \<^verbatim>\<open>volatile struct __attribute__((packed))\<close> of \<^verbatim>\<open>uint32_t\<close> members is the
  list of its members with their lengths in words (1 for a scalar).
  \<open>offsetof\<close> is the byte offset C gives a member.
\<close>

type_synonym reg_struct = "(string \<times> nat) list"

fun offsetof :: "reg_struct \<Rightarrow> string \<Rightarrow> nat" where
  "offsetof [] f = 0"
| "offsetof ((g, n) # fs) f = (if f = g then 0 else 4 * n + offsetof fs f)"

definition struct_size :: "reg_struct \<Rightarrow> nat" where
  "struct_size fs = 4 * sum_list (map snd fs)"

lemma offsetof_bound:
  "(f, n) \<in> set fs \<Longrightarrow> distinct (map fst fs) \<Longrightarrow> offsetof fs f + 4 * n \<le> struct_size fs"
proof (induction fs)
  case Nil
  then show ?case by simp
next
  case (Cons x fs)
  obtain g k where x: "x = (g, k)" by (cases x)
  show ?case
  proof (cases "f = g")
    case True
    have "(f, n') \<notin> set fs" for n'
      using Cons.prems(2) x True by (auto simp: image_iff)
    with Cons.prems(1) x True show ?thesis by (auto simp: struct_size_def)
  next
    case False
    with Cons x show ?thesis by (auto simp: struct_size_def)
  qed
qed

lemma offsetof_disjoint:
  assumes "distinct (map fst fs)" and "(f, m) \<in> set fs" and "(g, n) \<in> set fs" and "f \<noteq> g"
  shows "offsetof fs f + 4 * m \<le> offsetof fs g \<or> offsetof fs g + 4 * n \<le> offsetof fs f"
  using assms
proof (induction fs)
  case Nil
  then show ?case by simp
next
  case (Cons x fs)
  obtain h k where x: "x = (h, k)" by (cases x)
  have notin: "(h, k') \<notin> set fs" for k'
    using Cons.prems(1) x by (auto simp: image_iff)
  consider "f = h" | "g = h" | "f \<noteq> h" "g \<noteq> h" by blast
  then show ?case
  proof cases
    case 1
    with Cons.prems x notin show ?thesis by auto
  next
    case 2
    with Cons.prems x notin show ?thesis by auto
  next
    case 3
    with Cons x show ?thesis by auto
  qed
qed

section \<open>Words\<close>

named_theorems c_bits \<open>bitwise facts that decide which register bits a driver sets\<close>

lemma unat_plus_mod: "unat (a + b) = (unat a + unat b) mod 2 ^ LENGTH('a)"
  for a b :: "'a::len word"
  by (simp add: unat_word_ariths)

lemma word_minus_le_iff_elapsed:
  fixes now last :: "'a::len word"
  assumes "now = of_nat t" and "last = of_nat t0" and "t0 \<le> t"
  shows "unat (now - last) = (t - t0) mod 2 ^ LENGTH('a)"
proof -
  have "now - last = of_nat (t - t0)"
    using assms by (simp add: of_nat_diff)
  then show ?thesis by (simp add: unat_of_nat)
qed

lemma bit_or_exp [c_bits]:
  "bit (w OR 2 ^ n) m \<longleftrightarrow> bit w m \<or> (m = n \<and> n < LENGTH('a))" for w :: "'a::len word"
  by (auto simp: bit_simps)

lemma word_of_nat_eq_small:
  "a < 2 ^ LENGTH('a) \<Longrightarrow> b < 2 ^ LENGTH('a) \<Longrightarrow>
    (of_nat a :: 'a::len word) = of_nat b \<longleftrightarrow> a = b"
  by (simp add: word_of_nat_eq_iff take_bit_nat_eq_self)

lemma word_one_le_iff: "1 \<le> w \<longleftrightarrow> w \<noteq> 0" for w :: "'a::len word"
  by (auto simp: word_le_nat_alt unat_gt_0 Suc_le_eq)

end
