(* ===== verification/Cpu.thy ===== *)
theory Cpu
  imports Prelude
begin

unbundle bit_operations_syntax

text \<open>
  The processor as the drivers see it (\<^verbatim>\<open>cpu_a9.h\<close>): 32-bit accesses to device
  registers, the base of the private peripherals, and the interrupt mask.

  The devices are not code of the repository. They are the parameter
  \<open>hw\<close>: the value a read returns is an arbitrary function of the accesses made
  so far, so every behaviour of the hardware is covered. What a property relies
  on is stated as a hypothesis on \<open>hw\<close>.
\<close>

section \<open>State\<close>

datatype access = Rd u32 u32 | Wr u32 u32

record hardware =
  bus_read :: "access list \<Rightarrow> u32 \<Rightarrow> u32"
  cp15_periphbase :: u32

text \<open>\<open>bus\<close> holds the accesses made so far, the newest first.\<close>

record cpu =
  bus :: "access list"
  interrupts_enabled :: bool

section \<open>Operations\<close>

definition GIC_IFACE_OFFSET :: u32 where "GIC_IFACE_OFFSET = 0x100"
definition GIC_DISTRIBUTOR_OFFSET :: u32 where "GIC_DISTRIBUTOR_OFFSET = 0x1000"
definition PTIMER_OFFSET :: u32 where "PTIMER_OFFSET = 0x600"

definition read32 :: "hardware \<Rightarrow> u32 \<Rightarrow> 'a cpu_scheme \<Rightarrow> u32 \<times> 'a cpu_scheme" where
  "read32 hw a s = (let v = bus_read hw (bus s) a in (v, s\<lparr>bus := Rd a v # bus s\<rparr>))"

definition WRITE32 :: "u32 \<Rightarrow> u32 \<Rightarrow> 'a cpu_scheme \<Rightarrow> 'a cpu_scheme" where
  "WRITE32 reg val s = s\<lparr>bus := Wr reg val # bus s\<rparr>"

definition cpu_get_periphbase :: "hardware \<Rightarrow> u32" where
  "cpu_get_periphbase hw = cp15_periphbase hw"

definition cpu_enable_interrupts :: "'a cpu_scheme \<Rightarrow> 'a cpu_scheme" where
  "cpu_enable_interrupts s = s\<lparr>interrupts_enabled := True\<rparr>"

text \<open>
  \<open>while (reg & msk);\<close>: read the register until the masked bits are clear.
  The loop has no bound in C; \<^const>\<open>None\<close> is the loop that never ends.
\<close>

partial_function (option) poll_while ::
  "hardware \<Rightarrow> u32 \<Rightarrow> u32 \<Rightarrow> 'a cpu_scheme \<Rightarrow> 'a cpu_scheme option" where
  "poll_while hw a msk s =
     (if fst (read32 hw a s) AND msk \<noteq> 0 then poll_while hw a msk (snd (read32 hw a s))
      else Some (snd (read32 hw a s)))"

section \<open>The accesses made\<close>

text \<open>The values written to a register and the writes of a run, in program order.\<close>

fun writes :: "access list \<Rightarrow> (u32 \<times> u32) list" where
  "writes [] = []"
| "writes (Rd a v # h) = writes h"
| "writes (Wr a v # h) = writes h @ [(a, v)]"

definition written :: "u32 \<Rightarrow> access list \<Rightarrow> u32 list" where
  "written r h = map snd (filter (\<lambda>w. fst w = r) (writes h))"

text \<open>
  \<open>rmw\<close> is the compound assignment to a register: one read, one write.
\<close>

definition rmw :: "hardware \<Rightarrow> u32 \<Rightarrow> (u32 \<Rightarrow> u32) \<Rightarrow> 'a cpu_scheme \<Rightarrow> 'a cpu_scheme" where
  "rmw hw a f s = (let (v, s') = read32 hw a s in WRITE32 a (f v) s')"

lemma read32_simps [simp]:
  "fst (read32 hw a s) = bus_read hw (bus s) a"
  "bus (snd (read32 hw a s)) = Rd a (bus_read hw (bus s) a) # bus s"
  "interrupts_enabled (snd (read32 hw a s)) = interrupts_enabled s"
  "cpu.more (snd (read32 hw a s)) = cpu.more s"
  by (simp_all add: read32_def Let_def)

lemma WRITE32_simps [simp]:
  "bus (WRITE32 a v s) = Wr a v # bus s"
  "interrupts_enabled (WRITE32 a v s) = interrupts_enabled s"
  "cpu.more (WRITE32 a v s) = cpu.more s"
  by (simp_all add: WRITE32_def)

lemma written_simps [simp]:
  "written r [] = []"
  "written r (Rd a v # h) = written r h"
  "written r (Wr a v # h) = written r h @ (if a = r then [v] else [])"
  by (simp_all add: written_def)

lemma rmw_simps [simp]:
  "bus (rmw hw a f s) =
     Wr a (f (bus_read hw (bus s) a)) # Rd a (bus_read hw (bus s) a) # bus s"
  "interrupts_enabled (rmw hw a f s) = interrupts_enabled s"
  "cpu.more (rmw hw a f s) = cpu.more s"
  by (simp_all add: rmw_def split_beta)

section \<open>What a driver call does\<close>

text \<open>
  \<open>did s ws s'\<close>: the call changed nothing but the bus, on which it made the
  writes \<open>ws\<close>, in that order, and any number of reads.
\<close>

definition did :: "'a cpu_scheme \<Rightarrow> (u32 \<times> u32) list \<Rightarrow> 'a cpu_scheme \<Rightarrow> bool" where
  "did s ws s' \<longleftrightarrow>
     interrupts_enabled s' = interrupts_enabled s \<and> cpu.more s' = cpu.more s \<and>
     writes (bus s') = writes (bus s) @ ws"

lemma did_refl [intro, simp]: "did s [] s"
  by (simp add: did_def)

lemma did_trans [trans]: "did s ws t \<Longrightarrow> did t vs u \<Longrightarrow> did s (ws @ vs) u"
  by (simp add: did_def)

lemma did_read32 [intro, simp]: "did s [] (snd (read32 hw a s))"
  by (simp add: did_def)

lemma did_WRITE32 [intro, simp]: "did s [(a, v)] (WRITE32 a v s)"
  by (simp add: did_def)

lemma did_rmw: "did s [(a, f (bus_read hw (bus s) a))] (rmw hw a f s)"
  by (simp add: did_def)

lemma did_writes: "did s ws s' \<Longrightarrow> writes (bus s') = writes (bus s) @ ws"
  by (simp add: did_def)

section \<open>Polling\<close>

text \<open>
  \<open>polls_clear hw a msk k h\<close>: one of the next \<open>k + 1\<close> reads of the register,
  made back to back after the accesses \<open>h\<close>, shows the masked bits clear.
\<close>

primrec polls_clear :: "hardware \<Rightarrow> u32 \<Rightarrow> u32 \<Rightarrow> nat \<Rightarrow> access list \<Rightarrow> bool" where
  "polls_clear hw a msk 0 h \<longleftrightarrow> bus_read hw h a AND msk = 0"
| "polls_clear hw a msk (Suc k) h \<longleftrightarrow>
     bus_read hw h a AND msk = 0 \<or> polls_clear hw a msk k (Rd a (bus_read hw h a) # h)"

text \<open>The register shows the masked bits clear if it is read often enough.\<close>

definition eventually_clear :: "hardware \<Rightarrow> u32 \<Rightarrow> u32 \<Rightarrow> bool" where
  "eventually_clear hw a msk \<longleftrightarrow> (\<forall>h. \<exists>k. polls_clear hw a msk k h)"

lemma poll_while_step:
  "poll_while hw a msk s =
     (if bus_read hw (bus s) a AND msk \<noteq> 0 then poll_while hw a msk (snd (read32 hw a s))
      else Some (snd (read32 hw a s)))"
  by (subst poll_while.simps) simp

lemma polls_clear_returns:
  "polls_clear hw a msk k (bus s) \<Longrightarrow> \<exists>s'. poll_while hw a msk s = Some s'"
proof (induction k arbitrary: s)
  case 0
  then show ?case by (simp add: poll_while_step[of hw a msk s])
next
  case (Suc k)
  then show ?case
    using Suc.IH[of "snd (read32 hw a s)"]
    by (cases "bus_read hw (bus s) a AND msk = 0") (auto simp: poll_while_step[of hw a msk s])
qed

lemma poll_while_did:
  assumes ret: "poll_while hw a msk s = Some s'"
  shows "did s [] s' \<and> (\<exists>v h. bus s' = Rd a v # h \<and> v AND msk = 0)"
proof (rule poll_while.raw_induct
    [where P = "\<lambda>hw a msk s s'. did s [] s' \<and> (\<exists>v h. bus s' = Rd a v # h \<and> v AND msk = 0)",
      OF _ ret])
  fix f :: "hardware \<Rightarrow> u32 \<Rightarrow> u32 \<Rightarrow> 'a cpu_scheme \<Rightarrow> 'a cpu_scheme option"
    and hw a msk s s'
  assume IH: "\<And>hw a msk s s'. f hw a msk s = Some s' \<Longrightarrow>
      did s [] s' \<and> (\<exists>v h. bus s' = Rd a v # h \<and> v AND msk = 0)"
    and eq: "(if fst (read32 hw a s) AND msk \<noteq> 0 then f hw a msk (snd (read32 hw a s))
      else Some (snd (read32 hw a s))) = Some s'"
  show "did s [] s' \<and> (\<exists>v h. bus s' = Rd a v # h \<and> v AND msk = 0)"
  proof (cases "bus_read hw (bus s) a AND msk = 0")
    case True
    with eq have "s' = snd (read32 hw a s)" by simp
    with True show ?thesis by simp
  next
    case False
    with eq have "f hw a msk (snd (read32 hw a s)) = Some s'" by simp
    from IH[OF this] show ?thesis
      using did_trans[OF did_read32[of s hw a], of "[]" s'] by simp
  qed
qed

lemma poll_while_returns:
  assumes "eventually_clear hw a msk"
  obtains s' where "poll_while hw a msk s = Some s'" and "did s [] s'"
  using assms polls_clear_returns[of hw a msk _ s] poll_while_did[of hw a msk s]
  unfolding eventually_clear_def by blast

section \<open>A device for the witnesses\<close>

text \<open>Every register reads as zero; the peripheral base is that of the Versatile Express board.\<close>

definition idle_hw :: hardware where
  "idle_hw = \<lparr>bus_read = (\<lambda>h a. 0), cp15_periphbase = 0x1E000000\<rparr>"

lemma idle_hw_clear [simp]: "eventually_clear idle_hw a msk"
  by (auto simp: eventually_clear_def idle_hw_def intro: exI[of _ 0])

end
