(* ===== verification/Gic.thy ===== *)
theory Gic
  imports Cpu
begin

unbundle bit_operations_syntax

text \<open>
  The interrupt controller driver (\<^verbatim>\<open>gic.c\<close>, \<^verbatim>\<open>gic.h\<close>): the two register blocks,
  the static pointers to them, and the four operations. Every register access
  is at the address C computes from the packed structs.
\<close>

section \<open>Register blocks\<close>

definition gic_distributor_registers :: reg_struct where
  "gic_distributor_registers =
    [(''DCTLR'', 1), (''DTYPER'', 1), (''DIIDR'', 1), (''_reserved0'', 29),
     (''DIGROUPR'', 32), (''DISENABLER'', 32), (''DICENABLER'', 32), (''DISPENDR'', 32),
     (''DICPENDR'', 32), (''DICDABR'', 32), (''_reserved1'', 32), (''DIPRIORITY'', 255),
     (''_reserved2'', 1), (''DITARGETSRO'', 8), (''DITARGETSR'', 246), (''_reserved3'', 1),
     (''DICFGR'', 64)]"

definition gic_cpu_interface_registers :: reg_struct where
  "gic_cpu_interface_registers =
    [(''CCTLR'', 1), (''CCPMR'', 1), (''CBPR'', 1), (''CIAR'', 1), (''CEOIR'', 1),
     (''CRPR'', 1), (''CHPPIR'', 1), (''CABPR'', 1), (''CAIAR'', 1), (''CAEOIR'', 1),
     (''CAHPPIR'', 1)]"

definition DCTRL_ENABLE :: u32 where "DCTRL_ENABLE = 1"
definition CCTRL_ENABLE :: u32 where "CCTRL_ENABLE = 1"
definition CIAR_ID_MASK :: u32 where "CIAR_ID_MASK = 0x3FF"
definition CEOIR_ID_MASK :: u32 where "CEOIR_ID_MASK = 0x3FF"

definition GIC_DIST_BASE :: "hardware \<Rightarrow> u32" where
  "GIC_DIST_BASE hw = cpu_get_periphbase hw + GIC_DISTRIBUTOR_OFFSET"

definition GIC_IFACE_BASE :: "hardware \<Rightarrow> u32" where
  "GIC_IFACE_BASE hw = cpu_get_periphbase hw + GIC_IFACE_OFFSET"

section \<open>State\<close>

record gic_state = cpu +
  gic_dregs :: u32
  gic_ifregs :: u32

text \<open>The address of \<^verbatim>\<open>gic_dregs->f[i]\<close> and of \<^verbatim>\<open>gic_ifregs->f\<close>.\<close>

definition dreg :: "u32 \<Rightarrow> string \<Rightarrow> u8 \<Rightarrow> u32" where
  "dreg base f i = base + of_nat (offsetof gic_distributor_registers f) + 4 * ucast i"

definition ifreg :: "u32 \<Rightarrow> string \<Rightarrow> u32" where
  "ifreg base f = base + of_nat (offsetof gic_cpu_interface_registers f)"

section \<open>Operations\<close>

definition gic_init :: "hardware \<Rightarrow> 'a gic_state_scheme \<Rightarrow> 'a gic_state_scheme" where
  "gic_init hw s =
    (let s = s\<lparr>gic_ifregs := GIC_IFACE_BASE hw\<rparr>;
         s = s\<lparr>gic_dregs := GIC_DIST_BASE hw\<rparr>;
         s = WRITE32 (ifreg (gic_ifregs s) ''CCPMR'') 0xFFFF s;
         s = WRITE32 (ifreg (gic_ifregs s) ''CCTLR'') CCTRL_ENABLE s;
         dregs = GIC_DIST_BASE hw
     in WRITE32 (dreg dregs ''DCTLR'' 0) DCTRL_ENABLE s)"

definition gic_enable_interrupt ::
  "hardware \<Rightarrow> u16 \<Rightarrow> 'a gic_state_scheme \<Rightarrow> 'a gic_state_scheme" where
  "gic_enable_interrupt hw number s =
    (let reg = ucast (number div 32) :: u8;
         bt = ucast (number mod 32) :: u8;
         (reg_val, s) = read32 hw (dreg (gic_dregs s) ''DISENABLER'' reg) s;
         reg_val = reg_val OR push_bit (unat bt) 1;
         s = WRITE32 (dreg (gic_dregs s) ''DISENABLER'' reg) reg_val s;
         reg = ucast (number div 4) :: u8;
         bt = ucast ((number mod 4) * 8) :: u8;
         (reg_val, s) = read32 hw (dreg (gic_dregs s) ''DITARGETSR'' reg) s;
         reg_val = reg_val OR push_bit (unat bt) 1
     in WRITE32 (dreg (gic_dregs s) ''DITARGETSR'' reg) reg_val s)"

definition gic_acknowledge_interrupt ::
  "hardware \<Rightarrow> 'a gic_state_scheme \<Rightarrow> u16 \<times> 'a gic_state_scheme" where
  "gic_acknowledge_interrupt hw s =
    (let (v, s) = read32 hw (ifreg (gic_ifregs s) ''CIAR'') s
     in (ucast (v AND CIAR_ID_MASK), s))"

definition gic_end_interrupt :: "u16 \<Rightarrow> 'a gic_state_scheme \<Rightarrow> 'a gic_state_scheme" where
  "gic_end_interrupt number s =
    WRITE32 (ifreg (gic_ifregs s) ''CEOIR'') (ucast number AND CEOIR_ID_MASK) s"

section \<open>Lemmas\<close>

lemma gic_offsets [simp]:
  "offsetof gic_distributor_registers ''DCTLR'' = 0x0"
  "offsetof gic_distributor_registers ''DIGROUPR'' = 0x80"
  "offsetof gic_distributor_registers ''DISENABLER'' = 0x100"
  "offsetof gic_distributor_registers ''DICENABLER'' = 0x180"
  "offsetof gic_distributor_registers ''DIPRIORITY'' = 0x400"
  "offsetof gic_distributor_registers ''DITARGETSRO'' = 0x800"
  "offsetof gic_distributor_registers ''DITARGETSR'' = 0x820"
  "offsetof gic_distributor_registers ''DICFGR'' = 0xBFC"
  "offsetof gic_cpu_interface_registers ''CCTLR'' = 0x0"
  "offsetof gic_cpu_interface_registers ''CCPMR'' = 0x4"
  "offsetof gic_cpu_interface_registers ''CIAR'' = 0xC"
  "offsetof gic_cpu_interface_registers ''CEOIR'' = 0x10"
  by (simp_all add: gic_distributor_registers_def gic_cpu_interface_registers_def)

lemma gic_state_bus_simps [simp]:
  "gic_dregs (WRITE32 a v s) = gic_dregs s"
  "gic_ifregs (WRITE32 a v s) = gic_ifregs s"
  "gic_state.more (WRITE32 a v s) = gic_state.more s"
  "gic_dregs (snd (read32 hw a s)) = gic_dregs s"
  "gic_ifregs (snd (read32 hw a s)) = gic_ifregs s"
  "gic_state.more (snd (read32 hw a s)) = gic_state.more s"
  by (simp_all add: WRITE32_def read32_def Let_def)

lemma gic_init_state:
  "gic_ifregs (gic_init hw s) = GIC_IFACE_BASE hw"
  "gic_dregs (gic_init hw s) = GIC_DIST_BASE hw"
  "gic_state.more (gic_init hw s) = gic_state.more s"
  "interrupts_enabled (gic_init hw s) = interrupts_enabled s"
  by (simp_all add: gic_init_def Let_def)

lemma gic_init_writes:
  "bus (gic_init hw s) =
    [Wr (GIC_DIST_BASE hw) 1, Wr (GIC_IFACE_BASE hw) 1, Wr (GIC_IFACE_BASE hw + 4) 0xFFFF] @ bus s"
  by (simp add: gic_init_def Let_def ifreg_def dreg_def DCTRL_ENABLE_def CCTRL_ENABLE_def)

lemma gic_enable_interrupt_frame [simp]:
  "gic_ifregs (gic_enable_interrupt hw n s) = gic_ifregs s"
  "gic_dregs (gic_enable_interrupt hw n s) = gic_dregs s"
  "gic_state.more (gic_enable_interrupt hw n s) = gic_state.more s"
  "interrupts_enabled (gic_enable_interrupt hw n s) = interrupts_enabled s"
  by (simp_all add: gic_enable_interrupt_def Let_def split_beta)

lemma ucast_u8_of_u16:
  fixes n :: u16
  assumes "unat n < 256"
  shows "unat (ucast n :: u8) = unat n"
  using assms by (simp add: unsigned_ucast_eq take_bit_nat_eq_self)

lemma ucast_u32_u8: "(ucast (w :: u8) :: u32) = of_nat (unat w)"
  by simp

text \<open>The register and bit computations do not lose bits for the 1024 interrupt ids.\<close>

lemma enable_index:
  fixes n :: u16
  assumes "unat n < 1024"
  shows "(ucast (ucast (n div 32) :: u8) :: u32) = of_nat (unat n div 32)"
    and "unat (ucast (n mod 32) :: u8) = unat n mod 32"
    and "(ucast (ucast (n div 4) :: u8) :: u32) = of_nat (unat n div 4)"
    and "unat (ucast ((n mod 4) * 8) :: u8) = unat n mod 4 * 8"
proof -
  have d: "unat (n div 32) = unat n div 32" "unat (n mod 32) = unat n mod 32"
    "unat (n div 4) = unat n div 4" "unat (n mod 4) = unat n mod 4"
    by (simp_all add: unat_div unat_mod)
  have "unat ((n mod 4) * 8) = unat n mod 4 * 8"
    by (simp add: unat_word_ariths d)
  with d assms show "(ucast (ucast (n div 32) :: u8) :: u32) = of_nat (unat n div 32)"
    and "unat (ucast (n mod 32) :: u8) = unat n mod 32"
    and "(ucast (ucast (n div 4) :: u8) :: u32) = of_nat (unat n div 4)"
    and "unat (ucast ((n mod 4) * 8) :: u8) = unat n mod 4 * 8"
    by (simp_all add: ucast_u32_u8 ucast_u8_of_u16)
qed

text \<open>
  The architecture's numbering: the byte of interrupt \<open>id\<close> in the target
  registers, which start at 0x800 (\<^verbatim>\<open>DITARGETSRO\<close>, ids 0 to 31) and go on at 0x820
  (\<^verbatim>\<open>DITARGETSR\<close>, ids from 32).
\<close>

definition target_byte_addr :: "u32 \<Rightarrow> nat \<Rightarrow> u32" where
  "target_byte_addr dist i =
     dist + of_nat (offsetof gic_distributor_registers ''DITARGETSRO'') + of_nat i"

definition enable_reg :: "u32 \<Rightarrow> nat \<Rightarrow> u32" where
  "enable_reg dist i = dist + 0x100 + 4 * of_nat (i div 32)"

definition code_target_reg :: "u32 \<Rightarrow> nat \<Rightarrow> u32" where
  "code_target_reg dist i = dist + 0x820 + 4 * of_nat (i div 4)"

lemma gic_enable_interrupt_bus:
  assumes "unat n < 1024"
  shows "\<exists>v w. v = bus_read hw (bus s) (enable_reg (gic_dregs s) (unat n)) \<and>
    bus (gic_enable_interrupt hw n s) =
      [Wr (code_target_reg (gic_dregs s) (unat n)) (w OR push_bit (unat n mod 4 * 8) 1),
       Rd (code_target_reg (gic_dregs s) (unat n)) w,
       Wr (enable_reg (gic_dregs s) (unat n)) (v OR push_bit (unat n mod 32) 1),
       Rd (enable_reg (gic_dregs s) (unat n)) v] @ bus s"
  by (simp add: gic_enable_interrupt_def split_beta Let_def dreg_def enable_index[OF assms]
      enable_reg_def code_target_reg_def)

lemma target_not_enable:
  assumes "i < 1024"
  shows "code_target_reg dist i \<noteq> enable_reg dist i"
proof
  assume "code_target_reg dist i = enable_reg dist i"
  then have "(of_nat (0x820 + 4 * (i div 4)) :: u32) = of_nat (0x100 + 4 * (i div 32))"
    by (simp add: code_target_reg_def enable_reg_def algebra_simps)
  then have "0x820 + 4 * (i div 4) = 0x100 + 4 * (i div 32)"
    using assms by (subst (asm) word_of_nat_eq_small) auto
  then show False using assms by arith
qed

text \<open>A state after \<^const>\<open>gic_init\<close> on the board, for the witnesses.\<close>

definition gic_state_ready :: gic_state where
  "gic_state_ready = \<lparr>bus = [], interrupts_enabled = False, gic_dregs = 0x1E001000,
     gic_ifregs = 0x1E000100\<rparr>"

section \<open>Properties\<close>

text \<open>
  C16. Enabling an interrupt id below 1024 writes the id's set-enable register
  with the id's bit set and every other bit as it was read, and the only other
  register it writes is the target register the code computes.
\<close>

theorem gic_enable_interrupt_sets_bit:
  assumes "unat n < 1024"
  shows "\<exists>v. written (enable_reg (gic_dregs s) (unat n)) (bus (gic_enable_interrupt hw n s)) =
      written (enable_reg (gic_dregs s) (unat n)) (bus s) @ [v] \<and>
    (\<forall>k. bit v k \<longleftrightarrow>
      bit (bus_read hw (bus s) (enable_reg (gic_dregs s) (unat n))) k \<or> k = unat n mod 32) \<and>
    (\<forall>r. r \<notin> {enable_reg (gic_dregs s) (unat n), code_target_reg (gic_dregs s) (unat n)} \<longrightarrow>
      written r (bus (gic_enable_interrupt hw n s)) = written r (bus s))"
proof -
  obtain w where b: "bus (gic_enable_interrupt hw n s) =
      [Wr (code_target_reg (gic_dregs s) (unat n)) (w OR push_bit (unat n mod 4 * 8) 1),
       Rd (code_target_reg (gic_dregs s) (unat n)) w,
       Wr (enable_reg (gic_dregs s) (unat n))
         (bus_read hw (bus s) (enable_reg (gic_dregs s) (unat n)) OR push_bit (unat n mod 32) 1),
       Rd (enable_reg (gic_dregs s) (unat n))
         (bus_read hw (bus s) (enable_reg (gic_dregs s) (unat n)))] @ bus s"
    using gic_enable_interrupt_bus[OF assms, of hw s] by blast
  have "code_target_reg (gic_dregs s) (unat n) \<noteq> enable_reg (gic_dregs s) (unat n)"
    using assms target_not_enable by blast
  with b show ?thesis by (auto simp: c_bits)
qed

theorem gic_enable_interrupt_sets_bit_witness:
  "\<exists>v. written 0x1E001104 (bus (gic_enable_interrupt idle_hw 37 gic_state_ready)) = [v] \<and> bit v 5"
  using gic_enable_interrupt_sets_bit[of 37 gic_state_ready idle_hw]
  by (auto simp: gic_state_ready_def enable_reg_def)



end
