(* ===== verification/Irq.thy ===== *)
theory Irq
  imports Gic
begin

unbundle bit_operations_syntax

text \<open>
  Interrupt dispatch (\<^verbatim>\<open>irq.c\<close>, \<^verbatim>\<open>irq.h\<close>): the table of callbacks, registration,
  lookup, and the handler the IRQ vector branches to. The bodies of the
  callbacks are in other components; the handler takes them as the argument
  \<open>call\<close>, which the whole program instantiates.
\<close>

section \<open>State\<close>

definition ISR_COUNT :: nat where "ISR_COUNT = 1024"
definition MAX_ISR :: nat where "MAX_ISR = ISR_COUNT - 1"

datatype irq_error = IRQ_OK | IRQ_INVALID_IRQ_ID | IRQ_ALREADY_REGISTERED

record irq_state = gic_state +
  callbacks :: "fn_ptr option list"

definition irq_inv :: "'a irq_state_scheme \<Rightarrow> bool" where
  "irq_inv s \<longleftrightarrow> length (callbacks s) = ISR_COUNT"

text \<open>The state before \<^verbatim>\<open>main\<close>: static storage is zero, interrupts are masked.\<close>

definition irq_state0 :: irq_state where
  "irq_state0 = \<lparr>bus = [], interrupts_enabled = False, gic_dregs = 0, gic_ifregs = 0,
     callbacks = replicate 1024 None\<rparr>"

section \<open>Operations\<close>

definition irq_register_isr ::
  "u16 \<Rightarrow> fn_ptr \<Rightarrow> 'a irq_state_scheme \<Rightarrow> irq_error \<times> 'a irq_state_scheme" where
  "irq_register_isr irq_number cb s =
    (if unat irq_number > MAX_ISR then (IRQ_INVALID_IRQ_ID, s)
     else if callbacks s ! unat irq_number \<noteq> None then (IRQ_ALREADY_REGISTERED, s)
     else (IRQ_OK, s\<lparr>callbacks := (callbacks s)[unat irq_number := Some cb]\<rparr>))"

definition callback :: "u16 \<Rightarrow> 'a irq_state_scheme \<Rightarrow> fn_ptr option" where
  "callback number s = (if unat number > MAX_ISR then None else callbacks s ! unat number)"

definition irq_handler ::
  "hardware \<Rightarrow> (fn_ptr \<Rightarrow> 'a irq_state_scheme \<Rightarrow> 'a irq_state_scheme outcome) \<Rightarrow>
     'a irq_state_scheme \<Rightarrow> 'a irq_state_scheme outcome" where
  "irq_handler hw call s =
    (let (irq, s) = gic_acknowledge_interrupt hw s;
         isr = callback irq s
     in bindO (case isr of Some f \<Rightarrow> call f s | None \<Rightarrow> Returns s)
          (\<lambda>s. Returns (gic_end_interrupt irq s)))"

section \<open>The callback table as an interface\<close>

text \<open>
  What a driver relies on when it registers its handler: a successful
  registration is what the lookup then returns, a failed one changes nothing,
  and no registration ever changes the handler of another id or replaces one
  that is there.
\<close>

locale isr_table =
  fixes register :: "u16 \<Rightarrow> fn_ptr \<Rightarrow> 's \<Rightarrow> irq_error \<times> 's"
    and lookup :: "u16 \<Rightarrow> 's \<Rightarrow> fn_ptr option"
    and inv :: "'s \<Rightarrow> bool"
  assumes register_inv: "inv s \<Longrightarrow> inv (snd (register n f s))"
    and register_ok: "inv s \<Longrightarrow> register n f s = (IRQ_OK, s') \<Longrightarrow> lookup n s' = Some f"
    and register_ok_iff: "inv s \<Longrightarrow> fst (register n f s) = IRQ_OK \<longleftrightarrow> unat n < ISR_COUNT \<and> lookup n s = None"
    and register_fail: "inv s \<Longrightarrow> register n f s = (e, s') \<Longrightarrow> e \<noteq> IRQ_OK \<Longrightarrow> s' = s"
    and register_other: "inv s \<Longrightarrow> m \<noteq> n \<Longrightarrow> lookup m (snd (register n f s)) = lookup m s"
begin

text \<open>A sequence of registrations, each result ignored as the drivers do.\<close>

primrec register_all :: "(u16 \<times> fn_ptr) list \<Rightarrow> 's \<Rightarrow> 's" where
  "register_all [] s = s"
| "register_all (r # rs) s = register_all rs (snd (register (fst r) (snd r) s))"

lemma register_all_inv: "inv s \<Longrightarrow> inv (register_all rs s)"
  by (induction rs arbitrary: s) (auto intro: register_inv)

lemma lookup_register:
  assumes "inv s"
  shows "lookup m (snd (register n f s)) =
    (if m = n \<and> unat n < ISR_COUNT \<and> lookup n s = None then Some f else lookup m s)"
proof (cases "m = n")
  case False
  with assms show ?thesis by (auto simp: register_other)
next
  case True
  obtain e s' where r: "register n f s = (e, s')" by (cases "register n f s")
  show ?thesis
  proof (cases "e = IRQ_OK")
    case True
    with r assms have "lookup n s' = Some f" by (auto intro: register_ok)
    moreover from True r have "fst (register n f s) = IRQ_OK" by simp
    ultimately show ?thesis using assms r \<open>m = n\<close> register_ok_iff[of s n f] by simp
  next
    case False
    with r have "fst (register n f s) \<noteq> IRQ_OK" by simp
    with assms r False \<open>m = n\<close> show ?thesis
      using register_fail[of s n f e s'] register_ok_iff[of s n f] by auto
  qed
qed

text \<open>The first registration of an id wins, whatever comes later.\<close>

lemma register_all_lookup:
  "inv s \<Longrightarrow> lookup m (register_all rs s) =
    (case lookup m s of Some f \<Rightarrow> Some f
     | None \<Rightarrow> if unat m < ISR_COUNT then map_of rs m else None)"
proof (induction rs arbitrary: s)
  case Nil
  then show ?case by (auto split: option.splits)
next
  case (Cons r rs)
  then show ?case
    by (cases r) (auto simp: lookup_register register_inv split: option.splits)
qed

end

lemma irq_register_isr_inv: "irq_inv s \<Longrightarrow> irq_inv (snd (irq_register_isr n f s))"
  by (simp add: irq_register_isr_def irq_inv_def)

interpretation irq_tab: isr_table irq_register_isr callback irq_inv
proof (unfold_locales, goal_cases)
  case 1
  then show ?case by (rule irq_register_isr_inv)
next
  case 2
  then show ?case
    by (auto simp: irq_register_isr_def callback_def irq_inv_def MAX_ISR_def ISR_COUNT_def
        split: if_splits)
next
  case 3
  then show ?case
    by (auto simp: irq_register_isr_def callback_def irq_inv_def MAX_ISR_def ISR_COUNT_def)
next
  case 4
  then show ?case by (auto simp: irq_register_isr_def split: if_splits)
next
  case (5 s m n f)
  then have "unat m \<noteq> unat n" by (simp add: unsigned_word_eqI word_unat_eq_iff)
  then show ?case by (auto simp: irq_register_isr_def callback_def)
qed

lemma irq_state0_inv [simp]: "irq_inv irq_state0" "unat n < 1024 \<Longrightarrow> callback n irq_state0 = None"
  by (simp_all add: irq_inv_def irq_state0_def ISR_COUNT_def callback_def)

section \<open>Frame lemmas\<close>

lemma irq_state_bus_simps [simp]:
  "callbacks (WRITE32 a v s) = callbacks s"
  "callbacks (snd (read32 hw a s)) = callbacks s"
  "irq_state.more (WRITE32 a v s) = irq_state.more s"
  "irq_state.more (snd (read32 hw a s)) = irq_state.more s"
  by (simp_all add: WRITE32_def read32_def Let_def)

lemma callback_cong: "callbacks s = callbacks t \<Longrightarrow> callback n s = callback n t"
  by (simp add: callback_def)

lemma irq_register_isr_frame [simp]:
  "bus (snd (irq_register_isr n f s)) = bus s"
  "interrupts_enabled (snd (irq_register_isr n f s)) = interrupts_enabled s"
  "gic_dregs (snd (irq_register_isr n f s)) = gic_dregs s"
  "gic_ifregs (snd (irq_register_isr n f s)) = gic_ifregs s"
  "irq_state.more (snd (irq_register_isr n f s)) = irq_state.more s"
  by (simp_all add: irq_register_isr_def)

lemma did_irq_frame:
  assumes "did s ws s'"
  shows "callbacks s' = callbacks s" and "gic_dregs s' = gic_dregs s" and "gic_ifregs s' = gic_ifregs s"
    and "irq_state.more s' = irq_state.more s"
  using assms by (cases s, cases s', simp add: did_def irq_state.defs gic_state.defs)+

lemma did_callback: "did s ws s' \<Longrightarrow> callback n s' = callback n s"
  by (simp add: callback_def did_irq_frame)

lemma did_irq_inv: "did s ws s' \<Longrightarrow> irq_inv s' = irq_inv s"
  by (simp add: irq_inv_def did_irq_frame)

section \<open>Properties\<close>

text \<open>
  Registering a handler makes exactly that handler the one the dispatcher
  finds for the id, provided the id is below 1024 and was free; every other
  id, and an id that already has a handler, keeps what it had.
\<close>

theorem irq_register_then_callback:
  assumes "irq_inv s"
  shows "callback m (snd (irq_register_isr n f s)) =
      (if m = n \<and> unat n < 1024 \<and> callback n s = None then Some f else callback m s) \<and>
    fst (irq_register_isr n f s) =
      (if unat n \<ge> 1024 then IRQ_INVALID_IRQ_ID
       else if callback n s \<noteq> None then IRQ_ALREADY_REGISTERED else IRQ_OK) \<and>
    irq_inv (snd (irq_register_isr n f s))"
  using assms irq_tab.lookup_register[OF assms, of m n f] irq_register_isr_inv[OF assms]
  by (simp add: ISR_COUNT_def irq_register_isr_def callback_def MAX_ISR_def)

theorem irq_register_then_callback_witness:
  "callback 37 (snd (irq_register_isr 37 uart_isr_fn irq_state0)) = Some uart_isr_fn"
  using irq_register_then_callback[OF irq_state0_inv(1), of 37 37 uart_isr_fn] by simp

end
