(* ===== verification/Doubles.thy ===== *)
theory Doubles
  imports Complex_Main "HOL-Library.Log_Nat" Prelude
begin

text \<open>
  The C type \<^verbatim>\<open>double\<close> as the drivers use it: IEEE binary64 values are the
  rationals \<open>k * 2 ^ e\<close> with a significand of at most 53 bits, and each
  arithmetic operation is the exact result rounded to nearest, ties to even
  (\<open>rnd\<close>). The values that occur are far from the overflow and subnormal
  ranges, which are therefore not modelled.
\<close>

section \<open>Rounding\<close>

definition round_half_even :: "rat \<Rightarrow> int" where
  "round_half_even y =
    (let d = \<lfloor>y\<rfloor>; r = y - of_int d
     in if r < 1/2 \<or> (r = 1/2 \<and> even d) then d else d + 1)"

text \<open>The exponent \<open>e\<close> with \<open>2 ^ e \<le> x < 2 ^ (e + 1)\<close>, from the bit lengths.\<close>

definition bin_exp :: "rat \<Rightarrow> int" where
  "bin_exp x =
    (let (p, q) = quotient_of x;
         k = int (floorlog 2 (nat p)) - int (floorlog 2 (nat q))
     in if 2 powi k \<le> x then k else k - 1)"

definition rnd_pos :: "rat \<Rightarrow> rat" where
  "rnd_pos x = (let u = 2 powi (bin_exp x - 52) in of_int (round_half_even (x / u)) * u)"

definition rnd :: "rat \<Rightarrow> rat" where
  "rnd x = (if x = 0 then 0 else if x < 0 then - rnd_pos (- x) else rnd_pos x)"

text \<open>
  Conversion to an unsigned integer of width \<open>w\<close> truncates towards zero and is
  undefined when the truncated value does not fit.
\<close>

definition d2u :: "nat \<Rightarrow> rat \<Rightarrow> int option" where
  "d2u w x = (if - 1 < x \<and> x < 2 ^ w then Some (if x < 0 then 0 else \<lfloor>x\<rfloor>) else None)"

section \<open>Lemmas\<close>

lemma round_half_even_of_int [simp]: "round_half_even (of_int n) = n"
  by (simp add: round_half_even_def)

lemma round_half_even_error: "\<bar>of_int (round_half_even y) - y\<bar> \<le> 1/2"
proof -
  have "0 \<le> y - of_int \<lfloor>y\<rfloor>" and "y - of_int \<lfloor>y\<rfloor> < 1" by linarith+
  then show ?thesis by (auto simp: round_half_even_def Let_def)
qed

lemma floorlog_rat:
  assumes "0 < (p :: int)"
  shows "(2::rat) powi (int (floorlog 2 (nat p)) - 1) \<le> of_int p"
    and "of_int p < (2::rat) powi int (floorlog 2 (nat p))"
proof -
  define l where "l = floorlog 2 (nat p)"
  have b: "2 ^ (l - 1) \<le> nat p" "nat p < 2 ^ l"
    using assms floorlog_bounds[of "nat p" 2] by (simp_all add: l_def)
  then have "l \<noteq> 0" using assms by (cases l) auto
  have "(2::rat) powi (int l - 1) = of_nat (2 ^ (l - 1))"
    using \<open>l \<noteq> 0\<close> by (simp add: of_nat_diff power_int_def nat_diff_distrib)
  also have "\<dots> \<le> of_nat (nat p)" using b(1) by (simp only: of_nat_le_iff)
  finally show "(2::rat) powi (int (floorlog 2 (nat p)) - 1) \<le> of_int p"
    using assms by (simp add: l_def)
  have "(of_nat (nat p) :: rat) < of_nat (2 ^ l)" using b(2) by (simp only: of_nat_less_iff)
  then show "of_int p < (2::rat) powi int (floorlog 2 (nat p))"
    using assms by (simp add: l_def power_int_of_nat)
qed

lemma bin_exp_bounds:
  assumes "0 < x"
  shows "2 powi bin_exp x \<le> x" and "x < 2 powi (bin_exp x + 1)"
proof -
  obtain p q where pq: "quotient_of x = (p, q)" by (cases "quotient_of x")
  have q: "0 < q" using quotient_of_denom_pos[OF pq] .
  have x: "x = of_int p / of_int q" using quotient_of_div[OF pq] .
  have p: "0 < p" using assms q unfolding x by (simp add: zero_less_divide_iff)
  define lp where "lp = floorlog 2 (nat p)"
  define lq where "lq = floorlog 2 (nat q)"
  define k where "k = int lp - int lq"
  have P: "(2::rat) powi (int lp - 1) \<le> of_int p" "of_int p < (2::rat) powi int lp"
    and Q: "(2::rat) powi (int lq - 1) \<le> of_int q" "of_int q < (2::rat) powi int lq"
    using p q floorlog_rat[of p] floorlog_rat[of q] by (simp_all add: lp_def lq_def)
  have up: "x < 2 powi (k + 1)"
  proof -
    have "of_int p < (2::rat) powi (k + 1) * 2 powi (int lq - 1)"
      using P(2) by (simp add: k_def flip: power_int_add)
    also have "\<dots> \<le> 2 powi (k + 1) * of_int q"
      using Q(1) by (simp add: mult_left_mono)
    finally show ?thesis using q by (simp add: x field_simps)
  qed
  have lo: "2 powi (k - 1) \<le> x"
  proof -
    have "(2::rat) powi (k - 1) * of_int q \<le> 2 powi (k - 1) * 2 powi int lq"
      using Q(2) by (simp add: mult_left_mono)
    also have "\<dots> = 2 powi (int lp - 1)" by (simp add: k_def power_int_diff)
    finally show ?thesis using P(1) q by (simp add: x field_simps)
  qed
  have e: "bin_exp x = (if 2 powi k \<le> x then k else k - 1)"
    by (simp add: bin_exp_def pq k_def lp_def lq_def)
  from lo e show "2 powi bin_exp x \<le> x" by simp
  from up e show "x < 2 powi (bin_exp x + 1)" by (simp split: if_splits)
qed

lemma rnd_pos_error:
  assumes "0 < x"
  shows "\<bar>rnd x - x\<bar> \<le> x / 2 ^ 53"
proof -
  define u where "u = (2::rat) powi (bin_exp x - 52)"
  have u: "0 < u" by (simp add: u_def)
  have "\<bar>of_int (round_half_even (x / u)) * u - x\<bar> = \<bar>of_int (round_half_even (x / u)) - x / u\<bar> * u"
    using u by (simp add: abs_mult_pos' field_simps flip: abs_mult_pos)
  also have "\<dots> \<le> 1/2 * u"
    using u round_half_even_error[of "x / u"] by (intro mult_right_mono) auto
  also have "\<dots> = 2 powi bin_exp x / 2 ^ 53"
    by (simp add: u_def power_int_diff)
  also have "\<dots> \<le> x / 2 ^ 53"
    using bin_exp_bounds(1)[OF assms] by (simp add: divide_right_mono)
  finally show ?thesis using assms by (simp add: rnd_def rnd_pos_def u_def Let_def)
qed

text \<open>A value with a significand below \<open>2 ^ 53\<close> is a double: it is not rounded.\<close>

lemma rnd_exact:
  assumes "x = of_int k * 2 powi j" and "0 \<le> k" and "k < 2 ^ 53"
  shows "rnd x = x"
proof (cases "k = 0")
  case True
  with assms show ?thesis by (simp add: rnd_def)
next
  case False
  with assms have x: "0 < x" by simp
  have "(2::rat) powi bin_exp x \<le> x" by (rule bin_exp_bounds(1)[OF x])
  also have "x < 2 ^ 53 * 2 powi j"
    using assms by (simp add: of_int_less_iff[where 'a = rat, of k "2 ^ 53", simplified])
  also have "\<dots> = 2 powi (53 + j)" by (simp add: power_int_add)
  finally have "bin_exp x < 53 + j"
    using power_int_increasing[of "53 + j" "bin_exp x" "2::rat"] by (cases "bin_exp x < 53 + j") auto
  then have n: "0 \<le> j - (bin_exp x - 52)" by simp
  have "x / 2 powi (bin_exp x - 52) = of_int k * 2 powi (j - (bin_exp x - 52))"
    using assms(1) by (simp add: power_int_diff)
  also have "\<dots> = of_int (k * 2 ^ nat (j - (bin_exp x - 52)))"
    using n by (simp add: power_int_def)
  finally obtain m where "x / 2 powi (bin_exp x - 52) = of_int m" by blast
  moreover from this have "of_int m * 2 powi (bin_exp x - 52) = x"
    by (metis nonzero_mult_div_cancel_right power_int_eq_0_iff times_divide_eq_left
        zero_neq_numeral)
  ultimately show ?thesis using x by (simp add: rnd_def rnd_pos_def Let_def)
qed

text \<open>Evaluation: the double next to \<open>x\<close> is the one with the significand \<open>n\<close>.\<close>

lemma power_int_2_less_cancel: "(2::rat) powi a < 2 powi b \<longleftrightarrow> a < b"
  using power_int_increasing[of b a "2::rat"] power_int_strict_increasing[of a b "2::rat"]
  by (cases "a < b") auto

lemma bin_exp_eqI:
  assumes "2 powi e \<le> x" and "x < 2 powi (e + 1)"
  shows "bin_exp x = e"
proof -
  have x: "0 < x" using assms(1) by (rule less_le_trans[rotated]) simp
  have "(2::rat) powi e < 2 powi (bin_exp x + 1)" "(2::rat) powi bin_exp x < 2 powi (e + 1)"
    using assms bin_exp_bounds[OF x] by linarith+
  then show ?thesis by (simp add: power_int_2_less_cancel)
qed

lemma round_half_even_eqI: "\<bar>y - of_int n\<bar> < 1/2 \<Longrightarrow> round_half_even y = n"
  using round_half_even_error[of y] by linarith

lemma rnd_eqI:
  assumes "2 powi e \<le> x" and "x < 2 powi (e + 1)"
    and "\<bar>x / 2 powi (e - 52) - of_int n\<bar> < 1/2"
  shows "rnd x = of_int n * 2 powi (e - 52)"
proof -
  have "0 < x" using assms(1) by (rule less_le_trans[rotated]) simp
  then show ?thesis
    using bin_exp_eqI[OF assms(1,2)] round_half_even_eqI[OF assms(3)]
    by (simp add: rnd_def rnd_pos_def Let_def)
qed

lemma near_floor:
  fixes X :: rat
  assumes "0 < q" and "p mod q \<noteq> 0" and "\<bar>X - of_nat p / of_nat q\<bar> < 1 / of_nat q"
  shows "\<lfloor>X\<rfloor> = int (p div q)"
proof -
  define d r where "d = p div q" and "r = p mod q"
  have r: "1 \<le> r" "r + 1 \<le> q" using assms by (auto simp: r_def Suc_le_eq)
  have "p = d * q + r" by (simp add: d_def r_def)
  then have x: "of_nat p / of_nat q = (of_nat d + of_nat r / of_nat q :: rat)"
    using assms(1) by (simp add: field_simps)
  have "1 / of_nat q \<le> (of_nat r / of_nat q :: rat)"
    using r by (simp add: divide_right_mono)
  moreover have "of_nat r / of_nat q \<le> (1 - 1 / of_nat q :: rat)"
  proof -
    have "of_nat (r + 1) \<le> (of_nat q :: rat)" using r(2) by (simp only: of_nat_le_iff)
    then show ?thesis using assms(1) by (simp add: field_simps)
  qed
  ultimately have "of_nat d < X" and "X < of_nat d + 1"
    using assms(3) unfolding x abs_less_iff by linarith+
  then show ?thesis by (simp add: floor_eq_iff d_def)
qed

lemma floor_rnd_div:
  assumes "0 < p" and "p < 2 ^ 53" and "0 < q"
  shows "\<lfloor>rnd (of_nat p / of_nat q)\<rfloor> = int (p div q)"
proof (cases "p mod q = 0")
  case True
  then have "of_nat p / of_nat q = (of_int (int (p div q)) * 2 powi 0 :: rat)"
    using assms(3) by (auto simp: field_simps simp flip: of_nat_mult)
  moreover have "int (p div q) < 2 ^ 53"
    using assms(2) by (metis div_le_dividend le_less_trans of_nat_less_numeral_power_cancel_iff)
  ultimately show ?thesis
    using rnd_exact[of "of_nat p / of_nat q" "int (p div q)" 0] by simp
next
  case False
  have x: "0 < (of_nat p / of_nat q :: rat)" using assms by simp
  have "of_nat p < (2 ^ 53 :: rat)" using assms(2) by (metis of_nat_less_iff of_nat_numeral of_nat_power)
  then have "(of_nat p / of_nat q) / 2 ^ 53 < (1 / of_nat q :: rat)"
    using assms(3) by (simp add: field_simps)
  with rnd_pos_error[OF x] have "\<bar>rnd (of_nat p / of_nat q) - of_nat p / of_nat q\<bar> < 1 / of_nat q"
    by linarith
  with assms(3) False show ?thesis by (rule near_floor)
qed

text \<open>The fraction of a double is a double, also in 64ths.\<close>

lemma rnd_fraction_exact:
  assumes "1 \<le> x" and "x < 2 ^ 52"
  shows "rnd ((rnd x - of_int \<lfloor>rnd x\<rfloor>) * 64) = (rnd x - of_int \<lfloor>rnd x\<rfloor>) * 64"
proof -
  define e where "e = bin_exp x"
  have x: "0 < x" using assms by simp
  obtain n where n: "rnd x = of_int n * 2 powi (e - 52)"
    using x by (auto simp: rnd_def rnd_pos_def Let_def e_def)
  have "0 \<le> e"
  proof (rule ccontr)
    assume "\<not> 0 \<le> e"
    then have "(2::rat) powi (e + 1) \<le> 2 powi 0" by (intro power_int_increasing) auto
    with bin_exp_bounds(2)[OF x] assms(1) show False by (simp add: e_def)
  qed
  have "(2::rat) powi e < 2 powi 52"
    using bin_exp_bounds(1)[OF x] assms(2) by (simp add: e_def)
  then have "e < 52" by (simp only: power_int_2_less_cancel)
  then have True: "e \<le> 52" by simp
    define m where "m = n - \<lfloor>rnd x\<rfloor> * 2 ^ nat (52 - e)"
    have pw: "(2::rat) powi (e - 52) * 2 ^ nat (52 - e) = 1"
    proof -
      have "(2::rat) ^ nat (52 - e) = 2 powi (52 - e)" using True by (simp add: power_int_def)
      then show ?thesis by (simp flip: power_int_add)
    qed
    have f: "rnd x - of_int \<lfloor>rnd x\<rfloor> = of_int m * 2 powi (e - 52)"
      using pw by (simp add: m_def n algebra_simps)
    have "0 \<le> rnd x - of_int \<lfloor>rnd x\<rfloor>" "rnd x - of_int \<lfloor>rnd x\<rfloor> < 1" by linarith+
    then have "0 \<le> of_int m * (2::rat) powi (e - 52)" "of_int m * (2::rat) powi (e - 52) < 1"
      by (simp_all only: f)
    then have "0 \<le> m"
      using mult_neg_pos[of "of_int m" "(2::rat) powi (e - 52)"] by (cases "m < 0") auto
    have "of_int m = (of_int m * 2 powi (e - 52)) * (2::rat) ^ nat (52 - e)"
      using pw by (simp add: mult.assoc)
    also have "\<dots> < 1 * 2 ^ nat (52 - e)"
      using \<open>of_int m * 2 powi (e - 52) < 1\<close> by (intro mult_strict_right_mono) auto
    finally have "of_int m < (2::rat) ^ nat (52 - e)" by simp
    then have "m < 2 ^ nat (52 - e)" by (metis of_int_less_iff of_int_numeral of_int_power)
    also have "\<dots> \<le> (2::int) ^ 52" using \<open>0 \<le> e\<close> by (intro power_increasing) auto
    finally have "m < 2 ^ 53" by simp
    moreover have "(rnd x - of_int \<lfloor>rnd x\<rfloor>) * 64 = of_int m * 2 powi (e - 52 + 6)"
      by (simp add: f power_int_diff)
    ultimately show ?thesis using \<open>0 \<le> m\<close> by (intro rnd_exact[of _ m])
qed

end
