(* ===== verification/Uart.thy ===== *)
theory Uart
  imports Irq Doubles
begin

unbundle bit_operations_syntax

text \<open>
  The PL011 driver of 08_scheduler (\<^verbatim>\<open>uart_pl011.c\<close>, \<^verbatim>\<open>uart_pl011.h\<close>): the register
  block, configuration, output, input and the interrupt service routine.
\<close>

section \<open>Register block and constants\<close>

definition uart_registers :: reg_struct where
  "uart_registers =
    [(''DR'', 1), (''RSRECR'', 1), (''_reserved0'', 4), (''FR'', 1), (''_reserved1'', 1),
     (''ILPR'', 1), (''IBRD'', 1), (''FBRD'', 1), (''LCRH'', 1), (''CR'', 1), (''IFLS'', 1),
     (''IMSC'', 1), (''RIS'', 1), (''MIS'', 1), (''ICR'', 1)]"

definition uart0 :: u32 where "uart0 = 0x10009000"

definition uart_reg :: "string \<Rightarrow> u32" where
  "uart_reg f = uart0 + of_nat (offsetof uart_registers f)"

definition refclock :: u32 where "refclock = 24000000"

definition UART0_INTERRUPT :: u16 where "UART0_INTERRUPT = 37"
definition DR_DATA_MASK :: u32 where "DR_DATA_MASK = 0xFF"
definition ECR_BE :: u32 where "ECR_BE = push_bit 2 1"
definition FR_BUSY :: u32 where "FR_BUSY = push_bit 3 1"
definition FR_RXFE :: u32 where "FR_RXFE = push_bit 4 1"
definition FR_TXFF :: u32 where "FR_TXFF = push_bit 5 1"
definition RSRECR_ERR_MASK :: u32 where "RSRECR_ERR_MASK = 0xF"
definition LCRH_FEN :: u32 where "LCRH_FEN = push_bit 4 1"
definition LCRH_PEN :: u32 where "LCRH_PEN = push_bit 1 1"
definition LCRH_EPS :: u32 where "LCRH_EPS = push_bit 2 1"
definition LCRH_STP2 :: u32 where "LCRH_STP2 = push_bit 3 1"
definition LCRH_SPS :: u32 where "LCRH_SPS = push_bit 7 1"
definition CR_UARTEN :: u32 where "CR_UARTEN = push_bit 0 1"
definition LCRH_WLEN_5BITS :: u32 where "LCRH_WLEN_5BITS = push_bit 5 0"
definition LCRH_WLEN_6BITS :: u32 where "LCRH_WLEN_6BITS = push_bit 5 1"
definition LCRH_WLEN_7BITS :: u32 where "LCRH_WLEN_7BITS = push_bit 5 2"
definition LCRH_WLEN_8BITS :: u32 where "LCRH_WLEN_8BITS = push_bit 5 3"
definition IMSC_RXIM :: u32 where "IMSC_RXIM = push_bit 4 1"
definition RX_INTERRUPT :: u32 where "RX_INTERRUPT = push_bit 4 1"
definition BE_INTERRUPT :: u32 where "BE_INTERRUPT = push_bit 9 1"

datatype uart_error = UART_OK | UART_INVALID_ARGUMENT_BAUDRATE
  | UART_INVALID_ARGUMENT_WORDSIZE | UART_INVALID_ARGUMENT_STOP_BITS
  | UART_RECEIVE_ERROR | UART_NO_DATA

record uart_config =
  data_bits :: u8
  stop_bits :: u8
  parity :: bool
  baudrate :: u32

section \<open>Operations\<close>

text \<open>The line control word \<^verbatim>\<open>uart_configure\<close> computes from the configuration.\<close>

definition uart_lcrh :: "uart_config \<Rightarrow> u32" where
  "uart_lcrh config =
    (let lcrh = 0;
         lcrh = (if data_bits config = 5 then lcrh OR LCRH_WLEN_5BITS
                 else if data_bits config = 6 then lcrh OR LCRH_WLEN_6BITS
                 else if data_bits config = 7 then lcrh OR LCRH_WLEN_7BITS
                 else if data_bits config = 8 then lcrh OR LCRH_WLEN_8BITS
                 else lcrh);
         lcrh = (if parity config
                 then lcrh OR LCRH_PEN OR LCRH_EPS OR LCRH_SPS
                 else lcrh AND NOT LCRH_PEN AND NOT LCRH_EPS AND NOT LCRH_SPS);
         lcrh = (if stop_bits config = 1 then lcrh AND NOT LCRH_STP2
                 else if stop_bits config = 2 then lcrh OR LCRH_STP2
                 else lcrh)
     in lcrh OR LCRH_FEN)"

text \<open>The baud rate divisor as a \<^verbatim>\<open>double\<close>, its integral part and the fraction in 64ths.\<close>

definition baudrate_divisor :: "u32 \<Rightarrow> rat" where
  "baudrate_divisor baud = rnd (of_nat (unat refclock) / of_nat (unat (16 * baud)))"

definition baud_intpart :: "u32 \<Rightarrow> rat" where
  "baud_intpart baud = of_int \<lfloor>baudrate_divisor baud\<rfloor>"

definition baud_fract64 :: "u32 \<Rightarrow> rat" where
  "baud_fract64 baud =
    rnd (rnd ((baudrate_divisor baud - baud_intpart baud) * 64) + 1/2)"

definition uart_init :: uart_error where "uart_init = UART_OK"

definition uart_configure ::
  "hardware \<Rightarrow> uart_config \<Rightarrow> 'a irq_state_scheme \<Rightarrow> (uart_error \<times> 'a irq_state_scheme) outcome" where
  "uart_configure hw config s =
    (if data_bits config < 5 \<or> data_bits config > 8
     then Returns (UART_INVALID_ARGUMENT_WORDSIZE, s)
     else if stop_bits config = 0 \<or> stop_bits config > 2
     then Returns (UART_INVALID_ARGUMENT_STOP_BITS, s)
     else if baudrate config < 110 \<or> baudrate config > 460800
     then Returns (UART_INVALID_ARGUMENT_BAUDRATE, s)
     else
       let s = rmw hw (uart_reg ''CR'') (\<lambda>v. v AND NOT CR_UARTEN) s
       in bindO (of_option (poll_while hw (uart_reg ''FR'') FR_BUSY s)) (\<lambda>s.
       let s = rmw hw (uart_reg ''LCRH'') (\<lambda>v. v AND NOT LCRH_FEN) s
       in bindO (case d2u 16 (baud_intpart (baudrate config)) of None \<Rightarrow> UB | Some i \<Rightarrow> Returns i) (\<lambda>i.
       let s = WRITE32 (uart_reg ''IBRD'') (of_int i) s
       in bindO (case d2u 8 (baud_fract64 (baudrate config)) of None \<Rightarrow> UB | Some f \<Rightarrow> Returns f) (\<lambda>f.
       let s = WRITE32 (uart_reg ''FBRD'') (of_int f) s;
           s = WRITE32 (uart_reg ''LCRH'') (uart_lcrh config) s;
           s = rmw hw (uart_reg ''IMSC'') (\<lambda>v. v OR IMSC_RXIM) s;
           s = snd (irq_register_isr UART0_INTERRUPT uart_isr_fn s);
           s = rmw hw (uart_reg ''CR'') (\<lambda>v. v OR CR_UARTEN) s
       in Returns (UART_OK, s)))))"

definition uart_putchar ::
  "hardware \<Rightarrow> char \<Rightarrow> 'a cpu_scheme \<Rightarrow> 'a cpu_scheme outcome" where
  "uart_putchar hw c s =
    bindO (of_option (poll_while hw (uart_reg ''FR'') FR_TXFF s)) (\<lambda>s.
      Returns (WRITE32 (uart_reg ''DR'') (of_char c) s))"

text \<open>
  \<^verbatim>\<open>uart_write\<close> stops at the terminating NUL; the end of the list stands for the
  NUL C puts after a literal.
\<close>

fun uart_write ::
  "hardware \<Rightarrow> string \<Rightarrow> 'a cpu_scheme \<Rightarrow> 'a cpu_scheme outcome" where
  "uart_write hw [] s = Returns s"
| "uart_write hw (c # cs) s =
    (if c = CHR 0x00 then Returns s
     else bindO (uart_putchar hw c s) (uart_write hw cs))"

text \<open>
  The first loop of \<^verbatim>\<open>uart_write_uint\<close>: \<open>buf\<close> holds the characters stored so far,
  so its length is \<^verbatim>\<open>i\<close>; a store at \<^verbatim>\<open>buf[8]\<close> or above is outside the array.
\<close>

function uint_buf :: "u32 \<Rightarrow> string \<Rightarrow> string outcome" where
  "uint_buf num buf =
    (if length buf \<ge> 8 then UB
     else let buf' = buf @ [char_of (48 + unat (num mod 10))]
          in if num div 10 \<noteq> 0 then uint_buf (num div 10) buf' else Returns buf')"
  by pat_completeness auto
termination
  by (relation "measure (\<lambda>(num, buf). 8 - length buf)") auto

text \<open>The second loop: \<^verbatim>\<open>for (i--; i >= 0; i--) uart_putchar(buf[i])\<close>, entered with \<open>i\<close>.\<close>

primrec put_down ::
  "hardware \<Rightarrow> string \<Rightarrow> nat \<Rightarrow> 'a cpu_scheme \<Rightarrow> 'a cpu_scheme outcome" where
  "put_down hw buf 0 s = Returns s"
| "put_down hw buf (Suc i) s = bindO (uart_putchar hw (buf ! i) s) (put_down hw buf i)"

definition uart_write_uint ::
  "hardware \<Rightarrow> u32 \<Rightarrow> 'a cpu_scheme \<Rightarrow> 'a cpu_scheme outcome" where
  "uart_write_uint hw num s = bindO (uint_buf num []) (\<lambda>buf. put_down hw buf (length buf) s)"

text \<open>\<^verbatim>\<open>uart_getchar\<close>: the error, and the character when one was stored through the pointer.\<close>

definition uart_getchar ::
  "hardware \<Rightarrow> 'a cpu_scheme \<Rightarrow> (uart_error \<times> char option) \<times> 'a cpu_scheme" where
  "uart_getchar hw s =
    (let (fr, s) = read32 hw (uart_reg ''FR'') s
     in if fr AND FR_RXFE \<noteq> 0 then ((UART_NO_DATA, None), s)
     else
       let (d, s) = read32 hw (uart_reg ''DR'') s;
           c = char_of (unat (d AND DR_DATA_MASK));
           (e, s) = read32 hw (uart_reg ''RSRECR'') s
       in if e AND RSRECR_ERR_MASK \<noteq> 0
          then ((UART_RECEIVE_ERROR, Some c), rmw hw (uart_reg ''RSRECR'') (\<lambda>v. v AND RSRECR_ERR_MASK) s)
          else ((UART_OK, Some c), s))"

definition uart_isr ::
  "hardware \<Rightarrow> 'a cpu_scheme \<Rightarrow> 'a cpu_scheme outcome" where
  "uart_isr hw s =
    (let (status, s) = read32 hw (uart_reg ''MIS'') s
     in if status AND RX_INTERRUPT \<noteq> 0 then
          let (d, s) = read32 hw (uart_reg ''DR'') s;
              c = char_of (unat (d AND DR_DATA_MASK)) :: char
          in bindO (uart_putchar hw c s) (\<lambda>s.
             if c = CHR 0x0D then uart_write hw [CHR 0x0A] s else Returns s)
        else if status AND BE_INTERRUPT \<noteq> 0 then
          bindO (uart_write hw (''Break error detected!'' @ [CHR 0x0A]) s) (\<lambda>s.
            let s = WRITE32 (uart_reg ''RSRECR'') ECR_BE s
            in Returns (WRITE32 (uart_reg ''ICR'') BE_INTERRUPT s))
        else Returns s)"

section \<open>Output\<close>

lemma uart_offsets [simp]:
  "offsetof uart_registers ''DR'' = 0x0"
  "offsetof uart_registers ''RSRECR'' = 0x4"
  "offsetof uart_registers ''FR'' = 0x18"
  "offsetof uart_registers ''ILPR'' = 0x20"
  "offsetof uart_registers ''IBRD'' = 0x24"
  "offsetof uart_registers ''FBRD'' = 0x28"
  "offsetof uart_registers ''LCRH'' = 0x2C"
  "offsetof uart_registers ''CR'' = 0x30"
  "offsetof uart_registers ''IFLS'' = 0x34"
  "offsetof uart_registers ''IMSC'' = 0x38"
  "offsetof uart_registers ''RIS'' = 0x3C"
  "offsetof uart_registers ''MIS'' = 0x40"
  "offsetof uart_registers ''ICR'' = 0x44"
  by (simp_all add: uart_registers_def)

text \<open>What the output functions rely on: the transmit FIFO does not stay full forever.\<close>

definition tx_drains :: "hardware \<Rightarrow> bool" where
  "tx_drains hw \<longleftrightarrow> eventually_clear hw (uart_reg ''FR'') FR_TXFF"

text \<open>The writes that send a string, one data register write per character.\<close>

definition sends :: "string \<Rightarrow> (u32 \<times> u32) list" where
  "sends cs = map (\<lambda>c. (uart_reg ''DR'', of_char c)) cs"

lemma sends_simps [simp]:
  "sends [] = []" "sends (c # cs) = (uart_reg ''DR'', of_char c) # sends cs"
  "sends (cs @ ds) = sends cs @ sends ds"
  by (simp_all add: sends_def)

lemma uart_putchar_returns:
  assumes "tx_drains hw"
  obtains s' where "uart_putchar hw c s = Returns s'" and "did s (sends [c]) s'"
proof -
  obtain t where t: "poll_while hw (uart_reg ''FR'') FR_TXFF s = Some t" "did s [] t"
    using assms poll_while_returns unfolding tx_drains_def by blast
  show thesis
  proof (rule that)
    show "uart_putchar hw c s = Returns (WRITE32 (uart_reg ''DR'') (of_char c) t)"
      by (simp add: uart_putchar_def t)
    show "did s (sends [c]) (WRITE32 (uart_reg ''DR'') (of_char c) t)"
      using did_trans[OF t(2) did_WRITE32] by simp
  qed
qed

lemma uart_write_returns:
  assumes "tx_drains hw"
  shows "\<exists>s'. uart_write hw cs s = Returns s' \<and> did s (sends (takeWhile (\<lambda>c. c \<noteq> CHR 0x00) cs)) s'"
proof (induction cs arbitrary: s)
  case Nil
  show ?case by simp
next
  case (Cons c cs)
  show ?case
  proof (cases "c = CHR 0x00")
    case True
    then show ?thesis by simp
  next
    case False
    obtain t where t: "uart_putchar hw c s = Returns t" "did s (sends [c]) t"
      using uart_putchar_returns[OF assms] by blast
    obtain s' where "uart_write hw cs t = Returns s'"
      and "did t (sends (takeWhile (\<lambda>c. c \<noteq> CHR 0x00) cs)) s'" using Cons.IH by blast
    with t False show ?thesis using did_trans[OF t(2)] by (auto simp del: sends_simps(2)) force
  qed
qed

declare uart_write.simps [simp del]

lemma put_down_returns:
  assumes "tx_drains hw"
  shows "i \<le> length buf \<Longrightarrow> \<exists>s'. put_down hw buf i s = Returns s' \<and> did s (sends (rev (take i buf))) s'"
proof (induction i arbitrary: s)
  case 0
  then show ?case by simp
next
  case (Suc i)
  obtain t where t: "uart_putchar hw (buf ! i) s = Returns t" "did s (sends [buf ! i]) t"
    using uart_putchar_returns[OF assms] by blast
  obtain s' where "put_down hw buf i t = Returns s'" "did t (sends (rev (take i buf))) s'"
    using Suc.IH[of t] Suc.prems by auto
  with t show ?case
    using did_trans[OF t(2)] Suc.prems by (auto simp: take_Suc_conv_app_nth)
qed

section \<open>Decimal output\<close>

declare uint_buf.simps [simp del]

fun le_value :: "string \<Rightarrow> nat" where
  "le_value [] = 0"
| "le_value (c # cs) = (of_char c - 48) + 10 * le_value cs"

definition dec_value :: "string \<Rightarrow> nat" where
  "dec_value ds = foldl (\<lambda>a c. 10 * a + (of_char c - 48)) 0 ds"

definition is_digit_char :: "char \<Rightarrow> bool" where
  "is_digit_char c \<longleftrightarrow> 48 \<le> (of_char c :: nat) \<and> (of_char c :: nat) \<le> 57"

lemma dec_value_rev: "dec_value (rev ds) = le_value ds"
  by (induction ds) (simp_all add: dec_value_def)

lemma digit_char:
  "d < 10 \<Longrightarrow> (of_char (char_of (48 + d) :: char) :: nat) = 48 + d" for d :: nat
  by simp

lemma uint_buf_digits:
  assumes "length buf < 8" and "unat num < 10 ^ (8 - length buf)"
  shows "\<exists>ds. uint_buf num buf = Returns (buf @ ds) \<and> ds \<noteq> [] \<and> list_all is_digit_char ds \<and>
    le_value ds = unat num \<and> (num \<noteq> 0 \<longrightarrow> last ds \<noteq> CHR ''0'') \<and> (num = 0 \<longrightarrow> ds = ''0'')"
  using assms
proof (induction num buf rule: uint_buf.induct)
  case (1 num buf)
  define c :: char where "c = char_of (48 + unat (num mod 10))"
  have d: "unat (num div 10) = unat num div 10" "unat (num mod 10) = unat num mod 10"
    by (simp_all add: unat_div unat_mod)
  have c: "is_digit_char c" "(of_char c :: nat) - 48 = unat num mod 10"
    by (simp_all add: c_def is_digit_char_def d)
  show ?case
  proof (cases "num div 10 = 0")
    case True
    then have "unat num < 10" using d(1) by (simp add: unat_eq_zero div_eq_0_iff)
    have "c \<noteq> CHR ''0''" if "num \<noteq> 0"
    proof
      assume "c = CHR ''0''"
      then have "(of_char c :: nat) = 48" by simp
      then have "unat num mod 10 = 0" using c(2) by simp
      with \<open>unat num < 10\<close> that show False by (simp add: unat_eq_zero)
    qed
    moreover have "c = CHR ''0''" if "num = 0" by (simp add: c_def that char_of_eq_iff)
    ultimately show ?thesis
      using "1.prems" True c \<open>unat num < 10\<close>
      by (intro exI[of _ "[c]"]) (simp add: uint_buf.simps[of num buf] c_def[symmetric] Let_def)
  next
    case False
    then have "num \<noteq> 0" and big: "10 \<le> unat num" using d(1) by (auto simp: unat_eq_zero div_eq_0_iff simp flip: not_less)
    have l: "length (buf @ [c]) < 8"
    proof (rule ccontr)
      assume "\<not> length (buf @ [c]) < 8"
      then have "8 - length buf = 1" using "1.prems" by simp
      with "1.prems" big show False by simp
    qed
    have "unat (num div 10) < 10 ^ (8 - length (buf @ [c]))"
    proof -
      have "8 - length buf = Suc (8 - length (buf @ [c]))" using l by simp
      then have "unat num < 10 * 10 ^ (8 - length (buf @ [c]))"
        using "1.prems" by (simp del: length_append)
      then show ?thesis by (simp add: d less_mult_imp_div_less mult.commute)
    qed
    from this l "1.prems" "1.IH"[OF _ refl False, folded c_def]
    obtain ds where ds: "uint_buf (num div 10) (buf @ [c]) = Returns ((buf @ [c]) @ ds)"
      "ds \<noteq> []" "list_all is_digit_char ds" "le_value ds = unat (num div 10)" "last ds \<noteq> CHR ''0''"
      using False by auto
    have "uint_buf num buf = uint_buf (num div 10) (buf @ [c])"
      using False "1.prems" by (simp add: uint_buf.simps[of num buf] c_def Let_def)
    with ds c \<open>num \<noteq> 0\<close> "1.prems" show ?thesis
      by (intro exI[of _ "c # ds"])
        (simp add: d)
  qed
qed

lemma uint_buf_overflow:
  "length buf \<le> 8 \<Longrightarrow> 10 ^ (8 - length buf) \<le> unat num \<Longrightarrow> uint_buf num buf = UB"
proof (induction num buf rule: uint_buf.induct)
  case (1 num buf)
  show ?case
  proof (cases "length buf = 8")
    case True
    then show ?thesis by (simp add: uint_buf.simps[of num buf])
  next
    case False
    then have l: "length buf < 8" using "1.prems" by simp
    then have "8 - length buf = Suc (8 - Suc (length buf))" by simp
    with "1.prems"(2) have "10 * 10 ^ (8 - Suc (length buf)) \<le> unat num"
      by (metis power_Suc)
    then have q: "10 ^ (8 - Suc (length buf)) \<le> unat (num div 10)"
      by (simp add: unat_div)
    then have "num div 10 \<noteq> 0" by (metis not_one_le_zero one_le_power one_le_numeral order.trans unat_0)
    with l q "1.IH"[OF _ refl this] show ?thesis
      by (simp add: uint_buf.simps[of num buf] Let_def)
  qed
qed

section \<open>Configuration\<close>

lemma uart_write_uint_returns:
  assumes "tx_drains hw" and "unat num < 10 ^ 8"
  shows "\<exists>ds s'. uart_write_uint hw num s = Returns s' \<and> did s (sends ds) s' \<and> ds \<noteq> [] \<and>
    list_all is_digit_char ds \<and> dec_value ds = unat num \<and> (hd ds = CHR ''0'' \<longrightarrow> ds = ''0'')"
proof -
  obtain ds where ds: "uint_buf num [] = Returns ds" "ds \<noteq> []" "list_all is_digit_char ds"
    "le_value ds = unat num" "num \<noteq> 0 \<longrightarrow> last ds \<noteq> CHR ''0''" "num = 0 \<longrightarrow> ds = ''0''"
    using uint_buf_digits[of "[]" num] assms(2) by auto
  obtain s' where "put_down hw ds (length ds) s = Returns s'" "did s (sends (rev ds)) s'"
    using put_down_returns[OF assms(1), of "length ds" ds s] by auto
  with ds show ?thesis
    by (intro exI[of _ "rev ds"] exI[of _ s'])
      (auto simp: uart_write_uint_def dec_value_rev hd_rev list_all_iff)
qed

lemma unat_16_baud: "unat baud \<le> 460800 \<Longrightarrow> unat (16 * baud :: u32) = 16 * unat baud"
  by (simp add: unat_word_ariths)

lemma baudrate_divisor_eq:
  assumes "0 < unat baud" and "unat baud \<le> 460800"
  shows "baudrate_divisor baud = rnd (of_nat 1500000 / of_nat (unat baud))"
  using assms by (simp add: baudrate_divisor_def refclock_def unat_16_baud)

lemma baud_intpart_eq:
  assumes "0 < unat baud" and "unat baud \<le> 460800"
  shows "baud_intpart baud = of_nat (1500000 div unat baud)"
  using assms floor_rnd_div[of 1500000 "unat baud"]
  by (simp add: baud_intpart_def baudrate_divisor_eq)

lemma baud_fract64_floor:
  assumes "110 \<le> unat baud" and "unat baud \<le> 460800"
  defines "b \<equiv> unat baud"
  shows "\<lfloor>baud_fract64 baud\<rfloor> = int ((128 * (1500000 mod b) + b) div (2 * b))"
proof -
  define d r where "d = 1500000 div b" and "r = 1500000 mod b"
  define x where "x = (of_nat 1500000 / of_nat b :: rat)"
  have b: "110 \<le> b" "b \<le> 460800" "0 < b" using assms by auto
  have rb: "(110::rat) \<le> of_nat b" "of_nat b \<le> (460800::rat)"
    using b(1,2) by (metis of_nat_le_iff of_nat_numeral)+
  have x: "1 \<le> x" "x \<le> 13637" using rb by (simp_all add: x_def field_simps)
  define X where "X = rnd x"
  have div_eq: "baudrate_divisor baud = X"
    using assms baudrate_divisor_eq[of baud] by (simp add: X_def x_def)
  have fl: "\<lfloor>X\<rfloor> = int d"
    using floor_rnd_div[of 1500000 b] b by (simp add: X_def x_def d_def)
  have Xx: "\<bar>X - x\<bar> \<le> x / 2 ^ 53" using rnd_pos_error[of x] x by (simp add: X_def)
  define G where "G = (X - of_nat d) * 64 + 1/2"
  have G: "1/2 \<le> G" "G < 65" using fl by (auto simp: G_def floor_eq_iff)
  have fract: "baud_fract64 baud = rnd G"
    using rnd_fraction_exact[of x] x fl
    by (simp add: baud_fract64_def baud_intpart_def div_eq G_def X_def)
  have "1500000 = d * b + r" by (simp add: d_def r_def)
  then have xd: "x = of_nat d + of_nat r / of_nat b"
    using b(3) unfolding x_def by (simp add: field_simps flip: of_nat_mult of_nat_add)
  define p where "p = 128 * r + b"
  have g: "(x - of_nat d) * 64 + 1/2 = of_nat p / of_nat (2 * b)"
    using b(3) by (simp add: xd p_def field_simps)
  have err: "\<bar>rnd G - of_nat p / of_nat (2 * b)\<bar> < 1 / of_nat (2 * b)"
  proof -
    have "\<bar>rnd G - G\<bar> \<le> 65 / 2 ^ 53" using rnd_pos_error[of G] G by simp
    moreover have "\<bar>G - of_nat p / of_nat (2 * b)\<bar> = \<bar>X - x\<bar> * 64"
      unfolding g[symmetric] by (simp add: G_def abs_if algebra_simps)
    moreover have "\<bar>X - x\<bar> * 64 \<le> 13637 / 2 ^ 53 * 64" using Xx x by simp
    moreover have "(1/1000000 :: rat) < 1 / of_nat (2 * b)" using rb by (simp add: field_simps)
    moreover have "(65 / 2 ^ 53 + 13637 / 2 ^ 53 * 64 :: rat) < 1/1000000" by simp
    ultimately show ?thesis
      using abs_triangle_ineq[of "rnd G - G" "G - of_nat p / of_nat (2 * b)"]
      by (simp only: diff_add_cancel add_diff_eq)
  qed
  have "\<lfloor>rnd G\<rfloor> = int (p div (2 * b))"
  proof (cases "p mod (2 * b) = 0")
    case False
    with b err show ?thesis by (intro near_floor) auto
  next
    case True
    then obtain m where m: "p = m * (2 * b)" by (metis mod_0_imp_dvd dvd_def mult.commute)
    have "x = of_nat d + (of_nat m - 1/2) / 64"
      using g m b(3) by (simp add: field_simps)
    then have "x = of_int (128 * int d + 2 * int m - 1) * 2 powi (-7)"
      by (simp add: power_int_def field_simps)
    moreover have "0 \<le> 128 * int d + 2 * int m - 1" "128 * int d + 2 * int m - 1 < 2 ^ 53"
    proof -
      have "m \<noteq> 0" using m b(3) by (cases m) (auto simp: p_def)
      then show "0 \<le> 128 * int d + 2 * int m - 1" by simp
      have "d \<le> 1500000" "r < b" using b(3) by (auto simp: d_def r_def)
      then have "p < 129 * b" by (simp add: p_def)
      then have "m < 129" using m by auto
      with \<open>d \<le> 1500000\<close> show "128 * int d + 2 * int m - 1 < 2 ^ 53" by simp
    qed
    ultimately have "X = x" unfolding X_def by (rule rnd_exact)
    then have "G = of_int (int m) * 2 powi 0" using g m b(3) by (simp add: G_def)
    moreover have "int m < 2 ^ 53" using G(2) calculation
      by (simp add: of_nat_less_iff[where 'a = rat, of m 65, simplified])
    ultimately have "rnd G = of_int (int m)" using rnd_exact[of G "int m" 0] by simp
    with m b(3) show ?thesis by simp
  qed
  then show ?thesis by (simp add: fract p_def r_def)
qed

lemma baud_d2u:
  assumes "110 \<le> unat baud" and "unat baud \<le> 460800"
  shows "d2u 16 (baud_intpart baud) = Some (int (1500000 div unat baud))"
    and "d2u 8 (baud_fract64 baud) =
      Some (int ((128 * (1500000 mod unat baud) + unat baud) div (2 * unat baud)))"
proof -
  define b where "b = unat baud"
  have b: "0 < b" "110 \<le> b" using assms by (auto simp: b_def)
  have "1500000 div b \<le> 1500000 div 110" using b by (intro div_le_mono2) auto
  then have i: "1500000 div b < 65536" by simp
  then have "(of_nat (1500000 div b) :: rat) < 65536"
    by (metis of_nat_less_iff of_nat_numeral)
  then show "d2u 16 (baud_intpart baud) = Some (int (1500000 div unat baud))"
    using assms baud_intpart_eq[of baud] by (simp add: d2u_def b_def)
  have "1500000 mod b < b" using b by simp
  then have "(128 * (1500000 mod b) + b) div (2 * b) < 65"
    by (intro less_mult_imp_div_less) auto
  then have fl: "0 \<le> \<lfloor>baud_fract64 baud\<rfloor>" "\<lfloor>baud_fract64 baud\<rfloor> < 65"
    using baud_fract64_floor[OF assms] by (simp_all add: b_def)
  then have "0 \<le> baud_fract64 baud" "baud_fract64 baud < 256" by (auto simp: floor_less_iff)
  then show "d2u 8 (baud_fract64 baud) =
      Some (int ((128 * (1500000 mod unat baud) + unat baud) div (2 * unat baud)))"
    using baud_fract64_floor[OF assms] by (simp add: d2u_def)
qed

definition valid_config :: "uart_config \<Rightarrow> bool" where
  "valid_config config \<longleftrightarrow> data_bits config \<in> {5..8} \<and> stop_bits config \<in> {1..2} \<and>
     baudrate config \<in> {110..460800}"

lemma valid_config_cases:
  assumes "valid_config config"
  shows "data_bits config = 5 \<or> data_bits config = 6 \<or> data_bits config = 7 \<or> data_bits config = 8"
    and "stop_bits config = 1 \<or> stop_bits config = 2"
    and "110 \<le> unat (baudrate config)" and "unat (baudrate config) \<le> 460800"
proof -
  have "unat (data_bits config) \<in> {5..8}" "unat (stop_bits config) \<in> {1..2}"
    using assms by (auto simp: valid_config_def word_le_nat_alt)
  then have "unat (data_bits config) \<in> {5,6,7,8}" "unat (stop_bits config) \<in> {1,2}" by auto
  then show "data_bits config = 5 \<or> data_bits config = 6 \<or> data_bits config = 7 \<or> data_bits config = 8"
    and "stop_bits config = 1 \<or> stop_bits config = 2"
    by (auto simp: word_unat_eq_iff)
  show "110 \<le> unat (baudrate config)" and "unat (baudrate config) \<le> 460800"
    using assms by (auto simp: valid_config_def word_le_nat_alt)
qed

lemmas lcrh_consts = LCRH_FEN_def LCRH_PEN_def LCRH_EPS_def LCRH_STP2_def LCRH_SPS_def
  LCRH_WLEN_5BITS_def LCRH_WLEN_6BITS_def LCRH_WLEN_7BITS_def LCRH_WLEN_8BITS_def

lemma uart_configure_valid:
  assumes "valid_config config" and "eventually_clear hw (uart_reg ''FR'') FR_BUSY" and "irq_inv s"
  shows "\<exists>s' t c l m c'. uart_configure hw config s = Returns (UART_OK, s') \<and>
    did s [(uart_reg ''CR'', c AND NOT CR_UARTEN), (uart_reg ''LCRH'', l AND NOT LCRH_FEN),
      (uart_reg ''IBRD'', of_nat (1500000 div unat (baudrate config))),
      (uart_reg ''FBRD'', of_nat ((128 * (1500000 mod unat (baudrate config)) + unat (baudrate config))
        div (2 * unat (baudrate config)))),
      (uart_reg ''LCRH'', uart_lcrh config), (uart_reg ''IMSC'', m OR IMSC_RXIM)] t \<and>
    did (snd (irq_register_isr UART0_INTERRUPT uart_isr_fn t)) [(uart_reg ''CR'', c' OR CR_UARTEN)] s'"
proof -
  define b where "b = unat (baudrate config)"
  define i where "i = 1500000 div b"
  define f where "f = (128 * (1500000 mod b) + b) div (2 * b)"
  have d2u: "d2u 16 (baud_intpart (baudrate config)) = Some (int i)"
    "d2u 8 (baud_fract64 (baudrate config)) = Some (int f)"
    using baud_d2u[OF valid_config_cases(3,4)[OF assms(1)]] by (simp_all add: i_def f_def b_def)
  have guards: "\<not> (data_bits config < 5 \<or> data_bits config > 8)"
    "\<not> (stop_bits config = 0 \<or> stop_bits config > 2)"
    "\<not> (baudrate config < 110 \<or> baudrate config > 460800)"
    using assms(1) by (auto simp: valid_config_def word_one_le_iff simp flip: not_le)
  define s1 where "s1 = rmw hw (uart_reg ''CR'') (\<lambda>v. v AND NOT CR_UARTEN) s"
  obtain s2 where s2: "poll_while hw (uart_reg ''FR'') FR_BUSY s1 = Some s2" "did s1 [] s2"
    using poll_while_returns[OF assms(2)] by blast
  define s3 where "s3 = rmw hw (uart_reg ''LCRH'') (\<lambda>v. v AND NOT LCRH_FEN) s2"
  define s4 where "s4 = WRITE32 (uart_reg ''IBRD'') (of_nat i) s3"
  define s5 where "s5 = WRITE32 (uart_reg ''FBRD'') (of_nat f) s4"
  define s6 where "s6 = WRITE32 (uart_reg ''LCRH'') (uart_lcrh config) s5"
  define s7 where "s7 = rmw hw (uart_reg ''IMSC'') (\<lambda>v. v OR IMSC_RXIM) s6"
  define s8 where "s8 = snd (irq_register_isr UART0_INTERRUPT uart_isr_fn s7)"
  define s9 where "s9 = rmw hw (uart_reg ''CR'') (\<lambda>v. v OR CR_UARTEN) s8"
  have "uart_configure hw config s = Returns (UART_OK, s9)"
    unfolding uart_configure_def if_not_P[OF guards(1)] if_not_P[OF guards(2)] if_not_P[OF guards(3)]
    by (simp add: Let_def s1_def[symmetric] s2 d2u s3_def[symmetric] s4_def[symmetric]
        s5_def[symmetric] s6_def[symmetric] s7_def[symmetric] s8_def[symmetric] s9_def[symmetric])
  moreover have "did s [(uart_reg ''CR'', bus_read hw (bus s) (uart_reg ''CR'') AND NOT CR_UARTEN),
      (uart_reg ''LCRH'', bus_read hw (bus s2) (uart_reg ''LCRH'') AND NOT LCRH_FEN),
      (uart_reg ''IBRD'', of_nat i), (uart_reg ''FBRD'', of_nat f),
      (uart_reg ''LCRH'', uart_lcrh config),
      (uart_reg ''IMSC'', bus_read hw (bus s6) (uart_reg ''IMSC'') OR IMSC_RXIM)] s7"
    using s2(2) by (simp add: did_def s1_def s3_def s4_def s5_def s6_def s7_def)
  moreover have "did s8 [(uart_reg ''CR'', bus_read hw (bus s8) (uart_reg ''CR'') OR CR_UARTEN)] s9"
    unfolding s9_def by (rule did_rmw)
  ultimately show ?thesis unfolding s8_def i_def f_def b_def by blast
qed

lemma uart_isr_rx:
  assumes "tx_drains hw" and "bus_read hw (bus s) (uart_reg ''MIS'') AND RX_INTERRUPT \<noteq> 0"
  shows "\<exists>s' d c. uart_isr hw s = Returns s' \<and> c = char_of (unat (d AND 0xFF)) \<and>
    d = bus_read hw (Rd (uart_reg ''MIS'') (bus_read hw (bus s) (uart_reg ''MIS'')) # bus s) (uart_reg ''DR'') \<and>
    did s (sends (if c = CHR 0x0D then [c, CHR 0x0A] else [c])) s'"
proof -
  define s1 where "s1 = snd (read32 hw (uart_reg ''MIS'') s)"
  define d where "d = bus_read hw (bus s1) (uart_reg ''DR'')"
  define s2 where "s2 = snd (read32 hw (uart_reg ''DR'') s1)"
  define c :: char where "c = char_of (unat (d AND 0xFF))"
  have rd: "read32 hw (uart_reg ''MIS'') s = (bus_read hw (bus s) (uart_reg ''MIS''), s1)"
    "read32 hw (uart_reg ''DR'') s1 = (d, s2)"
    by (simp_all add: s1_def d_def s2_def prod_eq_iff)
  have d2: "did s [] s2" using did_trans[OF did_read32[of s hw "uart_reg ''MIS''"], of "[]" s2]
    by (simp add: s1_def s2_def)
  obtain s3 where s3: "uart_putchar hw c s2 = Returns s3" "did s2 (sends [c]) s3"
    using uart_putchar_returns[OF assms(1)] by blast
  obtain s4 where s4: "uart_write hw [CHR 0x0A] s3 = Returns s4" "did s3 (sends [CHR 0x0A]) s4"
    using uart_write_returns[OF assms(1), of "[CHR 0x0A]" s3] by auto
  have "uart_isr hw s = Returns (if c = CHR 0x0D then s4 else s3)"
    using assms(2) s3 s4(1)
    by (simp add: uart_isr_def rd DR_DATA_MASK_def c_def[symmetric] Let_def)
  moreover have "did s (sends (if c = CHR 0x0D then [c, CHR 0x0A] else [c]))
      (if c = CHR 0x0D then s4 else s3)"
    using did_trans[OF d2 s3(2)] did_trans[OF did_trans[OF d2 s3(2)] s4(2)] by auto
  moreover have "d = bus_read hw (Rd (uart_reg ''MIS'') (bus_read hw (bus s) (uart_reg ''MIS'')) # bus s) (uart_reg ''DR'')"
    by (simp add: d_def s1_def)
  ultimately show ?thesis using c_def by blast
qed

lemma uart_isr_be:
  assumes "tx_drains hw" and "bus_read hw (bus s) (uart_reg ''MIS'') AND RX_INTERRUPT = 0"
    and "bus_read hw (bus s) (uart_reg ''MIS'') AND BE_INTERRUPT \<noteq> 0"
  shows "\<exists>s'. uart_isr hw s = Returns s' \<and>
    did s (sends (''Break error detected!'' @ [CHR 0x0A]) @
      [(uart_reg ''RSRECR'', ECR_BE), (uart_reg ''ICR'', BE_INTERRUPT)]) s'"
proof -
  define s1 where "s1 = snd (read32 hw (uart_reg ''MIS'') s)"
  have rd: "read32 hw (uart_reg ''MIS'') s = (bus_read hw (bus s) (uart_reg ''MIS''), s1)"
    by (simp add: s1_def prod_eq_iff)
  obtain s2 where s2: "uart_write hw (''Break error detected!'' @ [CHR 0x0A]) s1 = Returns s2"
    "did s1 (sends (''Break error detected!'' @ [CHR 0x0A])) s2"
    using uart_write_returns[OF assms(1), of "''Break error detected!'' @ [CHR 0x0A]" s1] by auto
  define s4 where "s4 = WRITE32 (uart_reg ''ICR'') BE_INTERRUPT (WRITE32 (uart_reg ''RSRECR'') ECR_BE s2)"
  have "uart_isr hw s = Returns s4"
    using assms s2(1) by (simp add: uart_isr_def rd s4_def Let_def)
  moreover have "did s2 [(uart_reg ''RSRECR'', ECR_BE), (uart_reg ''ICR'', BE_INTERRUPT)] s4"
    by (simp add: s4_def did_def)
  then have "did s (sends (''Break error detected!'' @ [CHR 0x0A]) @
      [(uart_reg ''RSRECR'', ECR_BE), (uart_reg ''ICR'', BE_INTERRUPT)]) s4"
    using did_trans[OF did_trans[OF did_read32 s2(2)[unfolded s1_def]]] by simp
  ultimately show ?thesis by blast
qed

lemma uart_isr_returns:
  assumes "tx_drains hw"
  shows "\<exists>s' ws. uart_isr hw s = Returns s' \<and> did s ws s' \<and>
    (\<forall>w \<in> set ws. fst w \<in> {uart_reg ''DR'', uart_reg ''RSRECR'', uart_reg ''ICR''})"
proof -
  have sends: "\<forall>w \<in> set (sends cs). fst w = uart_reg ''DR''" for cs by (auto simp: sends_def)
  consider "bus_read hw (bus s) (uart_reg ''MIS'') AND RX_INTERRUPT \<noteq> 0"
    | "bus_read hw (bus s) (uart_reg ''MIS'') AND RX_INTERRUPT = 0"
      "bus_read hw (bus s) (uart_reg ''MIS'') AND BE_INTERRUPT \<noteq> 0"
    | "bus_read hw (bus s) (uart_reg ''MIS'') AND RX_INTERRUPT = 0"
      "bus_read hw (bus s) (uart_reg ''MIS'') AND BE_INTERRUPT = 0"
    by blast
  then show ?thesis
  proof cases
    case 1
    from uart_isr_rx[OF assms 1] sends show ?thesis by blast
  next
    case 2
    obtain s' where "uart_isr hw s = Returns s'" and
      "did s (sends (''Break error detected!'' @ [CHR 0x0A]) @
        [(uart_reg ''RSRECR'', ECR_BE), (uart_reg ''ICR'', BE_INTERRUPT)]) s'"
      using uart_isr_be[OF assms 2] by blast
    moreover have "\<forall>w \<in> set (sends (''Break error detected!'' @ [CHR 0x0A]) @
        [(uart_reg ''RSRECR'', ECR_BE), (uart_reg ''ICR'', BE_INTERRUPT)]).
        fst w \<in> {uart_reg ''DR'', uart_reg ''RSRECR'', uart_reg ''ICR''}"
      using sends[of "''Break error detected!'' @ [CHR 0x0A]"] by (simp del: sends_simps add: ball_Un)
    ultimately show ?thesis by blast
  next
    case 3
    then have "uart_isr hw s = Returns (snd (read32 hw (uart_reg ''MIS'') s))"
      by (simp add: uart_isr_def split_beta)
    then show ?thesis by (intro exI[of _ "snd (read32 hw (uart_reg ''MIS'') s)"] exI[of _ "[]"]) simp
  qed
qed

section \<open>Properties\<close>

text \<open>
  For a valid configuration the line control word has the word length
  field, the parity, stop bit and FIFO bits the configuration asks for, and no
  other bit. With parity the stick parity bit (bit 7) is set as well, so the
  parity bit is constant and not the even parity the comment announces.
\<close>

theorem uart_lcrh_fields:
  assumes "valid_config config"
  shows "(drop_bit 5 (uart_lcrh config)) AND 3 = ucast (data_bits config) - 5 \<and>
    (bit (uart_lcrh config) 1 \<longleftrightarrow> parity config) \<and>
    (bit (uart_lcrh config) 2 \<longleftrightarrow> parity config) \<and>
    (bit (uart_lcrh config) 3 \<longleftrightarrow> stop_bits config = 2) \<and>
    bit (uart_lcrh config) 4 \<and> \<not> bit (uart_lcrh config) 0 \<and>
    (bit (uart_lcrh config) 7 \<longleftrightarrow> parity config) \<and> uart_lcrh config < 256"
  using valid_config_cases(1,2)[OF assms]
  by (elim disjE) (auto simp: uart_lcrh_def lcrh_consts)

theorem uart_lcrh_fields_witness:
  "valid_config \<lparr>data_bits = 8, stop_bits = 1, parity = True, baudrate = 9600\<rparr> \<and>
   bit (uart_lcrh \<lparr>data_bits = 8, stop_bits = 1, parity = True, baudrate = 9600\<rparr>) 7"
proof -
  have v: "valid_config \<lparr>data_bits = 8, stop_bits = 1, parity = True, baudrate = 9600\<rparr>"
    by (simp add: valid_config_def)
  show ?thesis using v uart_lcrh_fields[OF v] by simp
qed

text \<open>
  C15. An invalid configuration is rejected with the error of the first check it
  fails, without any access to the device and with the state unchanged.
\<close>

theorem uart_configure_rejects:
  assumes "\<not> valid_config config"
  shows "\<exists>e. uart_configure hw config s = Returns (e, s) \<and> e \<noteq> UART_OK \<and>
    (e = UART_INVALID_ARGUMENT_WORDSIZE \<longleftrightarrow> data_bits config \<notin> {5..8}) \<and>
    (e = UART_INVALID_ARGUMENT_STOP_BITS \<longleftrightarrow>
      data_bits config \<in> {5..8} \<and> stop_bits config \<notin> {1..2})"
  using assms
  by (auto simp: uart_configure_def valid_config_def word_one_le_iff simp flip: not_le)

theorem uart_configure_rejects_witness:
  "\<exists>e. uart_configure idle_hw \<lparr>data_bits = 9, stop_bits = 1, parity = False, baudrate = 9600\<rparr> irq_state0 =
     Returns (e, irq_state0) \<and> e = UART_INVALID_ARGUMENT_WORDSIZE"
proof -
  have v: "\<not> valid_config \<lparr>data_bits = 9, stop_bits = 1, parity = False, baudrate = 9600\<rparr>"
    by (simp add: valid_config_def)
  show ?thesis using uart_configure_rejects[OF v, of idle_hw irq_state0] by auto
qed



text \<open>
  At 307 baud, a rate the driver accepts, the rounded fraction is 64: a
  value the six bits of the fractional divisor register cannot hold.
\<close>

theorem uart_fbrd_overflow:
  "valid_config \<lparr>data_bits = 8, stop_bits = 1, parity = False, baudrate = 307\<rparr> \<and>
   d2u 8 (baud_fract64 307) = Some 64"
  using baud_d2u(2)[of 307] by (simp add: valid_config_def)



text \<open>
  C13. A number below \<open>10 ^ 8\<close> is sent as its decimal digits, most significant
  first, without leading zeros; nothing else is written and the call returns.
\<close>

theorem uart_write_uint_prints:
  assumes "tx_drains hw" and "unat num < 10 ^ 8"
  shows "\<exists>ds s'. uart_write_uint hw num s = Returns s' \<and> did s (sends ds) s' \<and> ds \<noteq> [] \<and>
    list_all is_digit_char ds \<and> dec_value ds = unat num \<and> (hd ds = CHR ''0'' \<longrightarrow> ds = ''0'')"
  using assms by (rule uart_write_uint_returns)

theorem uart_write_uint_prints_witness:
  "\<exists>ds s'. uart_write_uint idle_hw 5000 irq_state0 = Returns s' \<and> did irq_state0 (sends ds) s' \<and>
     dec_value ds = 5000"
proof -
  have h: "tx_drains idle_hw" "unat (5000 :: u32) < 10 ^ 8" by (simp_all add: tx_drains_def)
  show ?thesis using uart_write_uint_prints[OF h, of irq_state0] by auto
qed

text \<open>
  A number of nine or more digits is stored beyond the end of the
  eight-character buffer.
\<close>

theorem uart_write_uint_overflows:
  assumes "10 ^ 8 \<le> unat num"
  shows "uart_write_uint hw num s = UB"
  using assms uint_buf_overflow[of "[]" num] by (simp add: uart_write_uint_def)

theorem uart_write_uint_overflows_witness:
  "uart_write_uint idle_hw 100000000 irq_state0 = UB"
  by (rule uart_write_uint_overflows) simp

text \<open>
  C14. The service routine always returns when the transmitter drains. On a
  receive interrupt it sends back the character it read, and a line feed after
  a carriage return; on a break error it reports it and clears the error and
  the interrupt; otherwise it writes nothing.
\<close>

theorem uart_isr_echoes:
  assumes "tx_drains hw" and "st = bus_read hw (bus s) (uart_reg ''MIS'')"
    and "d = bus_read hw (Rd (uart_reg ''MIS'') st # bus s) (uart_reg ''DR'')"
    and "c = char_of (unat (d AND 0xFF))"
  shows "\<exists>s'. uart_isr hw s = Returns s' \<and>
    did s (if st AND RX_INTERRUPT \<noteq> 0 then sends (if c = CHR 0x0D then [c, CHR 0x0A] else [c])
           else if st AND BE_INTERRUPT \<noteq> 0 then
             sends (''Break error detected!'' @ [CHR 0x0A]) @
             [(uart_reg ''RSRECR'', ECR_BE), (uart_reg ''ICR'', BE_INTERRUPT)]
           else []) s'"
proof -
  have none: "uart_isr hw s = Returns (snd (read32 hw (uart_reg ''MIS'') s))"
    if "st AND RX_INTERRUPT = 0" "st AND BE_INTERRUPT = 0"
    using that assms(2) by (simp add: uart_isr_def split_beta)
  consider "st AND RX_INTERRUPT \<noteq> 0" | "st AND RX_INTERRUPT = 0" "st AND BE_INTERRUPT \<noteq> 0"
    | "st AND RX_INTERRUPT = 0" "st AND BE_INTERRUPT = 0" by blast
  then show ?thesis
  proof cases
    case 1
    with uart_isr_rx[OF assms(1), of s] assms(2-4) show ?thesis by auto
  next
    case 2
    with uart_isr_be[OF assms(1), of s] assms(2) show ?thesis by simp
  next
    case 3
    with none show ?thesis by simp
  qed
qed

theorem uart_isr_echoes_witness:
  "\<exists>s'. uart_isr (idle_hw\<lparr>bus_read := \<lambda>h a. if a = uart_reg ''MIS'' then RX_INTERRUPT
      else if a = uart_reg ''DR'' then 13 else 0\<rparr>) irq_state0 = Returns s' \<and>
    did irq_state0 (sends [CHR 0x0D, CHR 0x0A]) s'"
proof -
  define hw where "hw = idle_hw\<lparr>bus_read := \<lambda>h a. if a = uart_reg ''MIS'' then RX_INTERRUPT
      else if a = uart_reg ''DR'' then 13 else 0\<rparr>"
  have 1: "tx_drains hw"
    by (auto simp: tx_drains_def eventually_clear_def hw_def uart_reg_def intro: exI[of _ 0])
  have 2: "RX_INTERRUPT = bus_read hw (bus irq_state0) (uart_reg ''MIS'')" by (simp add: hw_def)
  have 3: "13 = bus_read hw (Rd (uart_reg ''MIS'') RX_INTERRUPT # bus irq_state0) (uart_reg ''DR'')"
    by (simp add: hw_def uart_reg_def)
  have 4: "CHR 0x0D = char_of (unat ((13 :: u32) AND 0xFF))" by (simp add: eq_commute char_of_eq_iff)
  have rx: "RX_INTERRUPT AND RX_INTERRUPT \<noteq> 0" by (simp add: RX_INTERRUPT_def)
  show ?thesis
    unfolding hw_def[symmetric] using uart_isr_echoes[OF 1 2 3 4] rx by (simp only: if_True refl) simp
qed

end
