(* ===== verification/Systime.thy ===== *)
theory Systime
  imports Irq
begin

unbundle bit_operations_syntax

text \<open>
  The system time (\<^verbatim>\<open>systime.c\<close>): a free-running 32-bit count of timer interrupts.
  The variable is volatile: the timer interrupt changes it between any two
  statements of the program, so code that reads it is given the interrupts that
  arrive before the read as an argument (\<open>preempt\<close>).
\<close>

type_synonym systime_t = u32

record systime_state = irq_state +
  systime :: systime_t

definition systime_tick :: "'a systime_state_scheme \<Rightarrow> 'a systime_state_scheme" where
  "systime_tick s = s\<lparr>systime := systime s + 1\<rparr>"

definition systime_get :: "'a systime_state_scheme \<Rightarrow> systime_t" where
  "systime_get s = systime s"

lemma systime_state_bus_simps [simp]:
  "systime (WRITE32 a v s) = systime s"
  "systime (snd (read32 hw a s)) = systime s"
  "systime (snd (irq_register_isr n f s)) = systime s"
  "systime (gic_end_interrupt n s) = systime s"
  by (simp_all add: WRITE32_def read32_def Let_def irq_register_isr_def gic_end_interrupt_def)

lemma did_systime: "did s ws s' \<Longrightarrow> systime s' = systime s"
  by (cases s, cases s', simp add: did_def irq_state.defs gic_state.defs systime_state.defs)

text \<open>\<open>ticked s s'\<close>: \<open>s'\<close> is \<open>s\<close> after some timer interrupts.\<close>

lemma systime_ticks: "systime ((systime_tick ^^ n) s) = systime s + of_nat n"
  by (induction n) (simp_all add: systime_tick_def)

text \<open>
  The unsigned difference of two readings is the number of interrupts between
  them, as long as fewer than \<open>2 ^ 32\<close> have passed, also when the counter wraps.
\<close>

lemma systime_elapsed:
  assumes "systime s = of_nat t" and "t < t0 + 2 ^ 32" and "t0 \<le> t"
  shows "unat (systime_get s - of_nat t0) = t - t0"
proof -
  have "unat (systime_get s - of_nat t0) = (t - t0) mod 2 ^ LENGTH(32)"
    using assms by (intro word_minus_le_iff_elapsed) (simp_all add: systime_get_def)
  with assms show ?thesis by simp
qed

end
