(* ===== verification/Ptimer.thy ===== *)
theory Ptimer
  imports Systime Doubles
begin

unbundle bit_operations_syntax

text \<open>
  The private timer driver (\<^verbatim>\<open>ptimer.c\<close>, \<^verbatim>\<open>ptimer.h\<close>): the load value from a period
  in milliseconds, initialisation, and the service routine that drives the
  system time.
\<close>

section \<open>Registers and state\<close>

definition private_timer_registers :: reg_struct where
  "private_timer_registers = [(''LR'', 1), (''CR'', 1), (''CTRL'', 1), (''ISR'', 1)]"

datatype ptimer_error = PTIMER_OK | PTIMER_INVALID_PERIOD

record ptimer_state = systime_state +
  ptimer_regs :: u32

definition PTIMER_BASE :: "hardware \<Rightarrow> u32" where
  "PTIMER_BASE hw = cpu_get_periphbase hw + PTIMER_OFFSET"

definition preg :: "u32 \<Rightarrow> string \<Rightarrow> u32" where
  "preg base f = base + of_nat (offsetof private_timer_registers f)"

definition CTRL_IRQ_ENABLE :: u32 where "CTRL_IRQ_ENABLE = push_bit 2 1"
definition CTRL_AUTORELOAD :: u32 where "CTRL_AUTORELOAD = push_bit 1 1"
definition CTRL_ENABLE :: u32 where "CTRL_ENABLE = 1"
definition ISR_CLEAR :: u32 where "ISR_CLEAR = 1"
definition PTIMER_INTERRUPT :: u16 where "PTIMER_INTERRUPT = 29"
definition ptimer_refclock :: u32 where "ptimer_refclock = 24000000"

section \<open>Operations\<close>

definition validate_config :: "u16 \<Rightarrow> bool" where
  "validate_config millisecs =
    (let max_period = 0xFFFFFFFF div ptimer_refclock;
         max_millis = max_period * 1000
     in (ucast millisecs :: u32) < max_millis)"

text \<open>The load value as a \<^verbatim>\<open>double\<close>, before the conversion to an integer.\<close>

definition timer_double :: "u16 \<Rightarrow> rat" where
  "timer_double millisecs =
    (let period = rnd (of_nat (unat millisecs) * rnd (1 / 1000))
     in rnd (rnd (period * of_nat (unat ptimer_refclock)) - 1))"

definition millisecs_to_timer_value :: "u16 \<Rightarrow> u32 outcome" where
  "millisecs_to_timer_value millisecs =
    (case d2u 32 (timer_double millisecs) of
       None \<Rightarrow> UB
     | Some value \<Rightarrow> Returns (of_int value * 3))"

definition ptimer_init ::
  "hardware \<Rightarrow> u16 \<Rightarrow> 'a ptimer_state_scheme \<Rightarrow> (ptimer_error \<times> 'a ptimer_state_scheme) outcome" where
  "ptimer_init hw millisecs s =
    (let s = s\<lparr>ptimer_regs := PTIMER_BASE hw\<rparr>
     in if \<not> validate_config millisecs then Returns (PTIMER_INVALID_PERIOD, s)
     else bindO (millisecs_to_timer_value millisecs) (\<lambda>load_val.
       let s = WRITE32 (preg (ptimer_regs s) ''LR'') load_val s;
           s = snd (irq_register_isr PTIMER_INTERRUPT ptimer_isr_fn s);
           ctrl = CTRL_AUTORELOAD OR CTRL_IRQ_ENABLE OR CTRL_ENABLE;
           s = WRITE32 (preg (ptimer_regs s) ''CTRL'') ctrl s
       in Returns (PTIMER_OK, s)))"

definition ptimer_isr :: "'a ptimer_state_scheme \<Rightarrow> 'a ptimer_state_scheme" where
  "ptimer_isr s =
    (let s = WRITE32 (preg (ptimer_regs s) ''ISR'') ISR_CLEAR s
     in systime_tick s)"

section \<open>Lemmas\<close>

lemma ptimer_offsets [simp]:
  "offsetof private_timer_registers ''LR'' = 0x0"
  "offsetof private_timer_registers ''CR'' = 0x4"
  "offsetof private_timer_registers ''CTRL'' = 0x8"
  "offsetof private_timer_registers ''ISR'' = 0xC"
  by (simp_all add: private_timer_registers_def)

lemma ptimer_state_bus_simps [simp]:
  "ptimer_regs (WRITE32 a v s) = ptimer_regs s"
  "ptimer_regs (snd (read32 hw a s)) = ptimer_regs s"
  "ptimer_regs (snd (irq_register_isr n f s)) = ptimer_regs s"
  "ptimer_regs (gic_end_interrupt n s) = ptimer_regs s"
  by (simp_all add: WRITE32_def read32_def Let_def irq_register_isr_def gic_end_interrupt_def)

lemma unat_u16_bound: "unat (ms :: u16) \<le> 65535"
  using unsigned_less[of ms, where ?'a = nat] by (simp add: less_Suc_eq_le)

lemma validate_config_always: "validate_config millisecs"
proof -
  have "unat (ucast millisecs :: u32) = unat millisecs"
    using unat_u16_bound[of millisecs] by (simp add: unsigned_ucast_eq take_bit_nat_eq_self)
  then show ?thesis
    using unat_u16_bound[of millisecs]
    by (simp add: validate_config_def ptimer_refclock_def Let_def word_less_nat_alt)
qed

text \<open>Four roundings keep the load value close to the exact one.\<close>

lemma timer_double_error:
  assumes "0 < unat ms"
  shows "\<bar>timer_double ms - (24000 * of_nat (unat ms) - 1)\<bar> < 1 / 100000"
proof -
  define n where "n = (of_nat (unat ms) :: rat)"
  have n: "1 \<le> n" "n \<le> 65535"
    using assms unat_u16_bound[of ms] unfolding n_def
    by (metis Suc_leI of_nat_1 of_nat_le_iff One_nat_def) (metis of_nat_le_iff of_nat_numeral unat_u16_bound)
  define c where "c = rnd (1/1000)"
  have c: "\<bar>c - 1/1000\<bar> \<le> 1/9007199254740992000" using rnd_pos_error[of "1/1000"] by (simp add: c_def)
  then have c': "1/1000 - 1/9007199254740992000 \<le> c" "c \<le> 1/1000 + 1/9007199254740992000"
    by (simp_all only: abs_le_iff) linarith+
  define y where "y = n * c"
  have "n * (1/1000 - 1/9007199254740992000) \<le> y" "y \<le> n * (1/1000 + 1/9007199254740992000)"
    unfolding y_def using c' n by (auto intro!: mult_left_mono)
  then have y: "n * 9007199254740991 / 9007199254740992000 \<le> y"
    "y \<le> n * 9007199254740993 / 9007199254740992000"
    by simp_all
  then have "0 < y" using n by linarith
  define P where "P = rnd y"
  have P: "\<bar>P - y\<bar> \<le> y / 9007199254740992" using rnd_pos_error[OF \<open>0 < y\<close>] by (simp add: P_def)
  then have "0 < P * 24000000" using \<open>0 < y\<close> by linarith
  define Q where "Q = rnd (P * 24000000)"
  have Q: "\<bar>Q - P * 24000000\<bar> \<le> P * 24000000 / 9007199254740992"
    using rnd_pos_error[OF \<open>0 < P * 24000000\<close>] by (simp add: Q_def)
  have Q1: "0 < Q - 1" using n y P Q by linarith
  define R where "R = rnd (Q - 1)"
  have R: "\<bar>R - (Q - 1)\<bar> \<le> (Q - 1) / 9007199254740992"
    using rnd_pos_error[OF Q1] by (simp add: R_def)
  have "timer_double ms = R"
    by (simp add: R_def timer_double_def Let_def ptimer_refclock_def n_def c_def y_def P_def Q_def)
  moreover have "y \<le> n / 1000 + 1 / 10000000000000" "n / 1000 - 1 / 10000000000000 \<le> y"
    using y n by linarith+
  then have "P \<le> n / 1000 + 2 / 10000000000000" "n / 1000 - 2 / 10000000000000 \<le> P"
    using P n unfolding abs_le_iff by linarith+
  then have "Q \<le> 24000 * n + 1 / 200000" "24000 * n - 1 / 200000 \<le> Q"
    using Q n unfolding abs_le_iff by linarith+
  then have "(Q - 1) / 9007199254740992 \<le> 1 / 1000000" using n by simp
  then have "R \<le> Q - 1 + 1 / 1000000" "Q - 1 - 1 / 1000000 \<le> R"
    using R by (simp_all only: abs_le_iff) linarith+
  ultimately show ?thesis
    using \<open>Q \<le> 24000 * n + 1 / 200000\<close> \<open>24000 * n - 1 / 200000 \<le> Q\<close>
    unfolding n_def[symmetric] abs_less_iff by auto
qed

lemma timer_double_floor:
  assumes "0 < unat ms"
  shows "\<exists>v \<in> {24000 * unat ms - 1, 24000 * unat ms - 2}. d2u 32 (timer_double ms) = Some (int v)"
proof -
  define n where "n = unat ms"
  have n: "1 \<le> n" "n \<le> 65535" using assms unat_u16_bound[of ms] by (auto simp: n_def)
  then have rn: "(1::rat) \<le> of_nat n" "of_nat n \<le> (65535::rat)"
    by (metis of_nat_1 of_nat_le_iff) (metis n(2) of_nat_le_iff of_nat_numeral)
  have b: "24000 * of_nat n - 2 < timer_double ms" "timer_double ms < 24000 * of_nat n"
    using timer_double_error[OF assms] unfolding n_def[symmetric] abs_less_iff by linarith+
  then have "24000 * int n - 2 \<le> \<lfloor>timer_double ms\<rfloor>" "\<lfloor>timer_double ms\<rfloor> < 24000 * int n"
    by (auto simp: le_floor_iff floor_less_iff)
  then have "\<lfloor>timer_double ms\<rfloor> = 24000 * int n - 1 \<or> \<lfloor>timer_double ms\<rfloor> = 24000 * int n - 2"
    by linarith
  moreover have "0 < timer_double ms" "timer_double ms < 2 ^ 32" using b rn by auto
  ultimately show ?thesis
    using n by (auto simp: d2u_def n_def of_nat_diff)
qed

lemma millisecs_to_timer_value_returns:
  assumes "0 < unat ms"
  shows "\<exists>v \<in> {24000 * unat ms - 1, 24000 * unat ms - 2}.
    millisecs_to_timer_value ms = Returns (of_nat (3 * v))"
  using timer_double_floor[OF assms]
  by (auto simp: millisecs_to_timer_value_def mult.commute)

text \<open>The two periods evaluated below, rounding by rounding.\<close>

lemma rnd_milli: "rnd (1/1000) = 1152921504606847 / 2 ^ 60"
  using rnd_eqI[of "-10" "1/1000" 4611686018427388] by (simp add: power_int_def power_divide)

lemma timer_double_unfold:
  "timer_double ms = rnd (rnd (rnd (of_nat (unat ms) * (1152921504606847 / 2 ^ 60)) * 24000000) - 1)"
  by (simp only: timer_double_def ptimer_refclock_def rnd_milli Let_def) simp

lemma timer_double_1: "timer_double 1 = 23999"
proof -
  have "rnd (1152921504606847 / 2 ^ 60) = 1152921504606847 / 2 ^ 60"
    by (rule rnd_exact[of _ 1152921504606847 "-60"]) (simp_all add: power_int_def power_divide)
  moreover have "rnd (1152921504606847 / 2 ^ 60 * 24000000) = 24000"
    using rnd_eqI[of 14 "1152921504606847 / 2 ^ 60 * 24000000" "24000 * 2 ^ 38"]
    by (simp add: power_int_def power_divide)
  moreover have "rnd (24000 - 1) = 23999"
    using rnd_exact[of 23999 23999 0] by simp
  moreover have "of_nat (unat (1 :: u16)) = (1 :: rat)" by simp
  ultimately show ?thesis by (simp only: timer_double_unfold mult_1)
qed

lemma millisecs_to_timer_value_1: "millisecs_to_timer_value 1 = Returns 71997"
  by (simp add: millisecs_to_timer_value_def d2u_def timer_double_1)

lemma timer_double_145: "timer_double 145 = 7473240947556351 / 2 ^ 31"
proof -
  have "rnd (145 * (1152921504606847 / 2 ^ 60)) = 5224175567749775 / 2 ^ 55"
    using rnd_eqI[of "-3" "145 * (1152921504606847 / 2 ^ 60)" 5224175567749775]
    by (simp add: power_int_def power_divide)
  moreover have "rnd (5224175567749775 / 2 ^ 55 * 24000000) = 7473243095039999 / 2 ^ 31"
    using rnd_eqI[of 21 "5224175567749775 / 2 ^ 55 * 24000000" 7473243095039999]
    by (simp add: power_int_def power_divide)
  moreover have "rnd (7473243095039999 / 2 ^ 31 - 1) = 7473240947556351 / 2 ^ 31"
    using rnd_exact[of "7473243095039999 / 2 ^ 31 - 1" 7473240947556351 "-31"]
    by (simp add: power_int_def power_divide)
  moreover have "of_nat (unat (145 :: u16)) = (145 :: rat)" by simp
  ultimately show ?thesis by (simp only: timer_double_unfold)
qed

lemma millisecs_to_timer_value_145: "millisecs_to_timer_value 145 = Returns (3479998 * 3)"
proof -
  have "\<lfloor>7473240947556351 / 2 ^ 31 :: rat\<rfloor> = 3479998" by (simp add: floor_eq_iff)
  then show ?thesis by (simp add: millisecs_to_timer_value_def d2u_def timer_double_145)
qed

lemma ptimer_init_eq:
  "ptimer_init hw ms s =
    bindO (millisecs_to_timer_value ms) (\<lambda>v.
      Returns (PTIMER_OK, WRITE32 (PTIMER_BASE hw + 8) 7
        (snd (irq_register_isr PTIMER_INTERRUPT ptimer_isr_fn
          (WRITE32 (PTIMER_BASE hw) v (s\<lparr>ptimer_regs := PTIMER_BASE hw\<rparr>))))))"
  by (simp add: ptimer_init_def validate_config_always Let_def preg_def
      CTRL_AUTORELOAD_def CTRL_IRQ_ENABLE_def CTRL_ENABLE_def)

lemma ptimer_isr_effect [simp]:
  "systime (ptimer_isr s) = systime s + 1"
  "bus (ptimer_isr s) = Wr (preg (ptimer_regs s) ''ISR'') 1 # bus s"
  "gic_ifregs (ptimer_isr s) = gic_ifregs s" "gic_dregs (ptimer_isr s) = gic_dregs s"
  "callbacks (ptimer_isr s) = callbacks s" "ptimer_regs (ptimer_isr s) = ptimer_regs s"
  "interrupts_enabled (ptimer_isr s) = interrupts_enabled s"
  "ptimer_state.more (ptimer_isr s) = ptimer_state.more s"
  by (simp_all add: ptimer_isr_def systime_tick_def ISR_CLEAR_def WRITE32_def)

section \<open>Properties\<close>

text \<open>
  C18. For a period of at least a millisecond the load value computed in
  \<^verbatim>\<open>double\<close> arithmetic is three times the exact \<open>24000 * ms - 1\<close> or three times one
  less (the truncation may lose a unit). The multiplication by three stays
  within 32 bits exactly for periods up to 59652 milliseconds; beyond, the
  value wraps around.
\<close>

theorem ptimer_load_value:
  assumes "0 < unat ms"
  shows "\<exists>v. (v = 24000 * unat ms - 1 \<or> v = 24000 * unat ms - 2) \<and>
    millisecs_to_timer_value ms = Returns (of_nat (3 * v)) \<and>
    (3 * v < 2 ^ 32 \<longleftrightarrow> unat ms \<le> 59652)"
proof -
  obtain v where v: "v = 24000 * unat ms - 1 \<or> v = 24000 * unat ms - 2"
    and r: "millisecs_to_timer_value ms = Returns (of_nat (3 * v))"
    using millisecs_to_timer_value_returns[OF assms] by blast
  have "3 * v < 2 ^ 32 \<longleftrightarrow> unat ms \<le> 59652" using v assms by auto
  with v r show ?thesis by blast
qed

theorem ptimer_load_value_witness:
  "\<exists>v. (v = 24000 * 1 - 1 \<or> v = 24000 * 1 - 2) \<and>
    millisecs_to_timer_value 1 = Returns (of_nat (3 * v))"
proof -
  have h: "0 < unat (1 :: u16)" by simp
  show ?thesis using ptimer_load_value[OF h] by auto
qed

text \<open>
  The truncation does lose a unit: 145 ms gives 3479998 counts before the
  factor of three where the formula in the source's comment gives 3479999.
\<close>

theorem ptimer_load_value_off_by_one:
  "millisecs_to_timer_value 145 = Returns (3 * 3479998) \<and> 3479998 = 24000 * 145 - (2 :: u32)"
  using millisecs_to_timer_value_145 by simp

text \<open>
  A period of zero is not rejected: the conversion of \<open>-1\<close> to an unsigned
  integer is undefined.
\<close>

theorem ptimer_init_zero_undefined: "ptimer_init hw 0 s = UB"
proof -
  have "timer_double 0 = -1"
    using rnd_exact[of 1 1 0] by (simp add: timer_double_def Let_def rnd_def split: if_splits)
  then show ?thesis by (simp add: ptimer_init_eq millisecs_to_timer_value_def d2u_def)
qed

text \<open>
  Initialisation for any period from one millisecond on succeeds: the timer
  is loaded, its service routine registered for interrupt 29 when the id was
  free, and then, as the last access, the timer is started with automatic
  reload and its interrupt enabled. The error \<^verbatim>\<open>PTIMER_INVALID_PERIOD\<close> is never
  returned.
\<close>

theorem ptimer_init_starts:
  assumes "0 < unat ms" and "irq_inv s" and "callback PTIMER_INTERRUPT s = None"
  shows "\<exists>s' v. ptimer_init hw ms s = Returns (PTIMER_OK, s') \<and>
    millisecs_to_timer_value ms = Returns v \<and>
    bus s' = [Wr (PTIMER_BASE hw + 8) 7, Wr (PTIMER_BASE hw) v] @ bus s \<and>
    callback PTIMER_INTERRUPT s' = Some ptimer_isr_fn \<and> irq_inv s' \<and> systime s' = systime s"
proof -
  obtain v where v: "millisecs_to_timer_value ms = Returns v"
    using millisecs_to_timer_value_returns[OF assms(1)] by blast
  define t where "t = WRITE32 (PTIMER_BASE hw) v (s\<lparr>ptimer_regs := PTIMER_BASE hw\<rparr>)"
  have t: "irq_inv t" "callback PTIMER_INTERRUPT t = None"
    using assms(2,3) by (simp_all add: t_def irq_inv_def callback_def split: if_splits)
  have "callback PTIMER_INTERRUPT (snd (irq_register_isr PTIMER_INTERRUPT ptimer_isr_fn t)) = Some ptimer_isr_fn"
    using irq_tab.lookup_register[OF t(1), of PTIMER_INTERRUPT PTIMER_INTERRUPT] t(2)
    by (simp add: PTIMER_INTERRUPT_def ISR_COUNT_def)
  moreover have "systime t = systime s" "bus t = Wr (PTIMER_BASE hw) v # bus s" by (simp_all add: t_def)
  ultimately show ?thesis
    using v irq_register_isr_inv[OF t(1), of PTIMER_INTERRUPT ptimer_isr_fn]
    by (auto simp: ptimer_init_eq t_def[symmetric] irq_inv_def callback_def)
qed

definition ptimer_state0 :: ptimer_state where
  "ptimer_state0 = \<lparr>bus = [], interrupts_enabled = False, gic_dregs = 0, gic_ifregs = 0,
     callbacks = replicate 1024 None, systime = 0, ptimer_regs = 0\<rparr>"

theorem ptimer_init_starts_witness:
  "\<exists>s'. ptimer_init idle_hw 1 ptimer_state0 = Returns (PTIMER_OK, s') \<and>
    bus s' = [Wr 0x1E000608 7, Wr 0x1E000600 71997]"
proof -
  have h: "0 < unat (1 :: u16)" "irq_inv ptimer_state0" "callback PTIMER_INTERRUPT ptimer_state0 = None"
    by (simp_all add: irq_inv_def ptimer_state0_def callback_def ISR_COUNT_def PTIMER_INTERRUPT_def)
  show ?thesis
    using ptimer_init_starts[OF h, of idle_hw] millisecs_to_timer_value_1
    by (auto simp: PTIMER_BASE_def PTIMER_OFFSET_def cpu_get_periphbase_def idle_hw_def ptimer_state0_def)
qed

end
