(* ===== verification/Sched.thy ===== *)
theory Sched
  imports Ptimer
begin

unbundle bit_operations_syntax

text \<open>
  The cooperative scheduler (\<^verbatim>\<open>sched.c\<close>, \<^verbatim>\<open>sched.h\<close>): the task table, adding a task,
  and the loop that starts every task whose period has passed.
  The bodies of the tasks are in other components: \<open>call\<close> runs the function a
  pointer designates. \<open>preempt\<close> runs the interrupts that arrive before a read of
  the volatile system time.
\<close>

section \<open>State\<close>

definition MAX_NUM_TASKS :: nat where "MAX_NUM_TASKS = 10"

record task_desc =
  entry :: "fn_ptr option"
  period :: systime_t
  last_run :: systime_t

datatype sched_error = SCHED_OK | SCHED_TOO_MANY_TASKS

record sched_state = ptimer_state +
  task_table :: "task_desc list"
  table_idx :: u8

definition null_task :: task_desc where
  "null_task = \<lparr>entry = None, period = 0, last_run = 0\<rparr>"

section \<open>Operations\<close>

definition sched_add_task ::
  "fn_ptr option \<Rightarrow> systime_t \<Rightarrow> 'a sched_state_scheme \<Rightarrow> sched_error \<times> 'a sched_state_scheme" where
  "sched_add_task ent per s =
    (if unat (table_idx s) \<ge> MAX_NUM_TASKS then (SCHED_TOO_MANY_TASKS, s)
     else
       let task = \<lparr>entry = ent, period = per, last_run = 0\<rparr>
       in (SCHED_OK, s\<lparr>task_table := (task_table s)[unat (table_idx s) := task],
                       table_idx := table_idx s + 1\<rparr>))"

text \<open>The body of the inner loop of \<^verbatim>\<open>sched_run\<close> for one slot.\<close>

definition sched_slot ::
  "('a sched_state_scheme \<Rightarrow> 'a sched_state_scheme outcome) \<Rightarrow>
   (fn_ptr \<Rightarrow> 'a sched_state_scheme \<Rightarrow> 'a sched_state_scheme outcome) \<Rightarrow>
   nat \<Rightarrow> 'a sched_state_scheme \<Rightarrow> 'a sched_state_scheme outcome" where
  "sched_slot preempt call i s =
    (case entry (task_table s ! i) of
       None \<Rightarrow> Returns s
     | Some f \<Rightarrow>
       bindO (preempt s) (\<lambda>s.
       if systime_get s - last_run (task_table s ! i) \<ge> period (task_table s ! i) then
         bindO (preempt s) (\<lambda>s.
         call f (s\<lparr>task_table := (task_table s)[i := (task_table s ! i)\<lparr>last_run := systime_get s\<rparr>]\<rparr>))
       else Returns s))"

text \<open>One turn of the outer loop: the slots from \<open>i\<close> on, in order.\<close>

function sched_slots ::
  "('a sched_state_scheme \<Rightarrow> 'a sched_state_scheme outcome) \<Rightarrow>
   (fn_ptr \<Rightarrow> 'a sched_state_scheme \<Rightarrow> 'a sched_state_scheme outcome) \<Rightarrow>
   nat \<Rightarrow> 'a sched_state_scheme \<Rightarrow> 'a sched_state_scheme outcome" where
  "sched_slots preempt call i s =
    (if i < MAX_NUM_TASKS
     then bindO (sched_slot preempt call i s) (sched_slots preempt call (Suc i))
     else Returns s)"
  by pat_completeness auto
termination
  by (relation "measure (\<lambda>(p, c, i, s). MAX_NUM_TASKS - i)") auto

text \<open>
  \<^verbatim>\<open>sched_run\<close> never returns; its state after \<open>n\<close> turns of the \<^verbatim>\<open>while (1)\<close> loop.
\<close>

primrec sched_run ::
  "('a sched_state_scheme \<Rightarrow> 'a sched_state_scheme outcome) \<Rightarrow>
   (fn_ptr \<Rightarrow> 'a sched_state_scheme \<Rightarrow> 'a sched_state_scheme outcome) \<Rightarrow>
   nat \<Rightarrow> 'a sched_state_scheme \<Rightarrow> 'a sched_state_scheme outcome" where
  "sched_run preempt call 0 s = Returns s"
| "sched_run preempt call (Suc n) s =
    bindO (sched_slots preempt call 0 s) (sched_run preempt call n)"

declare sched_slots.simps [simp del]

section \<open>The task table\<close>

definition sched_inv :: "'a sched_state_scheme \<Rightarrow> bool" where
  "sched_inv s \<longleftrightarrow> length (task_table s) = MAX_NUM_TASKS \<and> unat (table_idx s) \<le> MAX_NUM_TASKS \<and>
     (\<forall>i. unat (table_idx s) \<le> i \<and> i < MAX_NUM_TASKS \<longrightarrow> task_table s ! i = null_task)"

text \<open>The tasks that were added, in order.\<close>

definition tasks :: "'a sched_state_scheme \<Rightarrow> task_desc list" where
  "tasks s = take (unat (table_idx s)) (task_table s)"

text \<open>The interface: a list of bounded length that only grows at its end.\<close>

locale bounded_table =
  fixes add :: "'t \<Rightarrow> 's \<Rightarrow> sched_error \<times> 's" and elems :: "'s \<Rightarrow> 't list"
    and inv :: "'s \<Rightarrow> bool" and cap :: nat
  assumes add_inv: "inv s \<Longrightarrow> inv (snd (add t s))"
    and add_ok: "inv s \<Longrightarrow> length (elems s) < cap \<Longrightarrow> fst (add t s) = SCHED_OK"
    and add_elems: "inv s \<Longrightarrow> length (elems s) < cap \<Longrightarrow> elems (snd (add t s)) = elems s @ [t]"
    and add_full: "inv s \<Longrightarrow> length (elems s) \<ge> cap \<Longrightarrow> add t s = (SCHED_TOO_MANY_TASKS, s)"
    and elems_cap: "inv s \<Longrightarrow> length (elems s) \<le> cap"
begin

lemma add_all:
  "inv s \<Longrightarrow> inv (fold (\<lambda>t s. snd (add t s)) ts s) \<and>
    elems (fold (\<lambda>t s. snd (add t s)) ts s) = elems s @ take (cap - length (elems s)) ts"
proof (induction ts arbitrary: s)
  case Nil
  then show ?case by simp
next
  case (Cons t ts)
  show ?case
  proof (cases "length (elems s) < cap")
    case True
    then have "cap - length (elems s) = Suc (cap - length (elems s @ [t]))" by simp
    with True Cons.prems Cons.IH[OF add_inv[OF Cons.prems, of t]] show ?thesis
      by (simp add: add_elems)
  next
    case False
    with Cons.prems Cons.IH[OF Cons.prems] show ?thesis by (simp add: add_full)
  qed
qed

end

lemma table_idx_Suc: "unat (table_idx s) < 10 \<Longrightarrow> unat (table_idx s + 1) = Suc (unat (table_idx s))"
  by (simp add: unat_plus_mod)

lemma sched_add_task_inv: "sched_inv s \<Longrightarrow> sched_inv (snd (sched_add_task f p s))"
  by (auto simp: sched_add_task_def sched_inv_def MAX_NUM_TASKS_def table_idx_Suc Let_def)

text \<open>What a client of the scheduler sees: the entries and periods of the tasks added.\<close>

definition added :: "'a sched_state_scheme \<Rightarrow> (fn_ptr option \<times> systime_t) list" where
  "added s = map (\<lambda>t. (entry t, period t)) (tasks s)"

definition add_pair ::
  "fn_ptr option \<times> systime_t \<Rightarrow> 'a sched_state_scheme \<Rightarrow> sched_error \<times> 'a sched_state_scheme" where
  "add_pair t s = sched_add_task (fst t) (snd t) s"

lemma length_added: "sched_inv s \<Longrightarrow> length (added s) = unat (table_idx s)"
  by (simp add: added_def tasks_def sched_inv_def)

interpretation sched_tab: bounded_table add_pair added sched_inv MAX_NUM_TASKS
proof (unfold_locales, goal_cases)
  case 1
  then show ?case by (simp add: add_pair_def sched_add_task_inv)
next
  case 2
  then show ?case by (simp add: add_pair_def sched_add_task_def length_added)
next
  case (3 s t)
  then have i: "unat (table_idx s) < 10" "length (task_table s) = 10"
    by (simp_all add: length_added[OF 3(1)] MAX_NUM_TASKS_def sched_inv_def)
  then have "take (Suc (unat (table_idx s))) ((task_table s)[unat (table_idx s) := x]) =
      take (unat (table_idx s)) (task_table s) @ [x]" for x
    by (simp add: take_Suc_conv_app_nth)
  with i show ?case
    by (simp add: add_pair_def sched_add_task_def added_def tasks_def MAX_NUM_TASKS_def
        table_idx_Suc Let_def)
next
  case 4
  then show ?case by (simp add: add_pair_def sched_add_task_def length_added)
next
  case 5
  then show ?case by (simp add: length_added sched_inv_def)
qed

section \<open>Steps and true time\<close>

text \<open>
  The loop as a step relation, with interrupts between any two steps. A
  configuration is the place in the loop, the true number of timer interrupts
  since reset, the true time of the last start of each slot, and the state. At
  \<open>Run i\<close> the body of task \<open>i\<close> executes; like the interrupts it may change
  everything but the task table, which is static to \<^verbatim>\<open>sched.c\<close>.
\<close>

datatype sched_pc = Test nat | Stamp nat | Run nat

definition next_slot :: "nat \<Rightarrow> nat" where
  "next_slot i = (if Suc i < MAX_NUM_TASKS then Suc i else 0)"

inductive sched_step ::
  "sched_pc \<times> nat \<times> (nat \<Rightarrow> nat) \<times> 'a sched_state_scheme \<Rightarrow>
   sched_pc \<times> nat \<times> (nat \<Rightarrow> nat) \<times> 'a sched_state_scheme \<Rightarrow> bool" where
  elapse: "task_table s' = task_table s \<Longrightarrow> systime s' = systime s + of_nat k \<Longrightarrow>
    sched_step (pc, t, l, s) (pc, t + k, l, s')"
| skip: "i < MAX_NUM_TASKS \<Longrightarrow> entry (task_table s ! i) = None \<Longrightarrow>
    sched_step (Test i, t, l, s) (Test (next_slot i), t, l, s)"
| not_due: "i < MAX_NUM_TASKS \<Longrightarrow> entry (task_table s ! i) \<noteq> None \<Longrightarrow>
    \<not> systime_get s - last_run (task_table s ! i) \<ge> period (task_table s ! i) \<Longrightarrow>
    sched_step (Test i, t, l, s) (Test (next_slot i), t, l, s)"
| due: "i < MAX_NUM_TASKS \<Longrightarrow> entry (task_table s ! i) \<noteq> None \<Longrightarrow>
    systime_get s - last_run (task_table s ! i) \<ge> period (task_table s ! i) \<Longrightarrow>
    sched_step (Test i, t, l, s) (Stamp i, t, l, s)"
| stamp: "sched_step (Stamp i, t, l, s) (Run i, t, l(i := t),
    s\<lparr>task_table := (task_table s)[i := (task_table s ! i)\<lparr>last_run := systime_get s\<rparr>]\<rparr>)"
| return: "sched_step (Run i, t, l, s) (Test (next_slot i), t, l, s)"

inductive_cases sched_step_StampE: "sched_step (Stamp i, t, l, s) c"

definition timed :: "sched_pc \<times> nat \<times> (nat \<Rightarrow> nat) \<times> 'a sched_state_scheme \<Rightarrow> bool" where
  "timed c \<longleftrightarrow> (case c of (pc, t, l, s) \<Rightarrow>
     systime s = of_nat t \<and> length (task_table s) = MAX_NUM_TASKS \<and>
     (\<forall>i < MAX_NUM_TASKS. last_run (task_table s ! i) = of_nat (l i) \<and> l i \<le> t) \<and>
     (case pc of Test i \<Rightarrow> i < MAX_NUM_TASKS
      | Run i \<Rightarrow> i < MAX_NUM_TASKS
      | Stamp i \<Rightarrow> i < MAX_NUM_TASKS \<and> l i + unat (period (task_table s ! i)) \<le> t))"

lemma next_slot_less [simp]: "next_slot i < MAX_NUM_TASKS"
  by (simp add: next_slot_def MAX_NUM_TASKS_def)

lemma due_elapsed:
  assumes "systime s = of_nat t" and "prev = of_nat t0" and "t0 \<le> t"
    and "per \<le> systime_get s - prev"
  shows "t0 + unat per \<le> t"
proof -
  have "unat per \<le> unat (systime_get s - prev)" using assms(4) by (simp add: word_le_nat_alt)
  also have "\<dots> = (t - t0) mod 2 ^ LENGTH(32)"
    using assms(1-3) by (intro word_minus_le_iff_elapsed) (simp_all add: systime_get_def)
  also have "\<dots> \<le> t - t0" by simp
  finally show ?thesis using assms(3) by simp
qed

lemma sched_step_timed: "sched_step c d \<Longrightarrow> timed c \<Longrightarrow> timed d"
proof (induction rule: sched_step.induct)
  case (elapse s' s k pc t l)
  then show ?case by (cases pc) (auto simp: timed_def intro: trans_le_add1)
next
  case (skip i s t l)
  then show ?case by (simp add: timed_def)
next
  case (not_due i s t l)
  then show ?case by (simp add: timed_def)
next
  case (due i s t l)
  then show ?case by (auto simp: timed_def intro!: due_elapsed[of s])
next
  case (stamp i t l s)
  then show ?case by (auto simp: timed_def nth_list_update systime_get_def)
next
  case (return i t l s)
  then show ?case by (simp add: timed_def)
qed

lemma sched_steps_timed: "sched_step\<^sup>*\<^sup>* c d \<Longrightarrow> timed c \<Longrightarrow> timed d"
  by (induction rule: rtranclp_induct) (auto intro: sched_step_timed)

text \<open>The executable loop takes steps of the relation.\<close>

definition keeps_table :: "('a sched_state_scheme \<Rightarrow> 'a sched_state_scheme outcome) \<Rightarrow> bool" where
  "keeps_table f \<longleftrightarrow> (\<forall>s s'. f s = Returns s' \<longrightarrow> task_table s' = task_table s)"

lemma elapse_any:
  "task_table s' = task_table s \<Longrightarrow> \<exists>k. sched_step (pc, t, l, s) (pc, t + k, l, s')"
  using sched_step.elapse[of s' s "unat (systime s' - systime s)"] by force

lemma sched_slot_steps:
  assumes "keeps_table preempt" and "\<And>f. keeps_table (call f)" and "i < MAX_NUM_TASKS"
    and "sched_slot preempt call i s = Returns s'"
  shows "\<exists>t' l'. sched_step\<^sup>*\<^sup>* (Test i, t, l, s) (Test (next_slot i), t', l', s')"
proof (cases "entry (task_table s ! i)")
  case None
  with assms show ?thesis
    by (auto simp: sched_slot_def intro!: r_into_rtranclp sched_step.skip)
next
  case (Some f)
  then obtain s1 where s1: "preempt s = Returns s1" "task_table s1 = task_table s"
    using assms by (auto simp: sched_slot_def keeps_table_def)
  obtain k where k: "sched_step (Test i, t, l, s) (Test i, t + k, l, s1)"
    using elapse_any[OF s1(2)] by blast
  show ?thesis
  proof (cases "systime_get s1 - last_run (task_table s1 ! i) \<ge> period (task_table s1 ! i)")
    case False
    then have "s' = s1" using assms(4) Some s1 by (simp add: sched_slot_def)
    moreover have "sched_step (Test i, t + k, l, s1) (Test (next_slot i), t + k, l, s1)"
      using assms(3) False Some s1(2) by (intro sched_step.not_due) auto
    ultimately show ?thesis using k by (blast intro: rtranclp_trans r_into_rtranclp)
  next
    case True
    then have d: "sched_step (Test i, t + k, l, s1) (Stamp i, t + k, l, s1)"
      using assms(3) Some s1(2) by (intro sched_step.due) auto
    obtain s2 where s2: "preempt s1 = Returns s2" "task_table s2 = task_table s1"
      using assms(1,4) Some s1 True by (auto simp: sched_slot_def keeps_table_def)
    define s3 where "s3 = s2\<lparr>task_table := (task_table s2)[i := (task_table s2 ! i)\<lparr>last_run := systime_get s2\<rparr>]\<rparr>"
    obtain k' where "sched_step (Stamp i, t + k, l, s1) (Stamp i, t + k + k', l, s2)"
      using elapse_any[OF s2(2)] by blast
    moreover have "sched_step (Stamp i, t + k + k', l, s2) (Run i, t + k + k', l(i := t + k + k'), s3)"
      unfolding s3_def by (rule sched_step.stamp)
    moreover have "call f s3 = Returns s'"
      using assms(4) Some s1 s2 True by (simp add: sched_slot_def s3_def)
    then have "task_table s' = task_table s3" using assms(2) by (simp add: keeps_table_def)
    then obtain k'' where "sched_step (Run i, t + k + k', l(i := t + k + k'), s3)
        (Run i, t + k + k' + k'', l(i := t + k + k'), s')"
      using elapse_any by blast
    ultimately show ?thesis
      using k d sched_step.return
      by (meson r_into_rtranclp rtranclp.rtrancl_into_rtrancl)
  qed
qed

lemma sched_slots_steps:
  assumes "keeps_table preempt" and "\<And>f. keeps_table (call f)"
  shows "sched_slots preempt call i s = Returns s' \<Longrightarrow>
    \<exists>t' l'. sched_step\<^sup>*\<^sup>* (Test (if i < MAX_NUM_TASKS then i else 0), t, l, s) (Test 0, t', l', s')"
proof (induction "MAX_NUM_TASKS - i" arbitrary: i s t l)
  case 0
  then show ?case by (auto simp: sched_slots.simps[of preempt call i])
next
  case (Suc n)
  then have i: "i < MAX_NUM_TASKS" by simp
  then obtain s1 where s1: "sched_slot preempt call i s = Returns s1"
    "sched_slots preempt call (Suc i) s1 = Returns s'"
    using Suc.prems by (auto simp: sched_slots.simps[of preempt call i])
  obtain t1 l1 where "sched_step\<^sup>*\<^sup>* (Test i, t, l, s) (Test (next_slot i), t1, l1, s1)"
    using sched_slot_steps[where t = t and l = l, OF assms i s1(1)] by blast
  moreover have n: "n = MAX_NUM_TASKS - Suc i" using Suc.hyps(2) by simp
  obtain t' l' where "sched_step\<^sup>*\<^sup>* (Test (next_slot i), t1, l1, s1) (Test 0, t', l', s')"
    using Suc.hyps(1)[OF n s1(2), of t1 l1] unfolding next_slot_def by blast
  ultimately show ?case using i by (auto intro: rtranclp_trans)
qed

lemma sched_run_steps:
  assumes "keeps_table preempt" and "\<And>f. keeps_table (call f)"
  shows "sched_run preempt call n s = Returns s' \<Longrightarrow>
    \<exists>t' l'. sched_step\<^sup>*\<^sup>* (Test 0, t, l, s) (Test 0, t', l', s')"
proof (induction n arbitrary: s t l)
  case 0
  then show ?case by auto
next
  case (Suc n)
  then obtain s1 where s1: "sched_slots preempt call 0 s = Returns s1"
    "sched_run preempt call n s1 = Returns s'" by auto
  obtain t1 l1 where "sched_step\<^sup>*\<^sup>* (Test 0, t, l, s) (Test 0, t1, l1, s1)"
    using sched_slots_steps[where t = t and l = l, OF assms s1(1)] by (auto simp: MAX_NUM_TASKS_def)
  moreover obtain t' l' where "sched_step\<^sup>*\<^sup>* (Test 0, t1, l1, s1) (Test 0, t', l', s')"
    using Suc.IH[OF s1(2)] by blast
  ultimately show ?case by (auto intro: rtranclp_trans)
qed

section \<open>Properties\<close>

definition sched_state0 :: sched_state where
  "sched_state0 = \<lparr>bus = [], interrupts_enabled = False, gic_dregs = 0, gic_ifregs = 0,
     callbacks = replicate 1024 None, systime = 0, ptimer_regs = 0,
     task_table = replicate 10 null_task, table_idx = 0\<rparr>"

lemma sched_state0_inv [simp]: "sched_inv sched_state0" "added sched_state0 = []"
  by (simp_all add: sched_inv_def sched_state0_def MAX_NUM_TASKS_def added_def tasks_def)

text \<open>
  C8. Adding a task keeps the table invariant. While fewer than ten tasks are
  in the table it appends the entry and the period and returns \<^verbatim>\<open>SCHED_OK\<close>; a
  full table is left as it is and \<^verbatim>\<open>SCHED_TOO_MANY_TASKS\<close> returned.
\<close>

theorem sched_add_task_appends:
  assumes "sched_inv s"
  shows "sched_inv (snd (sched_add_task f p s)) \<and>
    (if length (added s) < 10
     then fst (sched_add_task f p s) = SCHED_OK \<and>
       added (snd (sched_add_task f p s)) = added s @ [(f, p)]
     else sched_add_task f p s = (SCHED_TOO_MANY_TASKS, s))"
  using sched_tab.add_inv[OF assms, of "(f, p)"] sched_tab.add_ok[OF assms, of "(f, p)"]
    sched_tab.add_elems[OF assms, of "(f, p)"] sched_tab.add_full[OF assms, of "(f, p)"]
  by (auto simp: add_pair_def MAX_NUM_TASKS_def)

theorem sched_add_task_appends_witness:
  "added (snd (sched_add_task (Some task0_fn) 5000 sched_state0)) = [(Some task0_fn, 5000)]"
  using sched_add_task_appends[OF sched_state0_inv(1), of "Some task0_fn" 5000] by simp

text \<open>
  C1. A task is never started early. In every run of the loop, with timer
  interrupts between any two steps and for any length of time (wrap-arounds of
  the 32-bit counter included), when a task is about to be started at least its
  period has truly passed since its previous start (since reset, for the first).
\<close>

theorem sched_never_early:
  assumes "systime s0 = of_nat t0" and "length (task_table s0) = 10"
    and "\<forall>i < 10. last_run (task_table s0 ! i) = 0"
    and "sched_step\<^sup>*\<^sup>* (Test 0, t0, \<lambda>_. 0, s0) (Stamp i, t, l, s)"
  shows "l i + unat (period (task_table s ! i)) \<le> t"
proof -
  have "timed (Test 0, t0, \<lambda>_. 0, s0)"
    using assms(1-3) by (simp add: timed_def MAX_NUM_TASKS_def)
  from sched_steps_timed[OF assms(4) this] show ?thesis by (simp add: timed_def)
qed

theorem sched_never_early_witness:
  "\<exists>t l s. sched_step\<^sup>*\<^sup>* (Test 0, 0, \<lambda>_. 0, snd (sched_add_task (Some task0_fn) 5000 sched_state0)) (Stamp 0, t, l, s) \<and>
    l 0 + 5000 \<le> t"
proof -
  define s0 where "s0 = snd (sched_add_task (Some task0_fn) 5000 sched_state0)"
  define s1 where "s1 = s0\<lparr>systime := 5000\<rparr>"
  have tab: "task_table s0 = \<lparr>entry = Some task0_fn, period = 5000, last_run = 0\<rparr> # replicate 9 null_task"
    by (simp add: s0_def sched_add_task_def sched_state0_def MAX_NUM_TASKS_def numeral_eq_Suc)
  have sys: "systime s0 = of_nat 0" by (simp add: s0_def sched_add_task_def sched_state0_def Let_def)
  have "sched_step (Test 0, 0, \<lambda>_. 0, s0) (Test 0, 0 + 5000, \<lambda>_. 0, s1)"
    using sys by (intro sched_step.elapse) (simp_all add: s1_def)
  moreover have "sched_step (Test 0, 0 + 5000, \<lambda>_. 0, s1) (Stamp 0, 0 + 5000, \<lambda>_. 0, s1)"
    by (intro sched_step.due) (simp_all add: s1_def tab MAX_NUM_TASKS_def systime_get_def)
  ultimately have run: "sched_step\<^sup>*\<^sup>* (Test 0, 0, \<lambda>_. 0, s0) (Stamp 0, 0 + 5000, \<lambda>_. 0, s1)"
    by auto
  have lr: "\<forall>i < 10. last_run (task_table s0 ! i) = 0"
    by (auto simp: tab nth_Cons' null_task_def)
  have len: "length (task_table s0) = 10" by (simp add: tab)
  from run sched_never_early[OF sys len lr run] tab show ?thesis
    unfolding s0_def[symmetric] by (intro exI conjI) (assumption, simp add: s1_def)
qed

text \<open>
  C7. The test for one slot, in true time: when fewer than \<open>2 ^ 32\<close> timer
  interrupts have passed since the last start, the task is started exactly when
  at least its period has passed, whether or not the counter has wrapped; the
  start is recorded with the time read after the test, before the task runs.
\<close>

theorem sched_slot_starts_when_due:
  assumes "entry (task_table s ! i) = Some f" and "preempt s = Returns s1"
    and "task_table s1 = task_table s" and "systime s1 = of_nat t"
    and "last_run (task_table s ! i) = of_nat t0" and "t0 \<le> t" and "t < t0 + 2 ^ 32"
  shows "sched_slot preempt call i s =
    (if t0 + unat (period (task_table s ! i)) \<le> t
     then bindO (preempt s1) (\<lambda>s2. call f (s2\<lparr>task_table := (task_table s2)
       [i := (task_table s2 ! i)\<lparr>last_run := systime s2\<rparr>]\<rparr>))
     else Returns s1)"
proof -
  have "unat (systime_get s1 - last_run (task_table s ! i)) = t - t0"
    unfolding assms(5) by (rule systime_elapsed[OF assms(4,7,6)])
  then have "period (task_table s ! i) \<le> systime_get s1 - last_run (task_table s ! i) \<longleftrightarrow>
      t0 + unat (period (task_table s ! i)) \<le> t"
    using assms(6) by (auto simp: word_le_nat_alt)
  then show ?thesis using assms(1-3) by (simp add: sched_slot_def systime_get_def)
qed

theorem sched_slot_starts_when_due_witness:
  "sched_slot (\<lambda>s. Returns (s\<lparr>systime := 2000\<rparr>)) (\<lambda>f. Returns) 0
     (sched_state0\<lparr>task_table := \<lparr>entry = Some task1_fn, period = 2000, last_run = 0xFFFFFF00\<rparr> # replicate 9 null_task,
        systime := 1000\<rparr>) =
   Returns (sched_state0\<lparr>task_table := \<lparr>entry = Some task1_fn, period = 2000, last_run = 2000\<rparr> # replicate 9 null_task,
        systime := 2000\<rparr>)"
proof -
  let ?s = "sched_state0\<lparr>task_table := \<lparr>entry = Some task1_fn, period = 2000, last_run = 0xFFFFFF00\<rparr> # replicate 9 null_task,
        systime := 1000\<rparr>"
  show ?thesis
    using sched_slot_starts_when_due[of ?s 0 task1_fn "\<lambda>s. Returns (s\<lparr>systime := 2000\<rparr>)"
        "?s\<lparr>systime := 2000\<rparr>" "0x100000000 + 2000" "0xFFFFFF00" "\<lambda>f. Returns"]
    by simp
qed



end
