(* ===== verification/Tasks.thy ===== *)
theory Tasks
  imports Uart Sched
begin

unbundle bit_operations_syntax

text \<open>
  The tasks of 08_scheduler (\<^verbatim>\<open>tasks.c\<close>). As in the scheduler, \<open>preempt\<close> runs
  the interrupts that arrive before a read of the system time.
\<close>

section \<open>Operations\<close>

text \<open>
  \<^verbatim>\<open>while (limit > systime_get());\<close> as a loop over the reads; \<^const>\<open>None\<close> is the
  loop that never ends.
\<close>

partial_function (option) busy_wait ::
  "('a sched_state_scheme \<Rightarrow> 'a sched_state_scheme outcome) \<Rightarrow> u32 \<Rightarrow>
   'a sched_state_scheme \<Rightarrow> 'a sched_state_scheme outcome option" where
  "busy_wait preempt limit s =
    (if \<not> is_Returns (preempt s) then Some (preempt s)
     else if limit > systime_get (ret (preempt s)) then busy_wait preempt limit (ret (preempt s))
     else Some (preempt s))"

definition timed_task ::
  "string \<Rightarrow> string \<Rightarrow> hardware \<Rightarrow> ('a sched_state_scheme \<Rightarrow> 'a sched_state_scheme outcome) \<Rightarrow>
   'a sched_state_scheme \<Rightarrow> 'a sched_state_scheme outcome" where
  "timed_task entering exiting hw preempt s =
    bindO (preempt s) (\<lambda>s.
    let start = systime_get s
    in bindO (uart_write hw entering s) (\<lambda>s.
       bindO (uart_write_uint hw start s) (\<lambda>s.
       bindO (uart_write hw [CHR 0x0A] s) (\<lambda>s.
       bindO (bindO (of_option (busy_wait preempt (start + 1000) s)) (\<lambda>r. r)) (\<lambda>s.
       uart_write hw exiting s)))))"

definition task0 where
  "task0 = timed_task ''Entering task 0... systime '' (''Exiting task 0...'' @ [CHR 0x0A])"

definition task1 where
  "task1 = timed_task ''Entering task 1... systime '' (''Exiting task 1...'' @ [CHR 0x0A])"

definition task2 ::
  "hardware \<Rightarrow> ('a sched_state_scheme \<Rightarrow> 'a sched_state_scheme outcome) \<Rightarrow>
   'a sched_state_scheme \<Rightarrow> 'a sched_state_scheme outcome" where
  "task2 hw preempt s =
    bindO (preempt s) (\<lambda>s.
    let start = systime_get s
    in bindO (uart_write hw ''Entering task 2... systime '' s) (\<lambda>s.
       bindO (uart_write_uint hw start s) (\<lambda>s.
       bindO (uart_write hw [CHR 0x0A] s) (\<lambda>s. Hangs))))"

section \<open>Lemmas\<close>

lemma busy_wait_step:
  "preempt s = Returns s1 \<Longrightarrow> busy_wait preempt limit s =
    (if limit > systime_get s1 then busy_wait preempt limit s1 else Some (Returns s1))"
  by (subst busy_wait.simps) simp

lemma busy_wait_exit:
  assumes ret: "busy_wait preempt limit s = Some r"
  shows "\<forall>s'. r = Returns s' \<longrightarrow> limit \<le> systime_get s'"
proof (rule busy_wait.raw_induct
    [where P = "\<lambda>preempt limit s r. \<forall>s'. r = Returns s' \<longrightarrow> limit \<le> systime_get s'", OF _ ret])
  fix f :: "('a sched_state_scheme \<Rightarrow> 'a sched_state_scheme outcome) \<Rightarrow> u32 \<Rightarrow>
      'a sched_state_scheme \<Rightarrow> 'a sched_state_scheme outcome option"
    and preempt limit s r
  assume IH: "\<And>preempt limit s r. f preempt limit s = Some r \<Longrightarrow>
      \<forall>s'. r = Returns s' \<longrightarrow> limit \<le> systime_get s'"
    and eq: "(if \<not> is_Returns (preempt s) then Some (preempt s)
     else if limit > systime_get (ret (preempt s)) then f preempt limit (ret (preempt s))
     else Some (preempt s)) = Some r"
  show "\<forall>s'. r = Returns s' \<longrightarrow> limit \<le> systime_get s'"
    using eq IH[of preempt limit "ret (preempt s)" r] by (auto split: if_splits)
qed

text \<open>
  Interrupts keep coming while \<open>I\<close> holds: a read of the time sees at most \<open>b\<close>
  new ticks, and from every state some later read sees one.
\<close>

definition ticking ::
  "('a sched_state_scheme \<Rightarrow> bool) \<Rightarrow> nat \<Rightarrow> ('a sched_state_scheme \<Rightarrow> 'a sched_state_scheme outcome) \<Rightarrow> bool" where
  "ticking I b preempt \<longleftrightarrow>
    (\<forall>s. I s \<longrightarrow> (\<exists>s' k. preempt s = Returns s' \<and> I s' \<and> systime s' = systime s + of_nat k \<and> k \<le> b)) \<and>
    (\<forall>s. I s \<longrightarrow> (\<exists>n. systime (((\<lambda>s. ret (preempt s)) ^^ n) s) \<noteq> systime s))"

text \<open>The condition does not depend on the bus.\<close>

definition bus_stable :: "('a sched_state_scheme \<Rightarrow> bool) \<Rightarrow> bool" where
  "bus_stable I \<longleftrightarrow> (\<forall>s ws s'. did s ws s' \<longrightarrow> I s \<longrightarrow> I s')"

lemma ticking_step:
  assumes "ticking I b preempt" and "I s" and "unat (systime s) + b < 2 ^ 32"
  obtains s' k where "preempt s = Returns s'" and "I s'"
    and "unat (systime s') = unat (systime s) + k" and "k \<le> b"
proof -
  obtain s' k where s': "preempt s = Returns s'" "I s'" "systime s' = systime s + of_nat k" "k \<le> b"
    using assms(1,2) unfolding ticking_def by blast
  have "unat (systime s') = unat (systime s) + k"
    using s' assms(3) by (simp add: unat_plus_mod unat_of_nat)
  with s' that show thesis by simp
qed

lemma busy_wait_progress:
  assumes "ticking I b preempt"
  shows "systime (((\<lambda>s. ret (preempt s)) ^^ n) s) \<noteq> systime s \<Longrightarrow> I s \<Longrightarrow> systime s < limit \<Longrightarrow>
    unat (systime s) + b < 2 ^ 32 \<Longrightarrow>
    \<exists>s'. I s' \<and> unat (systime s) < unat (systime s') \<and> unat (systime s') \<le> unat (systime s) + b \<and>
      busy_wait preempt limit s =
        (if limit > systime s' then busy_wait preempt limit s' else Some (Returns s'))"
proof (induction n arbitrary: s)
  case (Suc n)
  obtain s1 k where s1: "preempt s = Returns s1" "unat (systime s1) = unat (systime s) + k" "k \<le> b" "I s1"
    using ticking_step[OF assms Suc.prems(2,4)] by blast
  show ?case
  proof (cases "k = 0")
    case True
    then have eq: "systime s1 = systime s" using s1(2) by (simp add: word_unat_eq_iff)
    moreover have "((\<lambda>s. ret (preempt s)) ^^ Suc n) s = ((\<lambda>s. ret (preempt s)) ^^ n) s1"
      unfolding funpow_Suc_right using s1(1) by simp
    ultimately have "\<exists>s'. I s' \<and> unat (systime s) < unat (systime s') \<and>
        unat (systime s') \<le> unat (systime s) + b \<and> busy_wait preempt limit s1 =
        (if limit > systime s' then busy_wait preempt limit s' else Some (Returns s'))"
      using Suc.prems Suc.IH[of s1] s1(4) by metis
    moreover have "busy_wait preempt limit s = busy_wait preempt limit s1"
      using s1(1) Suc.prems(3) eq by (simp add: busy_wait_step systime_get_def)
    ultimately show ?thesis by simp
  next
    case False
    with s1 show ?thesis by (intro exI[of _ s1]) (simp add: busy_wait_step systime_get_def)
  qed
qed simp

lemma busy_wait_returns:
  assumes "ticking I b preempt" and "unat limit + b < 2 ^ 32"
  shows "I s \<Longrightarrow> systime s < limit \<Longrightarrow>
    \<exists>s'. busy_wait preempt limit s = Some (Returns s') \<and> I s' \<and> limit \<le> systime s' \<and>
      unat (systime s') < unat limit + b"
proof (induction "unat limit - unat (systime s)" arbitrary: s rule: less_induct)
  case less
  then have lt: "unat (systime s) < unat limit" by (simp add: word_less_nat_alt)
  obtain n where n: "systime (((\<lambda>s. ret (preempt s)) ^^ n) s) \<noteq> systime s"
    using assms(1) less.prems(1) unfolding ticking_def by blast
  obtain s1 where s1: "I s1" "unat (systime s) < unat (systime s1)"
      "unat (systime s1) \<le> unat (systime s) + b" "busy_wait preempt limit s =
      (if limit > systime s1 then busy_wait preempt limit s1 else Some (Returns s1))"
    using busy_wait_progress[OF assms(1) n less.prems] lt assms(2) by auto
  show ?case
  proof (cases "systime s1 < limit")
    case False
    then show ?thesis using s1 lt by auto
  next
    case True
    have "unat limit - unat (systime s1) < unat limit - unat (systime s)" using s1(2) lt by simp
    from less.hyps[OF this s1(1) True] True s1(4) show ?thesis by simp
  qed
qed

lemma timed_task_returns:
  assumes "tx_drains hw" and "ticking I b preempt" and "bus_stable I" and "b \<le> 1000"
    and "preempt s = Returns s1" and "I s1" and small: "unat (systime s1) < 10 ^ 8"
  shows "\<exists>s'. timed_task ent ext hw preempt s = Returns s' \<and> I s' \<and>
    unat (systime s1) + 1000 \<le> unat (systime s') \<and> unat (systime s') < unat (systime s1) + 1000 + b"
proof -
  have keep: "systime s' = systime s \<and> I s'" if "did s ws s'" and "I s" for s ws s'
    using that assms(3) did_systime[OF that(1)] unfolding bus_stable_def by blast
  obtain s2 where s2: "uart_write hw ent s1 = Returns s2" "systime s2 = systime s1 \<and> I s2"
    using uart_write_returns[OF assms(1), of ent s1] keep assms(6) by blast
  obtain s3 where s3: "uart_write_uint hw (systime s1) s2 = Returns s3" "systime s3 = systime s1 \<and> I s3"
    using uart_write_uint_returns[OF assms(1) small, of s2] keep s2(2) by metis
  obtain s4 where s4: "uart_write hw [CHR 0x0A] s3 = Returns s4" "systime s4 = systime s1 \<and> I s4"
    using uart_write_returns[OF assms(1), of "[CHR 0x0A]" s3] keep s3(2) by metis
  have lim: "unat (systime s1 + 1000) = unat (systime s1) + 1000"
    using small by (simp add: unat_plus_mod)
  have "systime s4 < systime s1 + 1000" using lim s4(2) by (simp add: word_less_nat_alt)
  then obtain s5 where s5: "busy_wait preempt (systime s1 + 1000) s4 = Some (Returns s5)" "I s5"
    "systime s1 + 1000 \<le> systime s5" "unat (systime s5) < unat (systime s1 + 1000) + b"
    using busy_wait_returns[OF assms(2), of "systime s1 + 1000" s4] lim small s4(2) assms(4) by auto
  obtain s6 where s6: "uart_write hw ext s5 = Returns s6" "systime s6 = systime s5 \<and> I s6"
    using uart_write_returns[OF assms(1), of ext s5] keep s5(2) by metis
  have "unat (systime s1) + 1000 \<le> unat (systime s6)" "unat (systime s6) < unat (systime s1) + 1000 + b"
    using s5(3,4) s6(2) lim by (simp_all add: word_le_nat_alt)
  moreover have "timed_task ent ext hw preempt s = Returns s6"
    using assms(5) s2(1) s3(1) s4(1) s5(1) s6(1)
    by (simp add: timed_task_def systime_get_def Let_def)
  ultimately show ?thesis using s6(2) by blast
qed

lemma did_sched_frame:
  assumes "did s ws s'"
  shows "task_table s' = task_table s" and "table_idx s' = table_idx s" and "ptimer_regs s' = ptimer_regs s"
    and "sched_state.more s' = sched_state.more s"
  using did_irq_frame(4)[OF assms] by (cases s, cases s', simp)+

section \<open>Properties\<close>

text \<open>
  C10. Once the system time has nine digits (after \<open>10 ^ 8\<close> ms, not quite 28
  hours), starting either task writes beyond its digit buffer.
\<close>

theorem timed_tasks_overflow_after_a_day:
  assumes "tx_drains hw" and "preempt s = Returns s1" and "10 ^ 8 \<le> unat (systime s1)"
  shows "task0 hw preempt s = UB \<and> task1 hw preempt s = UB"
proof -
  have "timed_task ent ext hw preempt s = UB" for ent ext
  proof -
    obtain s2 where "uart_write hw ent s1 = Returns s2" using uart_write_returns[OF assms(1)] by blast
    moreover have "uart_write_uint hw (systime_get s1) s2 = UB"
      using assms(3) uint_buf_overflow[of "[]" "systime s1"]
      by (simp add: uart_write_uint_def systime_get_def)
    ultimately show ?thesis using assms(2) by (simp add: timed_task_def Let_def)
  qed
  then show ?thesis by (simp add: task0_def task1_def)
qed

theorem timed_tasks_overflow_after_a_day_witness:
  "task0 idle_hw Returns (sched_state0\<lparr>systime := 100000000\<rparr>) = UB"
  using timed_tasks_overflow_after_a_day
    [of idle_hw Returns "sched_state0\<lparr>systime := 100000000\<rparr>" "sched_state0\<lparr>systime := 100000000\<rparr>"]
  by (simp add: tx_drains_def)



end
