(* ===== verification/Cstart.thy ===== *)
theory Cstart
  imports Tasks
begin

unbundle bit_operations_syntax

text \<open>
  The whole program of 08_scheduler (\<^verbatim>\<open>cstart.c\<close>): the interrupt handler with the
  service routines it finds, the tasks the scheduler calls, and \<^verbatim>\<open>main\<close>.
  \<open>polls\<close> counts the points of the program at which interrupts may be taken;
  \<open>arr n\<close> is the number of interrupts taken at point \<open>n\<close>, an arbitrary function.
\<close>

section \<open>State and operations\<close>

record sys_state = sched_state +
  polls :: nat

text \<open>A function pointer called by the interrupt handler, that is with interrupts masked.\<close>

definition call_isr :: "hardware \<Rightarrow> fn_ptr \<Rightarrow> sys_state \<Rightarrow> sys_state outcome" where
  "call_isr hw f s =
    (case f of uart_isr_fn \<Rightarrow> uart_isr hw s
     | ptimer_isr_fn \<Rightarrow> Returns (ptimer_isr s)
     | task0_fn \<Rightarrow> task0 hw Returns s
     | task1_fn \<Rightarrow> task1 hw Returns s
     | task2_fn \<Rightarrow> task2 hw Returns s)"

text \<open>\<open>n\<close> interrupts one after the other; none is taken while they are masked.\<close>

primrec interrupts :: "hardware \<Rightarrow> nat \<Rightarrow> sys_state \<Rightarrow> sys_state outcome" where
  "interrupts hw 0 s = Returns s"
| "interrupts hw (Suc n) s =
    (if interrupts_enabled s then bindO (irq_handler hw (call_isr hw) s) (interrupts hw n)
     else Returns s)"

definition preempt :: "hardware \<Rightarrow> (nat \<Rightarrow> nat) \<Rightarrow> sys_state \<Rightarrow> sys_state outcome" where
  "preempt hw arr s = interrupts hw (arr (polls s)) (s\<lparr>polls := Suc (polls s)\<rparr>)"

definition call_task :: "hardware \<Rightarrow> (nat \<Rightarrow> nat) \<Rightarrow> fn_ptr \<Rightarrow> sys_state \<Rightarrow> sys_state outcome" where
  "call_task hw arr f s =
    (case f of task0_fn \<Rightarrow> task0 hw (preempt hw arr) s
     | task1_fn \<Rightarrow> task1 hw (preempt hw arr) s
     | task2_fn \<Rightarrow> task2 hw (preempt hw arr) s
     | uart_isr_fn \<Rightarrow> uart_isr hw s
     | ptimer_isr_fn \<Rightarrow> Returns (ptimer_isr s))"

definition main_config :: uart_config where
  "main_config = \<lparr>data_bits = 8, stop_bits = 1, parity = False, baudrate = 9600\<rparr>"

text \<open>
  \<^verbatim>\<open>main\<close> up to the call of \<^verbatim>\<open>sched_run\<close>. Once interrupts are enabled they are
  taken between the statements.
\<close>

definition main_init :: "hardware \<Rightarrow> (nat \<Rightarrow> nat) \<Rightarrow> sys_state \<Rightarrow> sys_state outcome" where
  "main_init hw arr s =
    bindO (uart_configure hw main_config s) (\<lambda>(_, s).
    bindO (uart_write hw (''Welcome to Chapter 8, Scheduling!'' @ [CHR 0x0A]) s) (\<lambda>s.
    let s = gic_init hw s;
        s = gic_enable_interrupt hw UART0_INTERRUPT s;
        s = gic_enable_interrupt hw PTIMER_INTERRUPT s;
        s = cpu_enable_interrupts s
    in bindO (preempt hw arr s) (\<lambda>s.
       bindO (ptimer_init hw 1 s) (\<lambda>(e, s).
       bindO (preempt hw arr s) (\<lambda>s.
       bindO (if e \<noteq> PTIMER_OK
              then uart_write hw (''Failed to initialize CPU timer!'' @ [CHR 0x0A]) s
              else Returns s) (\<lambda>s.
       let s = snd (sched_add_task (Some task0_fn) 5000 s)
       in bindO (preempt hw arr s) (\<lambda>s.
          Returns (snd (sched_add_task (Some task1_fn) 2000 s)))))))))"

definition main :: "hardware \<Rightarrow> (nat \<Rightarrow> nat) \<Rightarrow> nat \<Rightarrow> sys_state \<Rightarrow> sys_state outcome" where
  "main hw arr n s = bindO (main_init hw arr s) (sched_run (preempt hw arr) (call_task hw arr) n)"

text \<open>The state at the call of \<^verbatim>\<open>main\<close>: static storage is zero, interrupts are masked.\<close>

definition sys_state0 :: sys_state where
  "sys_state0 = \<lparr>bus = [], interrupts_enabled = False, gic_dregs = 0, gic_ifregs = 0,
     callbacks = replicate 1024 None, systime = 0, ptimer_regs = 0,
     task_table = replicate 10 null_task, table_idx = 0, polls = 0\<rparr>"

section \<open>What interrupts change\<close>

text \<open>\<open>quiet s s'\<close>: the same state up to the bus, the time and the ghost counter.\<close>

definition quiet :: "sys_state \<Rightarrow> sys_state \<Rightarrow> bool" where
  "quiet s s' \<longleftrightarrow> (\<exists>b t p. s' = s\<lparr>bus := b, systime := t, polls := p\<rparr>)"

lemma quiet_refl [simp, intro]: "quiet s s"
  unfolding quiet_def by (intro exI[of _ "bus s"] exI[of _ "systime s"] exI[of _ "polls s"]) simp

lemma quiet_trans [trans]: "quiet s t \<Longrightarrow> quiet t u \<Longrightarrow> quiet s u"
  unfolding quiet_def by (elim exE) (simp, metis)

lemma did_quiet:
  assumes "did s ws s'"
  shows "quiet s s'"
  unfolding quiet_def using did_sched_frame[OF assms] did_irq_frame[OF assms] did_systime[OF assms] assms
  by (intro exI[of _ "bus s'"] exI[of _ "systime s'"] exI[of _ "polls s'"])
    (cases s, cases s', simp add: did_def)

lemma quiet_fields:
  assumes "quiet s s'"
  shows "callbacks s' = callbacks s" "interrupts_enabled s' = interrupts_enabled s"
    "gic_dregs s' = gic_dregs s" "gic_ifregs s' = gic_ifregs s" "ptimer_regs s' = ptimer_regs s"
    "task_table s' = task_table s" "table_idx s' = table_idx s"
  using assms by (auto simp: quiet_def)

lemma ptimer_isr_quiet: "quiet s (ptimer_isr s)"
  unfolding quiet_def ptimer_isr_def systime_tick_def WRITE32_def Let_def
  by (intro exI[of _ "Wr (preg (ptimer_regs s) ''ISR'') ISR_CLEAR # bus s"] exI[of _ "systime s + 1"]
      exI[of _ "polls s"]) simp

text \<open>Only the two service routines are ever registered.\<close>

definition isrs_ok :: "sys_state \<Rightarrow> bool" where
  "isrs_ok s \<longleftrightarrow> irq_inv s \<and> (\<forall>n. callback n s \<in> {None, Some uart_isr_fn, Some ptimer_isr_fn})"

lemma isrs_ok_quiet: "quiet s s' \<Longrightarrow> isrs_ok s \<Longrightarrow> isrs_ok s'"
  using quiet_fields(1) callback_cong[of s' s] by (simp add: isrs_ok_def irq_inv_def)

definition acked :: "hardware \<Rightarrow> sys_state \<Rightarrow> u16" where
  "acked hw s = fst (gic_acknowledge_interrupt hw s)"

lemma ucast_id: "ucast (ucast (v AND 0x3FF :: u32) :: u16) AND 0x3FF = (v AND 0x3FF :: u32)"
  by (rule bit_word_eqI) (auto simp: bit_simps numeral_eq_Suc less_Suc_eq)

lemma irq_handler_cases:
  assumes "tx_drains hw" and "isrs_ok s"
  obtains s' ws where "irq_handler hw (call_isr hw) s = Returns s'" and "quiet s s'"
    and "writes (bus s') = writes (bus s) @ ws @
      [(ifreg (gic_ifregs s) ''CEOIR'', ucast (acked hw s) AND CEOIR_ID_MASK)]"
    and "systime s' = (if callback (acked hw s) s = Some ptimer_isr_fn then systime s + 1 else systime s)"
    and "if callback (acked hw s) s = Some ptimer_isr_fn then ws = [(preg (ptimer_regs s) ''ISR'', 1)]
      else \<forall>w \<in> set ws. fst w \<in> {uart_reg ''DR'', uart_reg ''RSRECR'', uart_reg ''ICR''}"
proof -
  define t where "t = snd (gic_acknowledge_interrupt hw s)"
  have ack: "gic_acknowledge_interrupt hw s = (acked hw s, t)" by (simp add: acked_def t_def)
  have t: "did s [] t"
    by (simp add: t_def gic_acknowledge_interrupt_def split_beta)
  have end_eq: "systime (gic_end_interrupt n u) = systime u" "quiet u (gic_end_interrupt n u)"
    "writes (bus (gic_end_interrupt n u)) =
      writes (bus u) @ [(ifreg (gic_ifregs u) ''CEOIR'', ucast n AND CEOIR_ID_MASK)]" for n and u :: sys_state
    using did_systime[OF did_WRITE32] did_quiet[OF did_WRITE32]
    by (simp_all add: gic_end_interrupt_def did_def)
  have cb: "callback (acked hw s) t = callback (acked hw s) s" by (rule did_callback[OF t])
  have run: "irq_handler hw (call_isr hw) s = Returns (gic_end_interrupt (acked hw s) u)"
    if "(case callback (acked hw s) s of Some f \<Rightarrow> call_isr hw f t | None \<Rightarrow> Returns t) = Returns u" for u
    using that by (simp add: irq_handler_def ack cb)
  have "callback (acked hw s) s \<in> {None, Some uart_isr_fn, Some ptimer_isr_fn}"
    using assms(2) by (simp add: isrs_ok_def)
  then consider "callback (acked hw s) s = Some ptimer_isr_fn" | "callback (acked hw s) s = Some uart_isr_fn"
    | "callback (acked hw s) s = None" by auto
  then show thesis
  proof cases
    case 1
    have q: "quiet s (ptimer_isr t)" using did_quiet[OF t] ptimer_isr_quiet quiet_trans by blast
    have "writes (bus (ptimer_isr t)) = writes (bus s) @ [(preg (ptimer_regs s) ''ISR'', 1)]"
      using did_writes[OF t] did_sched_frame(3)[OF t] by simp
    with 1 q show thesis
      using that[OF run quiet_trans[OF q end_eq(2)], of "[(preg (ptimer_regs s) ''ISR'', 1)]"]
        did_systime[OF t] quiet_fields(4)[OF q] by (simp add: call_isr_def end_eq)
  next
    case 2
    obtain u ws where u: "uart_isr hw t = Returns u" "did t ws u"
      "\<forall>w \<in> set ws. fst w \<in> {uart_reg ''DR'', uart_reg ''RSRECR'', uart_reg ''ICR''}"
      using uart_isr_returns[OF assms(1)] by blast
    have d: "did s ws u" using did_trans[OF t u(2)] by simp
    with 2 u show thesis
      using that[OF run quiet_trans[OF did_quiet[OF d] end_eq(2)], of ws]
        did_systime[OF d] did_irq_frame(3)[OF d] did_writes[OF d] by (simp add: call_isr_def end_eq)
  next
    case 3
    with t show thesis
      using that[OF run quiet_trans[OF did_quiet[OF t] end_eq(2)], of "[]"]
        did_systime[OF t] did_irq_frame(3)[OF t] did_writes[OF t] by (simp add: end_eq)
  qed
qed


lemma interrupts_return:
  assumes "tx_drains hw"
  shows "isrs_ok s \<Longrightarrow> \<exists>s' k. interrupts hw n s = Returns s' \<and> quiet s s' \<and> k \<le> n \<and>
    systime s' = systime s + of_nat k"
proof (induction n arbitrary: s)
  case 0
  show ?case by (intro exI[of _ s] exI[of _ 0]) simp
next
  case (Suc n)
  obtain s1 where s1: "irq_handler hw (call_isr hw) s = Returns s1" "quiet s s1"
    "systime s1 = (if callback (acked hw s) s = Some ptimer_isr_fn then systime s + 1 else systime s)"
    using irq_handler_cases[OF assms Suc.prems] by blast
  define j :: nat where "j = (if callback (acked hw s) s = Some ptimer_isr_fn then 1 else 0)"
  have j: "j \<le> 1" "systime s1 = systime s + of_nat j" using s1(3) by (simp_all add: j_def)
  obtain s' k where s': "interrupts hw n s1 = Returns s'" "quiet s1 s'" "k \<le> n"
    "systime s' = systime s1 + of_nat k"
    using Suc.IH[OF isrs_ok_quiet[OF s1(2) Suc.prems]] by blast
  have jk: "j + k \<le> Suc n" using j(1) s'(3) by simp
  have "interrupts hw (Suc n) s = Returns s \<or> interrupts hw (Suc n) s = Returns s'"
    using s1(1) s'(1) by simp
  then show ?case
  proof
    assume "interrupts hw (Suc n) s = Returns s"
    then show ?thesis by (intro exI[of _ s] exI[of _ 0]) simp
  next
    assume "interrupts hw (Suc n) s = Returns s'"
    with jk s1(2) j(2) s'(2,4) show ?thesis
      by (intro exI[of _ s'] exI[of _ "j + k"]) (auto intro: quiet_trans)
  qed
qed

lemma preempt_returns:
  assumes "tx_drains hw" and "isrs_ok s"
  shows "\<exists>s' k. preempt hw arr s = Returns s' \<and> quiet s s' \<and> k \<le> arr (polls s) \<and>
    systime s' = systime s + of_nat k"
proof -
  have q: "quiet s (s\<lparr>polls := Suc (polls s)\<rparr>)"
    unfolding quiet_def by (intro exI[of _ "bus s"] exI[of _ "systime s"] exI) simp
  from interrupts_return[OF assms(1) isrs_ok_quiet[OF q assms(2)], of "arr (polls s)"] show ?thesis
    unfolding preempt_def using quiet_trans[OF q] by auto
qed

lemma preempt_table:
  assumes "tx_drains hw" and "isrs_ok s" and "preempt hw arr s = Returns s'"
  shows "task_table s' = task_table s"
proof -
  have "quiet s s'" using preempt_returns[OF assms(1,2), of arr] assms(3) by force
  then show ?thesis by (rule quiet_fields(6))
qed

section \<open>The running system\<close>

definition sys_inv :: "hardware \<Rightarrow> sys_state \<Rightarrow> bool" where
  "sys_inv hw s \<longleftrightarrow> interrupts_enabled s \<and> irq_inv s \<and>
     gic_ifregs s = GIC_IFACE_BASE hw \<and> ptimer_regs s = PTIMER_BASE hw \<and>
     (\<forall>n. callback n s = (if n = PTIMER_INTERRUPT then Some ptimer_isr_fn
        else if n = UART0_INTERRUPT then Some uart_isr_fn else None)) \<and>
     sched_inv s \<and> (\<forall>t \<in> set (task_table s). entry t \<in> {None, Some task0_fn, Some task1_fn})"

lemma sys_inv_isrs_ok: "sys_inv hw s \<Longrightarrow> isrs_ok s"
  by (simp add: sys_inv_def isrs_ok_def)

lemma sys_inv_quiet: "quiet s s' \<Longrightarrow> sys_inv hw s \<Longrightarrow> sys_inv hw s'"
  using callback_cong[of s' s]
  by (simp add: sys_inv_def irq_inv_def sched_inv_def quiet_fields)

lemma sys_inv_bus_stable: "bus_stable (sys_inv hw)"
  unfolding bus_stable_def using did_quiet sys_inv_quiet by blast

text \<open>
  The timer interrupts that were serviced, as the interrupt controller sees
  them: the writes of id 29 to the end-of-interrupt register.
\<close>

definition eoi_addr :: "hardware \<Rightarrow> u32" where
  "eoi_addr hw = GIC_IFACE_BASE hw + 0x10"

definition timer_eois :: "hardware \<Rightarrow> sys_state \<Rightarrow> nat" where
  "timer_eois hw s = count_list (writes (bus s)) (eoi_addr hw, 29)"

text \<open>The UART is not mapped onto the interrupt controller.\<close>

definition uart_apart :: "hardware \<Rightarrow> bool" where
  "uart_apart hw \<longleftrightarrow> eoi_addr hw \<notin> {uart_reg ''DR'', uart_reg ''RSRECR'', uart_reg ''ICR''}"

lemma timer_not_eoi: "preg (PTIMER_BASE hw) ''ISR'' \<noteq> eoi_addr hw"
  by (simp add: preg_def PTIMER_BASE_def eoi_addr_def GIC_IFACE_BASE_def PTIMER_OFFSET_def
      GIC_IFACE_OFFSET_def add.assoc)

lemma count_list_fst_notin: "\<forall>w \<in> set ws. fst w \<noteq> a \<Longrightarrow> count_list ws (a, v) = 0"
  by (induction ws) auto

lemma eoi_29: "ucast (acked hw s) AND CEOIR_ID_MASK = (29 :: u32) \<longleftrightarrow> acked hw s = PTIMER_INTERRUPT"
proof
  assume *: "ucast (acked hw s) AND CEOIR_ID_MASK = (29 :: u32)"
  have "acked hw s = ucast (ucast (acked hw s) AND CEOIR_ID_MASK :: u32)"
    unfolding acked_def gic_acknowledge_interrupt_def CIAR_ID_MASK_def CEOIR_ID_MASK_def
    by (simp add: split_beta ucast_id)
  with * show "acked hw s = PTIMER_INTERRUPT" by (simp add: PTIMER_INTERRUPT_def)
qed (simp add: PTIMER_INTERRUPT_def CEOIR_ID_MASK_def)

lemma irq_handler_counts:
  assumes "tx_drains hw" and "uart_apart hw" and "sys_inv hw s"
  obtains s' k where "irq_handler hw (call_isr hw) s = Returns s'" and "quiet s s'"
    and "k = (if acked hw s = PTIMER_INTERRUPT then 1 else 0)"
    and "systime s' = systime s + of_nat k" and "timer_eois hw s' = timer_eois hw s + k"
proof -
  have cb: "callback (acked hw s) s = Some ptimer_isr_fn \<longleftrightarrow> acked hw s = PTIMER_INTERRUPT"
    and regs: "gic_ifregs s = GIC_IFACE_BASE hw" "ptimer_regs s = PTIMER_BASE hw"
    using assms(3) by (auto simp: sys_inv_def)
  have ceoir: "ifreg (GIC_IFACE_BASE hw) ''CEOIR'' = eoi_addr hw" by (simp add: ifreg_def eoi_addr_def)
  obtain s' ws where s': "irq_handler hw (call_isr hw) s = Returns s'" "quiet s s'"
    and w: "writes (bus s') = writes (bus s) @ ws @
      [(ifreg (gic_ifregs s) ''CEOIR'', ucast (acked hw s) AND CEOIR_ID_MASK)]"
    and t: "systime s' = (if callback (acked hw s) s = Some ptimer_isr_fn then systime s + 1 else systime s)"
    and ws: "if callback (acked hw s) s = Some ptimer_isr_fn then ws = [(preg (ptimer_regs s) ''ISR'', 1)]
      else \<forall>w \<in> set ws. fst w \<in> {uart_reg ''DR'', uart_reg ''RSRECR'', uart_reg ''ICR''}"
    using irq_handler_cases[OF assms(1) sys_inv_isrs_ok[OF assms(3)]] by blast
  have "\<forall>w \<in> set ws. fst w \<noteq> eoi_addr hw"
    using ws assms(2) timer_not_eoi[of hw] unfolding regs uart_apart_def by (auto split: if_splits)
  then have "count_list ws (eoi_addr hw, 29) = 0" by (rule count_list_fst_notin)
  then have "timer_eois hw s' = timer_eois hw s + (if acked hw s = PTIMER_INTERRUPT then 1 else 0)"
    using eoi_29[of hw s] by (auto simp: timer_eois_def w regs ceoir)
  with s' t cb show thesis using that[of s' "if acked hw s = PTIMER_INTERRUPT then 1 else 0"] by auto
qed

lemma interrupts_count:
  assumes "tx_drains hw" and "uart_apart hw"
  shows "sys_inv hw s \<Longrightarrow> \<exists>s' k. interrupts hw n s = Returns s' \<and> quiet s s' \<and> k \<le> n \<and>
    systime s' = systime s + of_nat k \<and> timer_eois hw s' = timer_eois hw s + k"
proof (induction n arbitrary: s)
  case 0
  then show ?case by (intro exI[of _ s] exI[of _ 0]) auto
next
  case (Suc n)
  obtain s1 j where s1: "irq_handler hw (call_isr hw) s = Returns s1" "quiet s s1"
    "j = (if acked hw s = PTIMER_INTERRUPT then 1 else 0)"
    "systime s1 = systime s + of_nat j" "timer_eois hw s1 = timer_eois hw s + j"
    using irq_handler_counts[OF assms Suc.prems] by blast
  obtain s' k where s': "interrupts hw n s1 = Returns s'" "quiet s1 s'" "k \<le> n"
    "systime s' = systime s1 + of_nat k" "timer_eois hw s' = timer_eois hw s1 + k"
    using Suc.IH[OF sys_inv_quiet[OF s1(2) Suc.prems]] by blast
  have "interrupts_enabled s" using Suc.prems by (simp add: sys_inv_def)
  moreover have "j + k \<le> Suc n" using s1(3) s'(3) by simp
  ultimately show ?case
    using s1(1,2,4,5) s' by (intro exI[of _ s'] exI[of _ "j + k"]) (auto intro: quiet_trans)
qed

lemma preempt_count:
  assumes "tx_drains hw" and "uart_apart hw" and "sys_inv hw s"
  shows "\<exists>s' k. preempt hw arr s = Returns s' \<and> sys_inv hw s' \<and> k \<le> arr (polls s) \<and>
    systime s' = systime s + of_nat k \<and> timer_eois hw s' = timer_eois hw s + k"
proof -
  have q: "quiet s (s\<lparr>polls := Suc (polls s)\<rparr>)"
    unfolding quiet_def by (intro exI[of _ "bus s"] exI[of _ "systime s"] exI) simp
  from interrupts_count[OF assms(1,2) sys_inv_quiet[OF q assms(3)], of "arr (polls s)"] show ?thesis
    unfolding preempt_def using sys_inv_quiet[OF quiet_trans[OF q] assms(3)] by (auto simp: timer_eois_def)
qed


text \<open>The timer keeps interrupting, with at most \<open>b\<close> interrupts taken at one point.\<close>

definition timer_fires :: "hardware \<Rightarrow> (nat \<Rightarrow> nat) \<Rightarrow> nat \<Rightarrow> bool" where
  "timer_fires hw arr b \<longleftrightarrow> (\<forall>n. arr n \<le> b) \<and>
    (\<forall>s. sys_inv hw s \<longrightarrow>
      (\<exists>n. timer_eois hw s < timer_eois hw (((\<lambda>s. ret (preempt hw arr s)) ^^ n) s)))"

lemma preempts_count:
  assumes "tx_drains hw" and "uart_apart hw" and "sys_inv hw s"
  shows "\<exists>k. sys_inv hw (((\<lambda>s. ret (preempt hw arr s)) ^^ n) s) \<and>
    systime (((\<lambda>s. ret (preempt hw arr s)) ^^ n) s) = systime s + of_nat k \<and>
    timer_eois hw (((\<lambda>s. ret (preempt hw arr s)) ^^ n) s) = timer_eois hw s + k"
proof (induction n)
  case 0
  show ?case using assms(3) by (intro exI[of _ 0]) simp
next
  case (Suc n)
  then obtain k where k: "sys_inv hw (((\<lambda>s. ret (preempt hw arr s)) ^^ n) s)"
    "systime (((\<lambda>s. ret (preempt hw arr s)) ^^ n) s) = systime s + of_nat k"
    "timer_eois hw (((\<lambda>s. ret (preempt hw arr s)) ^^ n) s) = timer_eois hw s + k" by blast
  from preempt_count[OF assms(1,2) k(1), of arr] k(2,3) show ?case
    by (auto intro!: exI[of _ "k + _"])
qed

lemma sys_ticking:
  assumes "tx_drains hw" and "uart_apart hw" and "timer_fires hw arr b" and "b < 2 ^ 32"
  shows "ticking (sys_inv hw) b (preempt hw arr)"
  unfolding ticking_def
proof (intro conjI allI impI)
  fix s assume inv: "sys_inv hw s"
  show "\<exists>s' k. preempt hw arr s = Returns s' \<and> sys_inv hw s' \<and> systime s' = systime s + of_nat k \<and> k \<le> b"
    using preempt_count[OF assms(1,2) inv, of arr] assms(3) unfolding timer_fires_def
    by (meson order_trans)
  let ?f = "\<lambda>n. ((\<lambda>s. ret (preempt hw arr s)) ^^ n) s"
  have ex: "\<exists>n. timer_eois hw s < timer_eois hw (?f n)"
    using assms(3) inv unfolding timer_fires_def by blast
  then obtain n where n: "timer_eois hw s < timer_eois hw (?f n)"
    "\<forall>m < n. \<not> timer_eois hw s < timer_eois hw (?f m)"
    using exists_least_iff[of "\<lambda>n. timer_eois hw s < timer_eois hw (?f n)"] by auto
  then obtain m where m: "n = Suc m" by (cases n) auto
  obtain k where k: "sys_inv hw (?f m)" "systime (?f m) = systime s + of_nat k"
    "timer_eois hw (?f m) = timer_eois hw s + k"
    using preempts_count[OF assms(1,2) inv, where arr = arr and n = m] by blast
  with n(2) m have "k = 0" by auto
  obtain s' j where j: "preempt hw arr (?f m) = Returns s'" "j \<le> b"
    "systime s' = systime (?f m) + of_nat j" "timer_eois hw s' = timer_eois hw (?f m) + j"
    using preempt_count[OF assms(1,2) k(1), of arr] assms(3) unfolding timer_fires_def
    by (meson order_trans)
  have "?f n = s'" using m j(1) by simp
  with n(1) j(4) k(3) \<open>k = 0\<close> have "0 < j" by simp
  with j(2) assms(4) have "(of_nat j :: u32) \<noteq> 0"
    by (simp add: word_of_nat_eq_0_iff nat_dvd_not_less)
  with j(3) k(2) \<open>k = 0\<close> \<open>?f n = s'\<close> show "\<exists>n. systime (?f n) \<noteq> systime s" by (intro exI[of _ n]) simp
qed

lemma call_task_returns:
  assumes "tx_drains hw" and "uart_apart hw" and "timer_fires hw arr b" and "b \<le> 100"
    and "sys_inv hw s" and "unat (systime s) + b < 10 ^ 8" and "f \<in> {task0_fn, task1_fn}"
  shows "\<exists>s'. call_task hw arr f s = Returns s' \<and> sys_inv hw s' \<and>
    unat (systime s') \<le> unat (systime s) + 1000 + 2 * b"
proof -
  have tick: "ticking (sys_inv hw) b (preempt hw arr)" using assms(4) by (intro sys_ticking assms) simp
  have room: "unat (systime s) + b < 2 ^ 32" using assms(6) by simp
  obtain s1 k where s1: "preempt hw arr s = Returns s1" "sys_inv hw s1" "k \<le> b"
    "unat (systime s1) = unat (systime s) + k"
    using ticking_step[OF tick assms(5) room] by blast
  have "\<exists>s'. timed_task ent ext hw (preempt hw arr) s = Returns s' \<and> sys_inv hw s' \<and>
      unat (systime s') \<le> unat (systime s) + 1000 + 2 * b" for ent ext
    using timed_task_returns[OF assms(1) tick sys_inv_bus_stable _ s1(1,2), of ent ext]
      assms(4,6) s1(3,4) by fastforce
  with assms(7) show ?thesis by (auto simp: call_task_def task0_def task1_def)
qed

lemma callback_table [simp]: "callback n (s\<lparr>task_table := tt\<rparr>) = callback n s"
  by (simp add: callback_def)

lemma sys_inv_stamp:
  assumes "sys_inv hw s" and "entry (task_table s ! i) \<noteq> None" and "i < MAX_NUM_TASKS"
  shows "sys_inv hw (s\<lparr>task_table := (task_table s)[i := (task_table s ! i)\<lparr>last_run := t\<rparr>]\<rparr>)"
proof -
  have len: "length (task_table s) = MAX_NUM_TASKS" using assms(1) by (simp add: sys_inv_def sched_inv_def)
  have "i < unat (table_idx s)"
    using assms by (auto simp: sys_inv_def sched_inv_def null_task_def not_le[symmetric])
  moreover have "entry u \<in> {None, Some task0_fn, Some task1_fn}"
    if "u \<in> set ((task_table s)[i := (task_table s ! i)\<lparr>last_run := t\<rparr>])" for u
  proof -
    have "u = (task_table s ! i)\<lparr>last_run := t\<rparr> \<or> u \<in> set (task_table s)"
      using that set_update_subset_insert[of "task_table s"] by blast
    moreover have "task_table s ! i \<in> set (task_table s)" using assms(3) len by simp
    ultimately show ?thesis using assms(1) unfolding sys_inv_def by fastforce
  qed
  ultimately show ?thesis
    using assms(1) len by (simp add: sys_inv_def sched_inv_def irq_inv_def nth_list_update)
qed

lemma sched_slot_returns:
  assumes "tx_drains hw" and "uart_apart hw" and "timer_fires hw arr b" and "b \<le> 100"
    and "sys_inv hw s" and "unat (systime s) + 3 * b < 10 ^ 8" and "i < MAX_NUM_TASKS"
  shows "\<exists>s'. sched_slot (preempt hw arr) (call_task hw arr) i s = Returns s' \<and> sys_inv hw s' \<and>
    unat (systime s') \<le> unat (systime s) + 1000 + 4 * b"
proof (cases "entry (task_table s ! i)")
  case None
  then show ?thesis using assms(5) by (simp add: sched_slot_def)
next
  case (Some f)
  have tick: "ticking (sys_inv hw) b (preempt hw arr)" using assms(4) by (intro sys_ticking assms) simp
  have room: "unat (systime s) + b < 2 ^ 32" using assms(6) by simp
  obtain s1 k where s1: "preempt hw arr s = Returns s1" "sys_inv hw s1" "k \<le> b"
    "unat (systime s1) = unat (systime s) + k"
    using ticking_step[OF tick assms(5) room] by blast
  have room1: "unat (systime s1) + b < 2 ^ 32" using assms(6) s1(3,4) by simp
  obtain s2 j where s2: "preempt hw arr s1 = Returns s2" "sys_inv hw s2" "j \<le> b"
    "unat (systime s2) = unat (systime s1) + j"
    using ticking_step[OF tick s1(2) room1] by blast
  have tt: "task_table s1 = task_table s" "task_table s2 = task_table s"
    using preempt_table[OF assms(1) sys_inv_isrs_ok[OF assms(5)] s1(1)]
      preempt_table[OF assms(1) sys_inv_isrs_ok[OF s1(2)] s2(1)] by simp_all
  define s3 where "s3 = s2\<lparr>task_table := (task_table s2)[i := (task_table s2 ! i)\<lparr>last_run := systime_get s2\<rparr>]\<rparr>"
  have s3: "sys_inv hw s3" "systime s3 = systime s2"
    using sys_inv_stamp[OF s2(2) _ assms(7)] Some tt(2) by (simp_all add: s3_def)
  have "task_table s ! i \<in> set (task_table s)"
    using assms(5,7) by (simp add: sys_inv_def sched_inv_def)
  with assms(5) Some have f: "f \<in> {task0_fn, task1_fn}" by (auto simp: sys_inv_def)
  obtain s4 where "call_task hw arr f s3 = Returns s4" "sys_inv hw s4"
    "unat (systime s4) \<le> unat (systime s3) + 1000 + 2 * b"
    using call_task_returns[OF assms(1-4) s3(1) _ f] s3(2) s1(3,4) s2(3,4) assms(6) by auto
  moreover have "sched_slot (preempt hw arr) (call_task hw arr) i s =
      (if systime_get s1 - last_run (task_table s ! i) \<ge> period (task_table s ! i)
       then call_task hw arr f s3 else Returns s1)"
    using Some s1(1) s2(1) tt by (simp add: sched_slot_def s3_def)
  ultimately show ?thesis using s1 s2 s3(2) by auto
qed


lemma sched_slots_return:
  assumes "tx_drains hw" and "uart_apart hw" and "timer_fires hw arr b" and "b \<le> 100"
  shows "sys_inv hw s \<Longrightarrow> unat (systime s) + 1400 * (MAX_NUM_TASKS - i) < 10 ^ 8 \<Longrightarrow>
    \<exists>s'. sched_slots (preempt hw arr) (call_task hw arr) i s = Returns s' \<and> sys_inv hw s'"
proof (induction "MAX_NUM_TASKS - i" arbitrary: i s)
  case 0
  then show ?case by (simp add: sched_slots.simps[of _ _ i])
next
  case (Suc n)
  then have i: "i < MAX_NUM_TASKS" and n: "n = MAX_NUM_TASKS - Suc i" by auto
  have "unat (systime s) + 3 * b < 10 ^ 8" using Suc.prems(2) Suc.hyps(2) assms(4) by simp
  then obtain s1 where s1: "sched_slot (preempt hw arr) (call_task hw arr) i s = Returns s1" "sys_inv hw s1"
    "unat (systime s1) \<le> unat (systime s) + 1000 + 4 * b"
    using sched_slot_returns[OF assms Suc.prems(1) _ i] by blast
  have "unat (systime s1) + 1400 * (MAX_NUM_TASKS - Suc i) < 10 ^ 8"
    using s1(3) Suc.prems(2) Suc.hyps(2) n assms(4) by simp
  from Suc.hyps(1)[OF n s1(2) this] s1(1) i show ?case
    by (simp add: sched_slots.simps[of _ _ i])
qed

lemma sched_run_lives:
  assumes "tx_drains hw" and "uart_apart hw" and "timer_fires hw arr b" and "b \<le> 100"
  shows "sys_inv hw s \<Longrightarrow>
    (\<exists>s'. sched_run (preempt hw arr) (call_task hw arr) n s = Returns s' \<and> sys_inv hw s') \<or>
    (\<exists>m < n. \<exists>s'. sched_run (preempt hw arr) (call_task hw arr) m s = Returns s' \<and>
      10 ^ 8 - 14000 \<le> unat (systime s'))"
proof (induction n arbitrary: s)
  case 0
  then show ?case by simp
next
  case (Suc n)
  show ?case
  proof (cases "unat (systime s) < 10 ^ 8 - 14000")
    case False
    then show ?thesis by (intro disjI2 exI[of _ 0]) simp
  next
    case True
    then obtain s1 where s1: "sched_slots (preempt hw arr) (call_task hw arr) 0 s = Returns s1" "sys_inv hw s1"
      using sched_slots_return[OF assms Suc.prems, of 0] by (auto simp: MAX_NUM_TASKS_def)
    from Suc.IH[OF s1(2)] show ?thesis
    proof (elim disjE exE conjE)
      fix m s' assume "m < n" "sched_run (preempt hw arr) (call_task hw arr) m s1 = Returns s'"
        "10 ^ 8 - 14000 \<le> unat (systime s')"
      with s1(1) show ?thesis by (intro disjI2 exI[of _ "Suc m"]) simp
    qed (use s1(1) in simp)
  qed
qed

section \<open>Initialisation\<close>

lemma gic_more_fields:
  fixes s s' :: sys_state
  assumes "gic_state.more s' = gic_state.more s"
  shows "callbacks s' = callbacks s" "task_table s' = task_table s" "table_idx s' = table_idx s"
    "systime s' = systime s"
  using assms by (cases s, cases s', simp)+

lemma register_fields [simp]:
  fixes s :: sys_state
  shows "task_table (snd (irq_register_isr n f s)) = task_table s"
    "table_idx (snd (irq_register_isr n f s)) = table_idx s"
    "systime (snd (irq_register_isr n f s)) = systime s"
  by (simp_all add: irq_register_isr_def)

lemma main_configured:
  assumes "tx_drains hw" and "eventually_clear hw (uart_reg ''FR'') FR_BUSY"
  obtains s where "bindO (uart_configure hw main_config sys_state0)
      (\<lambda>(_, s). uart_write hw (''Welcome to Chapter 8, Scheduling!'' @ [CHR 0x0A]) s) = Returns s"
    and "callbacks s = (replicate 1024 None)[37 := Some uart_isr_fn]"
    and "task_table s = replicate 10 null_task" and "table_idx s = 0" and "systime s = 0"
proof -
  have inv: "irq_inv sys_state0" by (simp add: irq_inv_def sys_state0_def ISR_COUNT_def)
  have v: "valid_config main_config" by (simp add: valid_config_def main_config_def)
  obtain s t ws ws' where s: "uart_configure hw main_config sys_state0 = Returns (UART_OK, s)"
    and t: "did sys_state0 ws t" and r: "did (snd (irq_register_isr UART0_INTERRUPT uart_isr_fn t)) ws' s"
    using uart_configure_valid[OF v assms(2) inv] by blast
  obtain u us where u: "uart_write hw (''Welcome to Chapter 8, Scheduling!'' @ [CHR 0x0A]) s = Returns u"
    "did s us u"
    using uart_write_returns[OF assms(1)] by blast
  have "callbacks t = replicate 1024 None" "task_table t = replicate 10 null_task" "table_idx t = 0"
    using did_irq_frame(1)[OF t] did_sched_frame(1,2)[OF t] by (simp_all add: sys_state0_def)
  then have "callbacks u = (replicate 1024 None)[37 := Some uart_isr_fn]"
    "task_table u = replicate 10 null_task" "table_idx u = 0"
    using did_irq_frame(1)[OF r] did_sched_frame(1,2)[OF r] did_irq_frame(1)[OF u(2)] did_sched_frame(1,2)[OF u(2)]
    by (simp_all add: irq_register_isr_def UART0_INTERRUPT_def MAX_ISR_def ISR_COUNT_def)
  moreover have "systime u = 0"
    using did_systime[OF t] did_systime[OF r] did_systime[OF u(2)] by (simp add: sys_state0_def)
  moreover have "bindO (uart_configure hw main_config sys_state0)
      (\<lambda>(_, s). uart_write hw (''Welcome to Chapter 8, Scheduling!'' @ [CHR 0x0A]) s) = Returns u"
    using s u(1) by simp
  ultimately show thesis using that by blast
qed


lemma add_task_fields [simp]:
  fixes s :: sys_state
  shows "callback n (snd (sched_add_task f p s)) = callback n s"
    "interrupts_enabled (snd (sched_add_task f p s)) = interrupts_enabled s"
    "irq_inv (snd (sched_add_task f p s)) = irq_inv s"
    "gic_ifregs (snd (sched_add_task f p s)) = gic_ifregs s"
    "ptimer_regs (snd (sched_add_task f p s)) = ptimer_regs s"
    "systime (snd (sched_add_task f p s)) = systime s"
  by (simp_all add: sched_add_task_def Let_def callback_def irq_inv_def)

lemma sys_inv_add:
  assumes "sys_inv hw s" and "f \<in> {task0_fn, task1_fn}"
  shows "sys_inv hw (snd (sched_add_task (Some f) p s))"
proof -
  have "set (task_table (snd (sched_add_task (Some f) p s))) \<subseteq>
      insert \<lparr>entry = Some f, period = p, last_run = 0\<rparr> (set (task_table s))"
    by (auto simp: sched_add_task_def Let_def dest: set_update_subset_insert[THEN subsetD])
  then have "u = \<lparr>entry = Some f, period = p, last_run = 0\<rparr> \<or> u \<in> set (task_table s)"
    if "u \<in> set (task_table (snd (sched_add_task (Some f) p s)))" for u
    using that by blast
  then have "\<forall>t \<in> set (task_table (snd (sched_add_task (Some f) p s))).
      entry t \<in> {None, Some task0_fn, Some task1_fn}"
    using assms unfolding sys_inv_def by fastforce
  with assms(1) sched_add_task_inv show ?thesis by (auto simp: sys_inv_def)
qed

lemma callback_37_29:
  assumes "callbacks s = (replicate 1024 None)[37 := Some uart_isr_fn]"
  shows "callback n (snd (irq_register_isr PTIMER_INTERRUPT ptimer_isr_fn s)) =
    (if n = PTIMER_INTERRUPT then Some ptimer_isr_fn
     else if n = UART0_INTERRUPT then Some uart_isr_fn else None)"
    and "callback n s = (if n = UART0_INTERRUPT then Some uart_isr_fn else None)"
    and "irq_inv s"
proof -
  show inv: "irq_inv s" using assms by (simp add: irq_inv_def ISR_COUNT_def)
  have nat: "unat n = 37 \<longleftrightarrow> n = 37" for n :: u16 by (simp add: word_unat_eq_iff)
  show cb: "callback n s = (if n = UART0_INTERRUPT then Some uart_isr_fn else None)" for n
    using assms by (auto simp: callback_def UART0_INTERRUPT_def MAX_ISR_def ISR_COUNT_def nth_list_update nat)
  then show "callback n (snd (irq_register_isr PTIMER_INTERRUPT ptimer_isr_fn s)) =
    (if n = PTIMER_INTERRUPT then Some ptimer_isr_fn
     else if n = UART0_INTERRUPT then Some uart_isr_fn else None)"
    by (simp add: irq_tab.lookup_register[OF inv] PTIMER_INTERRUPT_def UART0_INTERRUPT_def ISR_COUNT_def)
qed

lemma ptimer_init_1:
  fixes s :: sys_state
  assumes "callbacks s = (replicate 1024 None)[37 := Some uart_isr_fn]" and "interrupts_enabled s"
    and "gic_ifregs s = GIC_IFACE_BASE hw"
    and "task_table s = replicate 10 null_task" and "table_idx s = 0"
  obtains s' where "ptimer_init hw 1 s = Returns (PTIMER_OK, s')" and "sys_inv hw s'" and "added s' = []"
    and "systime s' = systime s"
proof -
  define t where "t = WRITE32 (PTIMER_BASE hw) 71997 (s\<lparr>ptimer_regs := PTIMER_BASE hw\<rparr>)"
  define r where "r = snd (irq_register_isr PTIMER_INTERRUPT ptimer_isr_fn t)"
  define s' where "s' = WRITE32 (PTIMER_BASE hw + 8) 7 r"
  have d: "did r [(PTIMER_BASE hw + 8, 7)] s'" by (simp add: s'_def)
  have ft: "callbacks t = (replicate 1024 None)[37 := Some uart_isr_fn]" "interrupts_enabled t"
    "gic_ifregs t = GIC_IFACE_BASE hw" "ptimer_regs t = PTIMER_BASE hw"
    "task_table t = replicate 10 null_task" "table_idx t = 0"
    using assms did_sched_frame[OF did_WRITE32[of "s\<lparr>ptimer_regs := PTIMER_BASE hw\<rparr>" "PTIMER_BASE hw" 71997]]
    by (simp_all add: t_def)
  have "sys_inv hw r"
    using ft callback_37_29[OF ft(1)] irq_register_isr_inv[OF callback_37_29(3)[OF ft(1)]]
    by (simp add: sys_inv_def r_def sched_inv_def MAX_NUM_TASKS_def null_task_def)
  then have "sys_inv hw s'" using did_quiet[OF d] sys_inv_quiet by blast
  moreover have "added s' = []"
    using ft(6) did_sched_frame(2)[OF d] by (simp add: added_def tasks_def r_def)
  moreover have "ptimer_init hw 1 s = Returns (PTIMER_OK, s')"
    by (simp add: ptimer_init_eq millisecs_to_timer_value_1 t_def r_def s'_def)
  moreover have "systime s' = systime s"
    using did_systime[OF d] did_systime[OF did_WRITE32[of "s\<lparr>ptimer_regs := PTIMER_BASE hw\<rparr>" "PTIMER_BASE hw" 71997]]
    by (simp add: r_def t_def)
  ultimately show thesis using that by blast
qed

lemma added_quiet: "quiet s s' \<Longrightarrow> added s' = added s"
  by (simp add: added_def tasks_def quiet_fields)

lemma added_add_task:
  assumes "sys_inv hw s" and "length (added s) < 10"
  shows "added (snd (sched_add_task f p s)) = added s @ [(f, p)]"
  using assms sched_tab.add_elems[of s "(f, p)"]
  by (simp add: sys_inv_def add_pair_def MAX_NUM_TASKS_def)

lemma main_init_returns:
  assumes "tx_drains hw" and "eventually_clear hw (uart_reg ''FR'') FR_BUSY"
  shows "\<exists>s k. main_init hw arr sys_state0 = Returns s \<and> sys_inv hw s \<and>
    added s = [(Some task0_fn, 5000), (Some task1_fn, 2000)] \<and>
    systime s = of_nat k \<and> ((\<forall>n. arr n \<le> b) \<longrightarrow> k \<le> 3 * b)"
proof -
  obtain u where u: "bindO (uart_configure hw main_config sys_state0)
      (\<lambda>(_, s). uart_write hw (''Welcome to Chapter 8, Scheduling!'' @ [CHR 0x0A]) s) = Returns u"
    "callbacks u = (replicate 1024 None)[37 := Some uart_isr_fn]"
    "task_table u = replicate 10 null_task" "table_idx u = 0" "systime u = 0"
    using main_configured[OF assms] by blast
  define s1 where "s1 = cpu_enable_interrupts (gic_enable_interrupt hw PTIMER_INTERRUPT
    (gic_enable_interrupt hw UART0_INTERRUPT (gic_init hw u)))"
  have "gic_state.more s1 = gic_state.more u"
    by (simp add: s1_def cpu_enable_interrupts_def gic_init_state)
  note f1 = gic_more_fields[OF this]
  have g1: "interrupts_enabled s1" "gic_ifregs s1 = GIC_IFACE_BASE hw"
    by (simp_all add: s1_def cpu_enable_interrupts_def gic_init_state)
  have "isrs_ok s1"
    using callback_37_29(2,3)[of s1] f1(1) u(2) by (simp add: isrs_ok_def)
  then obtain s2 k1 where s2: "preempt hw arr s1 = Returns s2" "quiet s1 s2"
    "k1 \<le> arr (polls s1)" "systime s2 = systime s1 + of_nat k1"
    using preempt_returns[OF assms(1)] by blast
  obtain s3 where s3: "ptimer_init hw 1 s2 = Returns (PTIMER_OK, s3)" "sys_inv hw s3" "added s3 = []"
    "systime s3 = systime s2"
    using ptimer_init_1[of s2 hw] f1 g1 u(2-4) by (auto simp: quiet_fields[OF s2(2)])
  obtain s4 k2 where s4: "preempt hw arr s3 = Returns s4" "quiet s3 s4"
    "k2 \<le> arr (polls s3)" "systime s4 = systime s3 + of_nat k2"
    using preempt_returns[OF assms(1) sys_inv_isrs_ok[OF s3(2)]] by blast
  define s5 where "s5 = snd (sched_add_task (Some task0_fn) 5000 s4)"
  have s5: "sys_inv hw s5" "added s5 = [(Some task0_fn, 5000)]"
    using sys_inv_quiet[OF s4(2) s3(2)] added_quiet[OF s4(2)] s3(3)
    by (simp_all add: s5_def sys_inv_add added_add_task)
  obtain s6 k3 where s6: "preempt hw arr s5 = Returns s6" "quiet s5 s6"
    "k3 \<le> arr (polls s5)" "systime s6 = systime s5 + of_nat k3"
    using preempt_returns[OF assms(1) sys_inv_isrs_ok[OF s5(1)]] by blast
  have "systime s6 = of_nat (k1 + k2 + k3)"
    using f1(4) u(5) s2(4) s3(4) s4(4) s6(4) by (simp add: s5_def)
  moreover have "k1 + k2 + k3 \<le> 3 * b" if "\<forall>n. arr n \<le> b"
    using s2(3) s4(3) s6(3) that[rule_format, of "polls s1"] that[rule_format, of "polls s3"]
      that[rule_format, of "polls s5"] by simp
  moreover have "sys_inv hw (snd (sched_add_task (Some task1_fn) 2000 s6))"
    "added (snd (sched_add_task (Some task1_fn) 2000 s6)) = [(Some task0_fn, 5000), (Some task1_fn, 2000)]"
    using sys_inv_quiet[OF s6(2) s5(1)] added_quiet[OF s6(2)] s5(2)
    by (simp_all add: sys_inv_add added_add_task)
  moreover have "main_init hw arr sys_state0 = Returns (snd (sched_add_task (Some task1_fn) 2000 s6))"
  proof -
    obtain e s where c: "uart_configure hw main_config sys_state0 = Returns (e, s)"
      using u(1) by (cases "uart_configure hw main_config sys_state0") auto
    with u(1) show ?thesis
      using s2(1) s3(1) s4(1) s6(1) unfolding main_init_def
      by (simp add: s1_def[symmetric] s5_def[symmetric] Let_def)
  qed
  ultimately show ?thesis
    by (intro exI[of _ "snd (sched_add_task (Some task1_fn) 2000 s6)"] exI[of _ "k1 + k2 + k3"]) simp
qed


section \<open>A timer that never stops\<close>

text \<open>The board's addresses, idle devices, and a timer interrupt at every acknowledge.\<close>

definition timer_hw :: hardware where
  "timer_hw = idle_hw\<lparr>bus_read := \<lambda>h a. if a = 0x1E00010C then 29 else 0\<rparr>"

lemma timer_hw_base: "GIC_IFACE_BASE timer_hw = 0x1E000100"
  by (simp add: timer_hw_def idle_hw_def GIC_IFACE_BASE_def cpu_get_periphbase_def GIC_IFACE_OFFSET_def)

lemma timer_hw_clear: "tx_drains timer_hw" "eventually_clear timer_hw (uart_reg ''FR'') FR_BUSY"
  by (auto simp: tx_drains_def eventually_clear_def timer_hw_def uart_reg_def uart0_def intro: exI[of _ 0])

lemma timer_hw_apart: "uart_apart timer_hw"
  by (simp add: uart_apart_def eoi_addr_def timer_hw_base uart_reg_def uart0_def)

lemma timer_hw_acked: "sys_inv timer_hw s \<Longrightarrow> acked timer_hw s = 29"
  by (simp add: sys_inv_def acked_def gic_acknowledge_interrupt_def split_beta ifreg_def timer_hw_base)
    (simp add: timer_hw_def CIAR_ID_MASK_def)

lemma timer_hw_fires: "timer_fires timer_hw (\<lambda>_. 1) 1"
  unfolding timer_fires_def
proof (intro conjI allI impI)
  fix s assume inv: "sys_inv timer_hw s"
  define t where "t = s\<lparr>polls := Suc (polls s)\<rparr>"
  have q: "quiet s t"
    unfolding quiet_def t_def by (intro exI[of _ "bus s"] exI[of _ "systime s"] exI) simp
  have it: "sys_inv timer_hw t" by (rule sys_inv_quiet[OF q inv])
  obtain s' k where s': "irq_handler timer_hw (call_isr timer_hw) t = Returns s'"
    "k = (if acked timer_hw t = PTIMER_INTERRUPT then 1 else 0)" "timer_eois timer_hw s' = timer_eois timer_hw t + k"
    using irq_handler_counts[OF timer_hw_clear(1) timer_hw_apart it] by blast
  have "timer_eois timer_hw s < timer_eois timer_hw s'"
    using s'(2,3) timer_hw_acked[OF it] by (simp add: PTIMER_INTERRUPT_def timer_eois_def t_def)
  moreover have "preempt timer_hw (\<lambda>_. 1) s = Returns s'"
    using s'(1) it by (simp add: preempt_def t_def[symmetric] sys_inv_def)
  ultimately show "\<exists>n. timer_eois timer_hw s <
      timer_eois timer_hw (((\<lambda>s. ret (preempt timer_hw (\<lambda>_. 1) s)) ^^ n) s)"
    by (intro exI[of _ 1]) simp
qed simp

section \<open>Properties\<close>

text \<open>
  C5. When the transmitter finishes what it is sending, \<^verbatim>\<open>main\<close> reaches the
  scheduler, whatever interrupts arrive meanwhile. Interrupts are then enabled,
  the two service routines are the only ones registered, the drivers point at
  their devices, and the table holds task 0 with a period of 5 s and task 1
  with a period of 2 s.
\<close>

theorem main_reaches_scheduler:
  assumes "tx_drains hw" and "eventually_clear hw (uart_reg ''FR'') FR_BUSY"
  shows "\<exists>s. main_init hw arr sys_state0 = Returns s \<and> interrupts_enabled s \<and>
    gic_ifregs s = GIC_IFACE_BASE hw \<and> ptimer_regs s = PTIMER_BASE hw \<and>
    (\<forall>n. callback n s = (if n = 29 then Some ptimer_isr_fn else if n = 37 then Some uart_isr_fn else None)) \<and>
    sched_inv s \<and> added s = [(Some task0_fn, 5000), (Some task1_fn, 2000)]"
  using main_init_returns[OF assms, of arr 0]
  unfolding sys_inv_def PTIMER_INTERRUPT_def UART0_INTERRUPT_def by blast

theorem main_reaches_scheduler_witness:
  "\<exists>s. main_init idle_hw (\<lambda>_. 1) sys_state0 = Returns s \<and> interrupts_enabled s \<and>
    callback 29 s = Some ptimer_isr_fn \<and> length (added s) = 2"
proof -
  have "tx_drains idle_hw" "eventually_clear idle_hw (uart_reg ''FR'') FR_BUSY"
    by (simp_all add: tx_drains_def)
  then obtain s where "main_init idle_hw (\<lambda>_. 1) sys_state0 = Returns s" "interrupts_enabled s"
    "callback 29 s = Some ptimer_isr_fn" "added s = [(Some task0_fn, 5000), (Some task1_fn, 2000)]"
    using main_reaches_scheduler[of idle_hw "\<lambda>_. 1"] by metis
  then show ?thesis by simp
qed

text \<open>
  C6. In the running system a timer interrupt advances the time by one tick,
  clears the timer's interrupt and then ends interrupt 29, in that order. An
  interrupt id without a service routine (a spurious 1023 as well) is only
  ended, with the id that was read. No interrupt changes anything but the bus,
  the time and the devices.
\<close>

theorem irq_handler_dispatches:
  assumes "tx_drains hw" and "sys_inv hw s" and "acked hw s = n" and "n \<noteq> 37"
  shows "\<exists>s'. irq_handler hw (call_isr hw) s = Returns s' \<and> quiet s s' \<and>
    systime s' = (if n = 29 then systime s + 1 else systime s) \<and>
    (n = 29 \<longrightarrow> writes (bus s') = writes (bus s) @
      [(PTIMER_BASE hw + 0xC, 1), (GIC_IFACE_BASE hw + 0x10, 29)]) \<and>
    (n \<noteq> 29 \<longrightarrow> writes (bus s') = writes (bus s) @ [(GIC_IFACE_BASE hw + 0x10, ucast n AND 0x3FF)])"
proof -
  have inv: "gic_ifregs s = GIC_IFACE_BASE hw" "ptimer_regs s = PTIMER_BASE hw"
    "callback n s = (if n = 29 then Some ptimer_isr_fn else None)"
    using assms(2,4) by (simp_all add: sys_inv_def PTIMER_INTERRUPT_def UART0_INTERRUPT_def)
  define t where "t = snd (gic_acknowledge_interrupt hw s)"
  have ack: "gic_acknowledge_interrupt hw s = (n, t)" using assms(3) by (simp add: acked_def t_def prod_eq_iff)
  have t: "did s [] t" by (simp add: t_def gic_acknowledge_interrupt_def split_beta)
  define u where "u = (if n = 29 then ptimer_isr t else t)"
  have q: "quiet s u"
    using did_quiet[OF t] quiet_trans[OF did_quiet[OF t] ptimer_isr_quiet] by (simp add: u_def)
  have run: "irq_handler hw (call_isr hw) s = Returns (gic_end_interrupt n u)"
    using inv(3) by (simp add: irq_handler_def ack did_callback[OF t] u_def call_isr_def)
  have "did u [(ifreg (gic_ifregs u) ''CEOIR'', ucast n AND 0x3FF)] (gic_end_interrupt n u)"
    unfolding gic_end_interrupt_def CEOIR_ID_MASK_def by simp
  note e = did_writes[OF this] did_systime[OF this] quiet_trans[OF q did_quiet[OF this]]
  have "gic_ifregs u = GIC_IFACE_BASE hw" using inv(1) by (simp add: quiet_fields[OF q])
  moreover have "ptimer_regs t = PTIMER_BASE hw" using inv(2) did_sched_frame(3)[OF t] by simp
  ultimately show ?thesis
    using run e did_writes[OF t] did_systime[OF t]
    by (cases "n = 29") (simp_all add: u_def ifreg_def preg_def)
qed

theorem irq_handler_dispatches_witness:
  "\<exists>s s'. main_init timer_hw (\<lambda>_. 0) sys_state0 = Returns s \<and>
    irq_handler timer_hw (call_isr timer_hw) s = Returns s' \<and> systime s' = systime s + 1"
proof -
  obtain s where s: "main_init timer_hw (\<lambda>_. 0) sys_state0 = Returns s" "sys_inv timer_hw s"
    using main_init_returns[OF timer_hw_clear] by blast
  have "(29 :: u16) \<noteq> 37" by simp
  from irq_handler_dispatches[OF timer_hw_clear(1) s(2) timer_hw_acked[OF s(2)] this] s(1) show ?thesis
    by (simp only: if_True refl) blast
qed

text \<open>
  C4. The system time counts the timer interrupts: over any number of
  interrupts in the running system, it advances by the number of times id 29
  was ended at the interrupt controller, modulo \<open>2 ^ 32\<close>.
\<close>

theorem systime_counts_timer_interrupts:
  assumes "tx_drains hw" and "uart_apart hw" and "sys_inv hw s"
  shows "\<exists>s'. interrupts hw n s = Returns s' \<and> sys_inv hw s' \<and>
    timer_eois hw s \<le> timer_eois hw s' \<and>
    systime s' = systime s + of_nat (timer_eois hw s' - timer_eois hw s)"
  using interrupts_count[OF assms, of n] sys_inv_quiet[OF _ assms(3)] by fastforce

theorem systime_counts_timer_interrupts_witness:
  "\<exists>s s'. main_init timer_hw (\<lambda>_. 0) sys_state0 = Returns s \<and> interrupts timer_hw 3 s = Returns s' \<and>
    systime s' = systime s + of_nat (timer_eois timer_hw s' - timer_eois timer_hw s)"
proof -
  obtain s where s: "main_init timer_hw (\<lambda>_. 0) sys_state0 = Returns s" "sys_inv timer_hw s"
    using main_init_returns[OF timer_hw_clear] by blast
  with systime_counts_timer_interrupts[OF timer_hw_clear(1) timer_hw_apart s(2), of 3] show ?thesis
    by blast
qed

text \<open>
  C2. The program keeps running: when the transmitter drains, the UART is not
  mapped onto the interrupt controller and the timer keeps interrupting (at
  most 100 times between two reads of the time), every turn of the scheduler's
  loop ends with the system invariant intact, unless the time had come within
  14 s of \<open>10 ^ 8\<close> ms in an earlier turn, where printing the time overflows.
\<close>

theorem main_keeps_running:
  assumes "tx_drains hw" and "eventually_clear hw (uart_reg ''FR'') FR_BUSY" and "uart_apart hw"
    and "timer_fires hw arr b" and "b \<le> 100"
  shows "(\<exists>s'. main hw arr n sys_state0 = Returns s' \<and> sys_inv hw s') \<or>
    (\<exists>m < n. \<exists>s'. main hw arr m sys_state0 = Returns s' \<and> 10 ^ 8 - 14000 \<le> unat (systime s'))"
proof -
  obtain s where s: "main_init hw arr sys_state0 = Returns s" "sys_inv hw s"
    using main_init_returns[OF assms(1,2)] by blast
  from sched_run_lives[OF assms(1,3-5) s(2), of n] s(1) show ?thesis by (simp add: main_def)
qed

theorem main_keeps_running_witness:
  "\<exists>s'. main timer_hw (\<lambda>_. 1) 1 sys_state0 = Returns s'"
proof -
  obtain s k where s: "main_init timer_hw (\<lambda>_. 1) sys_state0 = Returns s" "systime s = of_nat k" "k \<le> 3"
    using main_init_returns[OF timer_hw_clear, of "\<lambda>_. 1" 1] by auto
  have "unat (systime s) \<le> 3" using s(2,3) by (simp add: unat_of_nat)
  with main_keeps_running[OF timer_hw_clear timer_hw_apart timer_hw_fires, of 1] s(1) show ?thesis
    by (auto simp: main_def)
qed

end
