(* ===== verification/Shell.thy ===== *)
theory Shell
  imports Uart
begin

unbundle bit_operations_syntax

text \<open>
  The program of 06_uart (\<^verbatim>\<open>cstart.c\<close>): polled characters are echoed and gathered
  into a line; a carriage return ends the line, which is looked up as a
  command. The UART functions it calls are the same text as those of
  08_scheduler, except \<^verbatim>\<open>uart_configure\<close>, which sets up no interrupt.
\<close>

section \<open>State and operations\<close>

record shell_state = cpu +
  buf :: string
  buf_idx :: u8

definition uart_configure_polled ::
  "hardware \<Rightarrow> uart_config \<Rightarrow> 'a cpu_scheme \<Rightarrow> (uart_error \<times> 'a cpu_scheme) outcome" where
  "uart_configure_polled hw config s =
    (if data_bits config < 5 \<or> data_bits config > 8
     then Returns (UART_INVALID_ARGUMENT_WORDSIZE, s)
     else if stop_bits config = 0 \<or> stop_bits config > 2
     then Returns (UART_INVALID_ARGUMENT_STOP_BITS, s)
     else if baudrate config < 110 \<or> baudrate config > 460800
     then Returns (UART_INVALID_ARGUMENT_BAUDRATE, s)
     else
       let s = rmw hw (uart_reg ''CR'') (\<lambda>v. v AND NOT CR_UARTEN) s
       in bindO (of_option (poll_while hw (uart_reg ''FR'') FR_BUSY s)) (\<lambda>s.
       let s = rmw hw (uart_reg ''LCRH'') (\<lambda>v. v AND NOT LCRH_FEN) s
       in bindO (case d2u 16 (baud_intpart (baudrate config)) of None \<Rightarrow> UB | Some i \<Rightarrow> Returns i) (\<lambda>i.
       let s = WRITE32 (uart_reg ''IBRD'') (of_int i) s
       in bindO (case d2u 8 (baud_fract64 (baudrate config)) of None \<Rightarrow> UB | Some f \<Rightarrow> Returns f) (\<lambda>f.
       let s = WRITE32 (uart_reg ''FBRD'') (of_int f) s;
           s = WRITE32 (uart_reg ''LCRH'') (uart_lcrh config) s;
           s = rmw hw (uart_reg ''CR'') (\<lambda>v. v OR CR_UARTEN) s
       in Returns (UART_OK, s)))))"

text \<open>\<^verbatim>\<open>strncmp\<close> of the C library, as the difference at the first mismatch.\<close>

fun libc_strncmp :: "string \<Rightarrow> string \<Rightarrow> nat \<Rightarrow> int" where
  "libc_strncmp s1 s2 0 = 0"
| "libc_strncmp [] [] (Suc n) = 0"
| "libc_strncmp [] (c # s2) (Suc n) = - of_char c"
| "libc_strncmp (c # s1) [] (Suc n) = of_char c"
| "libc_strncmp (c # s1) (d # s2) (Suc n) =
    (if c \<noteq> d then of_char c - of_char d else if c = CHR 0x00 then 0 else libc_strncmp s1 s2 n)"

definition parse_cmd :: "hardware \<Rightarrow> 'a shell_state_scheme \<Rightarrow> 'a shell_state_scheme outcome" where
  "parse_cmd hw s =
    (if libc_strncmp (''help'' @ [CHR 0x0D]) (buf s) 5 = 0
     then uart_write hw (''Just type and see what happens!'' @ [CHR 0x0A]) s
     else if libc_strncmp (''uname'' @ [CHR 0x0D]) (buf s) 6 = 0
     then uart_write hw (''bare-metal arm 06_uart'' @ [CHR 0x0A]) s
     else Returns s)"

text \<open>What the loop does with a received character, and one turn of the loop.\<close>

definition shell_char ::
  "hardware \<Rightarrow> char \<Rightarrow> 'a shell_state_scheme \<Rightarrow> 'a shell_state_scheme outcome" where
  "shell_char hw c s =
    bindO (uart_putchar hw c s) (\<lambda>s.
    let s = s\<lparr>buf := (buf s)[unat (buf_idx s) mod 64 := c]\<rparr>;
        s = s\<lparr>buf_idx := buf_idx s + 1\<rparr>
    in if c = CHR 0x0D
       then bindO (uart_write hw [CHR 0x0A] s) (\<lambda>s. parse_cmd hw (s\<lparr>buf_idx := 0\<rparr>))
       else Returns s)"

definition shell_poll :: "hardware \<Rightarrow> 'a shell_state_scheme \<Rightarrow> 'a shell_state_scheme outcome" where
  "shell_poll hw s =
    (case uart_getchar hw s of
       ((UART_OK, Some c), s) \<Rightarrow> shell_char hw c s
     | (_, s) \<Rightarrow> Returns s)"

text \<open>\<^verbatim>\<open>main\<close> up to its loop, and the state after \<open>n\<close> turns of it.\<close>

definition shell_init :: "hardware \<Rightarrow> 'a shell_state_scheme \<Rightarrow> 'a shell_state_scheme outcome" where
  "shell_init hw s =
    bindO (uart_configure_polled hw \<lparr>data_bits = 8, stop_bits = 1, parity = False, baudrate = 9600\<rparr> s) (\<lambda>(_, s).
    bindO (uart_putchar hw (CHR ''A'') s) (\<lambda>s.
    bindO (uart_putchar hw (CHR ''B'') s) (\<lambda>s.
    bindO (uart_putchar hw (CHR ''C'') s) (\<lambda>s.
    bindO (uart_putchar hw (CHR 0x0A) s) (\<lambda>s.
    bindO (uart_write hw (''I love drivers!'' @ [CHR 0x0A]) s) (\<lambda>s.
    uart_write hw (''Type below...'' @ [CHR 0x0A]) s))))))"

primrec shell_run :: "hardware \<Rightarrow> nat \<Rightarrow> 'a shell_state_scheme \<Rightarrow> 'a shell_state_scheme outcome" where
  "shell_run hw 0 s = Returns s"
| "shell_run hw (Suc n) s = bindO (shell_poll hw s) (shell_run hw n)"

section \<open>Lemmas\<close>

text \<open>A sequence of received characters.\<close>

primrec shell_chars :: "hardware \<Rightarrow> string \<Rightarrow> 'a shell_state_scheme \<Rightarrow> 'a shell_state_scheme outcome" where
  "shell_chars hw [] s = Returns s"
| "shell_chars hw (c # cs) s = bindO (shell_char hw c s) (shell_chars hw cs)"

definition reply :: "string \<Rightarrow> string" where
  "reply line =
    (if line = ''help'' then ''Just type and see what happens!'' @ [CHR 0x0A]
     else if line = ''uname'' then ''bare-metal arm 06_uart'' @ [CHR 0x0A] else [])"

definition shell_inv :: "'a shell_state_scheme \<Rightarrow> bool" where
  "shell_inv s \<longleftrightarrow> length (buf s) = 64"

lemma did_shell:
  assumes "did s ws s'"
  shows "buf s' = buf s" and "buf_idx s' = buf_idx s" and "shell_state.more s' = shell_state.more s"
  using assms by (cases s, cases s', simp add: did_def)+

lemma shell_chars_append:
  fixes s :: "'a shell_state_scheme"
  shows "shell_chars hw (cs @ ds) s = bindO (shell_chars hw cs s) (shell_chars hw ds)"
proof (induction cs arbitrary: s)
  case (Cons c cs)
  have "shell_chars hw (cs @ ds) = (\<lambda>s :: 'a shell_state_scheme. bindO (shell_chars hw cs s) (shell_chars hw ds))"
    by (intro ext Cons.IH)
  then show ?case by (simp add: bindO_assoc)
qed simp

lemma libc_strncmp_Cons_0:
  "libc_strncmp (c # s1) (d # s2) (Suc n) = 0 \<longleftrightarrow> c = d \<and> (c = CHR 0x00 \<or> libc_strncmp s1 s2 n = 0)"
  by simp

lemma libc_strncmp_CR:
  assumes "CHR 0x0D \<notin> set cmd" and "CHR 0x00 \<notin> set cmd" and "CHR 0x0D \<notin> set line"
  shows "libc_strncmp (cmd @ [CHR 0x0D]) (line @ CHR 0x0D # rest) (Suc (length cmd)) = 0 \<longleftrightarrow> line = cmd"
  using assms
proof (induction cmd arbitrary: line)
  case Nil
  then show ?case by (cases line) (auto simp: libc_strncmp_Cons_0 simp del: libc_strncmp.simps(5))
next
  case (Cons c cmd)
  then show ?case by (cases line) (auto simp: libc_strncmp_Cons_0 simp del: libc_strncmp.simps(5))
qed

lemma shell_char_other:
  assumes "tx_drains hw" and "c \<noteq> CHR 0x0D"
  obtains s' where "shell_char hw c s = Returns s'" and "writes (bus s') = writes (bus s) @ sends [c]"
    and "buf s' = (buf s)[unat (buf_idx s) mod 64 := c]" and "buf_idx s' = buf_idx s + 1"
proof -
  obtain t where t: "uart_putchar hw c s = Returns t" "did s (sends [c]) t"
    using uart_putchar_returns[OF assms(1)] by blast
  show thesis
  proof (rule that)
    show "shell_char hw c s = Returns (t\<lparr>buf := (buf t)[unat (buf_idx t) mod 64 := c], buf_idx := buf_idx t + 1\<rparr>)"
      using t(1) assms(2) by (simp add: shell_char_def Let_def)
  qed (use did_shell[OF t(2)] did_writes[OF t(2)] in simp_all)
qed

lemma shell_chars_line:
  assumes "tx_drains hw"
  shows "CHR 0x0D \<notin> set cs \<Longrightarrow> shell_inv s \<Longrightarrow> unat (buf_idx s) + length cs \<le> 64 \<Longrightarrow>
    \<exists>s'. shell_chars hw cs s = Returns s' \<and> writes (bus s') = writes (bus s) @ sends cs \<and> shell_inv s' \<and>
      unat (buf_idx s') = unat (buf_idx s) + length cs \<and>
      take (unat (buf_idx s')) (buf s') = take (unat (buf_idx s)) (buf s) @ cs"
proof (induction cs arbitrary: s)
  case Nil
  then show ?case by simp
next
  case (Cons c cs)
  obtain t where t: "shell_char hw c s = Returns t" "writes (bus t) = writes (bus s) @ sends [c]"
    "buf t = (buf s)[unat (buf_idx s) mod 64 := c]" "buf_idx t = buf_idx s + 1"
    using shell_char_other[OF assms, of c s] Cons.prems(1) by auto
  have i: "unat (buf_idx s) < 64" using Cons.prems(3) by simp
  then have it: "unat (buf_idx t) = Suc (unat (buf_idx s))" by (simp add: t(4) unat_plus_mod)
  have "shell_inv t" using Cons.prems(2) t(3) by (simp add: shell_inv_def)
  moreover have "take (unat (buf_idx t)) (buf t) = take (unat (buf_idx s)) (buf s) @ [c]"
    using i Cons.prems(2) by (simp add: it t(3) shell_inv_def take_Suc_conv_app_nth)
  moreover have "CHR 0x0D \<notin> set cs" "unat (buf_idx t) + length cs \<le> 64"
    using Cons.prems(1,3) it by simp_all
  ultimately obtain s' where "shell_chars hw cs t = Returns s'"
    "writes (bus s') = writes (bus t) @ sends cs" "shell_inv s'"
    "unat (buf_idx s') = unat (buf_idx t) + length cs"
    "take (unat (buf_idx s')) (buf s') = (take (unat (buf_idx s)) (buf s) @ [c]) @ cs"
    using Cons.IH[of t] by metis
  with t(1,2) it show ?case by (intro exI[of _ s']) simp
qed

lemma parse_cmd_replies:
  assumes "tx_drains hw" and "buf s = line @ CHR 0x0D # rest" and "CHR 0x0D \<notin> set line"
  shows "\<exists>s'. parse_cmd hw s = Returns s' \<and> did s (sends (reply line)) s'"
proof -
  have wr: "\<exists>s'. uart_write hw (cs @ [CHR 0x0A]) s = Returns s' \<and> did s (sends (cs @ [CHR 0x0A])) s'"
    if "CHR 0x00 \<notin> set cs" for cs
  proof -
    have "takeWhile (\<lambda>c. c \<noteq> CHR 0x00) (cs @ [CHR 0x0A]) = cs @ [CHR 0x0A]"
      using that by (auto simp: takeWhile_eq_all_conv)
    then show ?thesis using uart_write_returns[OF assms(1), of "cs @ [CHR 0x0A]" s] by simp
  qed
  have "libc_strncmp (''help'' @ [CHR 0x0D]) (buf s) 5 = 0 \<longleftrightarrow> line = ''help''"
    using libc_strncmp_CR[of "''help''" line rest] assms(2,3) by (simp add: numeral_eq_Suc)
  moreover have "libc_strncmp (''uname'' @ [CHR 0x0D]) (buf s) 6 = 0 \<longleftrightarrow> line = ''uname''"
    using libc_strncmp_CR[of "''uname''" line rest] assms(2,3) by (simp add: numeral_eq_Suc)
  ultimately show ?thesis
    unfolding parse_cmd_def reply_def
    using wr[of "''Just type and see what happens!''"] wr[of "''bare-metal arm 06_uart''"]
    by (simp del: sends_simps add: sends_simps(1))
qed

section \<open>Properties\<close>

text \<open>The line buffer before \<^verbatim>\<open>main\<close>.\<close>

definition shell_state0 :: shell_state where
  "shell_state0 = \<lparr>bus = [], interrupts_enabled = False, buf = replicate 64 (CHR 0x00), buf_idx = 0\<rparr>"

text \<open>
  C20. A line of fewer than 64 characters ended by a carriage return is echoed
  character by character, followed by a line feed and the reply of the command
  the line is; a line that is no command, whatever earlier lines left in the
  buffer, gets no reply. The buffer is then ready for the next line.
\<close>

theorem shell_line_replies:
  assumes "tx_drains hw" and "length (buf s) = 64" and "buf_idx s = 0"
    and "CHR 0x0D \<notin> set line" and "length line < 64"
  shows "\<exists>s'. shell_chars hw (line @ [CHR 0x0D]) s = Returns s' \<and>
    writes (bus s') = writes (bus s) @ sends (line @ [CHR 0x0D, CHR 0x0A] @ reply line) \<and>
    length (buf s') = 64 \<and> buf_idx s' = 0"
proof -
  have inv: "shell_inv s" using assms(2) by (simp add: shell_inv_def)
  have i: "unat (buf_idx s) + length line \<le> 64" "unat (buf_idx s) = 0" using assms(3,5) by simp_all
  obtain t where t: "shell_chars hw line s = Returns t" "writes (bus t) = writes (bus s) @ sends line"
    "length (buf t) = 64" "unat (buf_idx t) = length line" "take (length line) (buf t) = line"
    using shell_chars_line[OF assms(1,4) inv i(1)] unfolding shell_inv_def i(2) by (elim exE conjE) simp
  obtain u where u: "uart_putchar hw (CHR 0x0D) t = Returns u" "did t (sends [CHR 0x0D]) u"
    using uart_putchar_returns[OF assms(1)] by blast
  define v where "v = u\<lparr>buf := (buf t)[length line := CHR 0x0D], buf_idx := buf_idx t + 1\<rparr>"
  obtain w where w: "uart_write hw [CHR 0x0A] v = Returns w" "did v (sends [CHR 0x0A]) w"
    using uart_write_returns[OF assms(1), of "[CHR 0x0A]" v] by auto
  have "buf (w\<lparr>buf_idx := 0\<rparr>) = line @ CHR 0x0D # drop (Suc (length line)) (buf t)"
    using did_shell(1)[OF w(2)] t(3,5) assms(5) by (simp add: v_def upd_conv_take_nth_drop)
  from parse_cmd_replies[OF assms(1) this assms(4)] obtain s' where
    s': "parse_cmd hw (w\<lparr>buf_idx := 0\<rparr>) = Returns s'" "did (w\<lparr>buf_idx := 0\<rparr>) (sends (reply line)) s'"
    by blast
  have "shell_char hw (CHR 0x0D) t =
      bindO (uart_write hw [CHR 0x0A] v) (\<lambda>s. parse_cmd hw (s\<lparr>buf_idx := 0\<rparr>))"
    using did_shell(1,2)[OF u(2)] t(4) assms(5) by (simp add: shell_char_def u(1) v_def)
  with w(1) s'(1) have "shell_char hw (CHR 0x0D) t = Returns s'" by simp
  then have "shell_chars hw (line @ [CHR 0x0D]) s = Returns s'"
    using t(1) by (simp add: shell_chars_append)
  moreover have "writes (bus v) = writes (bus t) @ sends [CHR 0x0D]"
    using did_writes[OF u(2)] by (simp add: v_def)
  then have "writes (bus s') = writes (bus s) @ sends (line @ [CHR 0x0D, CHR 0x0A] @ reply line)"
    using t(2) did_writes[OF w(2)] did_writes[OF s'(2)] by (simp del: sends_simps(2))
      (simp only: sends_simps append.simps append_assoc)
  moreover have "buf_idx s' = 0" "length (buf s') = 64"
    using did_shell[OF s'(2)] did_shell(1)[OF w(2)] t(3) by (simp_all add: v_def)
  ultimately show ?thesis by blast
qed

theorem shell_line_replies_witness:
  "\<exists>s'. shell_chars idle_hw (''uname'' @ [CHR 0x0D]) shell_state0 = Returns s' \<and>
    writes (bus s') = sends (''uname'' @ [CHR 0x0D, CHR 0x0A] @ ''bare-metal arm 06_uart'' @ [CHR 0x0A])"
proof -
  have h: "tx_drains idle_hw" "length (buf shell_state0) = 64" "buf_idx shell_state0 = 0"
    "CHR 0x0D \<notin> set ''uname''" "length ''uname'' < 64" "writes (bus shell_state0) = []"
    by (simp_all add: tx_drains_def shell_state0_def)
  have r: "reply ''uname'' = ''bare-metal arm 06_uart'' @ [CHR 0x0A]" by (simp add: reply_def)
  show ?thesis using shell_line_replies[OF h(1-5)] unfolding r h(6) by (simp only: append_Nil) blast
qed

end
