(* ===== verification/Startup.thy ===== *)
theory Startup
  imports Prelude
begin

text \<open>
  The reset code (\<^verbatim>\<open>startup.s\<close>) and the memory layout (\<^verbatim>\<open>linkscript.ld\<close>) of
  08_scheduler. Memory is a function from the addresses of 32-bit words; the
  loops compare addresses as signed numbers, as \<^verbatim>\<open>blt\<close> does.
\<close>

section \<open>Layout\<close>

text \<open>
  The symbols the linker script defines, from the sizes of the three sections
  (the script pads \<^verbatim>\<open>.data\<close> and \<^verbatim>\<open>.bss\<close> to multiples of eight).
\<close>

record layout =
  text_size :: nat
  data_size :: nat
  bss_size :: nat

definition text_end :: "layout \<Rightarrow> u32" where "text_end L = 0x60000000 + of_nat (text_size L)"
definition data_start :: "layout \<Rightarrow> u32" where "data_start L = 0x70000000"
definition data_end :: "layout \<Rightarrow> u32" where "data_end L = data_start L + of_nat (data_size L)"
definition bss_start :: "layout \<Rightarrow> u32" where "bss_start L = data_end L"
definition bss_end :: "layout \<Rightarrow> u32" where "bss_end L = bss_start L + of_nat (bss_size L)"
definition fiq_stack_start :: "layout \<Rightarrow> u32" where "fiq_stack_start L = bss_start L + of_nat (bss_size L)"
definition fiq_stack_end :: "layout \<Rightarrow> u32" where "fiq_stack_end L = fiq_stack_start L + 0x1000"
definition irq_stack_start :: "layout \<Rightarrow> u32" where "irq_stack_start L = fiq_stack_end L"
definition irq_stack_end :: "layout \<Rightarrow> u32" where "irq_stack_end L = irq_stack_start L + 0x1000"
definition usr_stack_start :: "layout \<Rightarrow> u32" where "usr_stack_start L = irq_stack_end L"
definition usr_stack_end :: "layout \<Rightarrow> u32" where "usr_stack_end L = usr_stack_start L + 0x1000"
definition stack_start :: "layout \<Rightarrow> u32" where "stack_start L = usr_stack_end L"
definition stack_end :: "layout \<Rightarrow> u32" where "stack_end L = stack_start L + 0x1000"

section \<open>Reset code\<close>

type_synonym memory = "u32 \<Rightarrow> u32"

datatype vector = Reset_Handler | Abort_Exception | self_loop | irq_handler_vector

text \<open>The branches of the vector table, from offset 0 in steps of four.\<close>

definition vector_table :: "vector list" where
  "vector_table = [Reset_Handler, Abort_Exception, self_loop, Abort_Exception, Abort_Exception,
     self_loop, irq_handler_vector, self_loop]"

record machine =
  mem :: memory
  vbar :: u32
  cpsr_mode :: u32
  cpsr_if_masked :: bool
  sp_fiq :: u32
  sp_irq :: u32
  sp_svc :: u32

text \<open>
  The loops \<^verbatim>\<open>fiq_loop\<close>, \<^verbatim>\<open>irq_loop\<close>, \<^verbatim>\<open>stack_loop\<close> and \<^verbatim>\<open>bss_loop\<close>:
  compare, store and post-increment when less, repeat when less.
\<close>

partial_function (option) fill_loop :: "u32 \<Rightarrow> u32 \<Rightarrow> u32 \<Rightarrow> memory \<Rightarrow> memory option" where
  "fill_loop r0 r1 lim mm =
    (if sint r1 < sint lim then fill_loop r0 (r1 + 4) lim (mm(r1 := r0)) else Some mm)"

text \<open>The loop \<^verbatim>\<open>data_loop\<close>.\<close>

partial_function (option) data_loop :: "u32 \<Rightarrow> u32 \<Rightarrow> u32 \<Rightarrow> memory \<Rightarrow> memory option" where
  "data_loop r0 r1 r2 mm =
    (if sint r1 < sint r2 then data_loop (r0 + 4) (r1 + 4) r2 (mm(r1 := mm r0)) else Some mm)"

text \<open>
  From reset to the branch to \<^verbatim>\<open>main\<close>. Writing a mode to \<^verbatim>\<open>cpsr_c\<close> also clears
  the two interrupt mask bits; \<^verbatim>\<open>cpsid if\<close> sets them.
\<close>

definition reset_handler :: "layout \<Rightarrow> machine \<Rightarrow> machine option" where
  "reset_handler L s =
    (let s = s\<lparr>vbar := 0x60000000\<rparr>;
         s = s\<lparr>cpsr_mode := 0x11, cpsr_if_masked := False\<rparr>;
         s = s\<lparr>sp_fiq := fiq_stack_end L\<rparr>
     in case fill_loop 0xFEFEFEFE (fiq_stack_start L) (sp_fiq s) (mem s) of None \<Rightarrow> None | Some mm \<Rightarrow>
     let s = s\<lparr>mem := mm\<rparr>;
         s = s\<lparr>cpsr_mode := 0x12, cpsr_if_masked := False\<rparr>;
         s = s\<lparr>sp_irq := irq_stack_end L\<rparr>
     in case fill_loop 0xFEFEFEFE (irq_stack_start L) (sp_irq s) (mem s) of None \<Rightarrow> None | Some mm \<Rightarrow>
     let s = s\<lparr>mem := mm\<rparr>;
         s = s\<lparr>cpsr_mode := 0x13, cpsr_if_masked := False\<rparr>;
         s = s\<lparr>sp_svc := stack_end L\<rparr>
     in case fill_loop 0xFEFEFEFE (stack_start L) (sp_svc s) (mem s) of None \<Rightarrow> None | Some mm \<Rightarrow>
     case data_loop (text_end L) (data_start L) (data_end L) mm of None \<Rightarrow> None | Some mm \<Rightarrow>
     case fill_loop 0 (bss_start L) (bss_end L) mm of None \<Rightarrow> None | Some mm \<Rightarrow>
     Some (s\<lparr>mem := mm, cpsr_if_masked := True\<rparr>))"

section \<open>Lemmas\<close>

text \<open>The word addresses from \<open>a\<close> for \<open>n\<close> words.\<close>

definition words :: "nat \<Rightarrow> nat \<Rightarrow> u32 set" where
  "words a n = (\<lambda>i. of_nat (a + 4 * i)) ` {..<n}"

lemma sint_of_nat: "a < 2 ^ 31 \<Longrightarrow> sint (of_nat a :: u32) = int a"
  by (simp add: signed_of_nat signed_take_bit_int_eq_self)

lemma of_nat_inj: "a < 2 ^ 31 \<Longrightarrow> b < 2 ^ 31 \<Longrightarrow> (of_nat a :: u32) = of_nat b \<longleftrightarrow> a = b"
  by (simp add: word_of_nat_eq_small)

lemma words_Suc: "words a (Suc n) = insert (of_nat a) (words (a + 4) n)"
  by (force simp: words_def lessThan_Suc_eq_insert_0 image_image)

lemma in_words:
  assumes "a + 4 * n \<le> 2 ^ 31" and "b < 2 ^ 31"
  shows "of_nat b \<in> words a n \<longleftrightarrow> (\<exists>i < n. b = a + 4 * i)"
proof -
  have "(of_nat b :: u32) = of_nat (a + 4 * i) \<longleftrightarrow> b = a + 4 * i" if "i < n" for i
    using that assms by (intro of_nat_inj) simp_all
  then show ?thesis unfolding words_def by blast
qed

lemma fill_loop_words:
  "a + 4 * n < 2 ^ 31 \<Longrightarrow> fill_loop v (of_nat a) (of_nat (a + 4 * n)) mm =
    Some (\<lambda>x. if x \<in> words a n then v else mm x)"
proof (induction n arbitrary: a mm)
  case 0
  then show ?case by (simp add: fill_loop.simps[of v "of_nat a"] words_def)
next
  case (Suc n)
  have l: "sint (of_nat a :: u32) < sint (of_nat (a + 4 * Suc n) :: u32)"
    using Suc.prems by (simp only: sint_of_nat) simp
  have "fill_loop v (of_nat a) (of_nat (a + 4 * Suc n)) mm =
      fill_loop v (of_nat (a + 4)) (of_nat ((a + 4) + 4 * n)) (mm(of_nat a := v))"
    by (subst fill_loop.simps) (simp only: l if_True, simp add: algebra_simps)
  also have "\<dots> = Some (\<lambda>x. if x \<in> words (a + 4) n then v else (mm(of_nat a := v)) x)"
    using Suc.prems by (intro Suc.IH) simp
  finally show ?case by (auto simp: words_Suc fun_eq_iff)
qed

lemma data_loop_words:
  "a + 4 * n \<le> d \<Longrightarrow> d + 4 * n < 2 ^ 31 \<Longrightarrow>
    \<exists>mm'. data_loop (of_nat a) (of_nat d) (of_nat (d + 4 * n)) mm = Some mm' \<and>
      (\<forall>i < n. mm' (of_nat (d + 4 * i)) = mm (of_nat (a + 4 * i))) \<and>
      (\<forall>x. x \<notin> words d n \<longrightarrow> mm' x = mm x)"
proof (induction n arbitrary: a d mm)
  case 0
  then show ?case by (simp add: data_loop.simps[of "of_nat a"])
next
  case (Suc n)
  have l: "sint (of_nat d :: u32) < sint (of_nat (d + 4 * Suc n) :: u32)"
    using Suc.prems by (simp only: sint_of_nat) simp
  define m1 where "m1 = mm(of_nat d := mm (of_nat a))"
  have step: "data_loop (of_nat a) (of_nat d) (of_nat (d + 4 * Suc n)) mm =
      data_loop (of_nat (a + 4)) (of_nat (d + 4)) (of_nat ((d + 4) + 4 * n)) m1"
    unfolding m1_def by (subst data_loop.simps) (simp only: l if_True, simp add: algebra_simps)
  obtain m2 where m2: "data_loop (of_nat (a + 4)) (of_nat (d + 4)) (of_nat ((d + 4) + 4 * n)) m1 = Some m2"
    "\<forall>i < n. m2 (of_nat ((d + 4) + 4 * i)) = m1 (of_nat ((a + 4) + 4 * i))"
    "\<forall>x. x \<notin> words (d + 4) n \<longrightarrow> m2 x = m1 x"
    using Suc.IH[of "a + 4" "d + 4" m1] Suc.prems by auto
  have "of_nat d \<notin> words (d + 4) n" using Suc.prems by (subst in_words) auto
  then have first: "m2 (of_nat d) = mm (of_nat a)" using m2(3) by (simp add: m1_def)
  have "m2 (of_nat (d + 4 * i)) = mm (of_nat (a + 4 * i))" if "i < Suc n" for i
  proof (cases i)
    case (Suc j)
    have "(of_nat (a + 4 * i) :: u32) = of_nat d \<longleftrightarrow> a + 4 * i = d"
      using Suc.prems that by (intro of_nat_inj) simp_all
    then have "m1 (of_nat (a + 4 * i)) = mm (of_nat (a + 4 * i))"
      using Suc.prems that by (simp add: m1_def del: of_nat_add of_nat_mult)
    moreover have "d + 4 * i = (d + 4) + 4 * j" "a + 4 * i = (a + 4) + 4 * j" using Suc by simp_all
    ultimately show ?thesis using m2(2) that Suc by (metis Suc_less_SucD)
  qed (use first in simp)
  moreover have "m2 x = mm x" if "x \<notin> words d (Suc n)" for x
    using m2(3) that by (simp add: m1_def words_Suc)
  ultimately show ?case using step m2(1) by auto
qed

text \<open>A layout that fits the two memories, with word-sized text and padded data.\<close>

definition fits :: "layout \<Rightarrow> bool" where
  "fits L \<longleftrightarrow> 4 dvd text_size L \<and> 8 dvd data_size L \<and> 8 dvd bss_size L \<and>
     text_size L + data_size L \<le> 2 ^ 20 \<and> data_size L + bss_size L + 0x4000 \<le> 2 ^ 25"

definition fiq_base :: "layout \<Rightarrow> nat" where
  "fiq_base L = 0x70000000 + data_size L + bss_size L"

lemma layout_addresses:
  "text_end L = of_nat (0x60000000 + text_size L)" "data_start L = of_nat 0x70000000"
  "data_end L = of_nat (0x70000000 + data_size L)" "bss_start L = of_nat (0x70000000 + data_size L)"
  "bss_end L = of_nat (fiq_base L)" "fiq_stack_start L = of_nat (fiq_base L)"
  "fiq_stack_end L = of_nat (fiq_base L + 4 * 0x400)" "irq_stack_start L = of_nat (fiq_base L + 0x1000)"
  "irq_stack_end L = of_nat (fiq_base L + 0x1000 + 4 * 0x400)" "stack_start L = of_nat (fiq_base L + 0x3000)"
  "stack_end L = of_nat (fiq_base L + 0x3000 + 4 * 0x400)"
  by (simp_all add: text_end_def data_start_def data_end_def bss_start_def bss_end_def
      fiq_stack_start_def fiq_stack_end_def irq_stack_start_def irq_stack_end_def usr_stack_start_def
      usr_stack_end_def stack_start_def stack_end_def fiq_base_def)

lemma reset_handler_runs:
  assumes "fits L"
  shows "\<exists>s'. reset_handler L s = Some s' \<and> cpsr_if_masked s' \<and> cpsr_mode s' = 0x13 \<and> vbar s' = 0x60000000 \<and>
    sp_fiq s' = fiq_stack_end L \<and> sp_irq s' = irq_stack_end L \<and> sp_svc s' = stack_end L \<and>
    (\<exists>mm'. (\<forall>i < data_size L div 4. mm' (of_nat (0x70000000 + 4 * i)) = mem s (of_nat (0x60000000 + text_size L + 4 * i))) \<and>
      (\<forall>x. x \<notin> words 0x70000000 (data_size L div 4) \<longrightarrow> mm' x =
        (if x \<in> words (fiq_base L + 0x3000) 0x400 \<union> words (fiq_base L + 0x1000) 0x400 \<union> words (fiq_base L) 0x400
         then 0xFEFEFEFE else mem s x)) \<and>
      mem s' = (\<lambda>x. if x \<in> words (0x70000000 + data_size L) (bss_size L div 4) then 0 else mm' x))"
proof -
  define nd nb where "nd = data_size L div 4" and "nb = bss_size L div 4"
  have d: "data_size L = 4 * nd" "bss_size L = 4 * nb"
    using assms by (auto simp: fits_def nd_def nb_def elim!: dvdE)
  have sz: "text_size L + data_size L \<le> 1048576" "data_size L + bss_size L + 16384 \<le> 33554432"
    using assms by (simp_all add: fits_def)
  have fb: "fiq_base L + 0x4000 < 2 ^ 31" using sz by (simp add: fiq_base_def)
  define m1 where "m1 = (\<lambda>x. if x \<in> words (fiq_base L) 0x400 then 0xFEFEFEFE else mem s x)"
  define m2 where "m2 = (\<lambda>x. if x \<in> words (fiq_base L + 0x1000) 0x400 then 0xFEFEFEFE else m1 x)"
  define m3 where "m3 = (\<lambda>x. if x \<in> words (fiq_base L + 0x3000) 0x400 then 0xFEFEFEFE else m2 x)"
  have f1: "fill_loop 0xFEFEFEFE (fiq_stack_start L) (fiq_stack_end L) (mem s) = Some m1"
    unfolding layout_addresses m1_def using fb by (intro fill_loop_words) simp
  have f2: "fill_loop 0xFEFEFEFE (irq_stack_start L) (irq_stack_end L) m1 = Some m2"
    unfolding layout_addresses m2_def using fb by (intro fill_loop_words) simp
  have f3: "fill_loop 0xFEFEFEFE (stack_start L) (stack_end L) m2 = Some m3"
    unfolding layout_addresses m3_def using fb by (intro fill_loop_words) simp
  obtain mm' where mm': "data_loop (text_end L) (data_start L) (data_end L) m3 = Some mm'"
    "\<forall>i < nd. mm' (of_nat (0x70000000 + 4 * i)) = m3 (of_nat (0x60000000 + text_size L + 4 * i))"
    "\<forall>x. x \<notin> words 0x70000000 nd \<longrightarrow> mm' x = m3 x"
    using data_loop_words[of "0x60000000 + text_size L" nd "0x70000000" m3] sz d
    unfolding layout_addresses by auto
  have f5: "fill_loop 0 (bss_start L) (bss_end L) mm' =
      Some (\<lambda>x. if x \<in> words (0x70000000 + data_size L) nb then 0 else mm' x)"
    using fill_loop_words[of "0x70000000 + data_size L" nb 0 mm'] fb d
    unfolding layout_addresses fiq_base_def by simp
  have src: "m3 (of_nat (0x60000000 + text_size L + 4 * i)) = mem s (of_nat (0x60000000 + text_size L + 4 * i))"
    if "i < nd" for i
  proof -
    have "of_nat (0x60000000 + text_size L + 4 * i) \<notin> words (fiq_base L + k) 0x400" if "k \<le> 0x3000" for k
      using that \<open>i < nd\<close> sz d fb by (subst in_words) (simp_all add: fiq_base_def)
    from this[of 0] this[of "0x1000"] this[of "0x3000"] show ?thesis by (simp add: m1_def m2_def m3_def)
  qed
  have "m3 x = (if x \<in> words (fiq_base L + 0x3000) 0x400 \<union> words (fiq_base L + 0x1000) 0x400 \<union> words (fiq_base L) 0x400
         then 0xFEFEFEFE else mem s x)" for x
    by (simp add: m1_def m2_def m3_def)
  with mm'(2,3) src have cells: "\<forall>i < nd. mm' (of_nat (0x70000000 + 4 * i)) = mem s (of_nat (0x60000000 + text_size L + 4 * i))"
    "\<forall>x. x \<notin> words 0x70000000 nd \<longrightarrow> mm' x =
      (if x \<in> words (fiq_base L + 0x3000) 0x400 \<union> words (fiq_base L + 0x1000) 0x400 \<union> words (fiq_base L) 0x400
       then 0xFEFEFEFE else mem s x)"
    by simp_all
  define s' where "s' = s\<lparr>mem := \<lambda>x. if x \<in> words (0x70000000 + data_size L) nb then 0 else mm' x,
    vbar := 0x60000000, cpsr_mode := 0x13, cpsr_if_masked := True, sp_fiq := fiq_stack_end L,
    sp_irq := irq_stack_end L, sp_svc := stack_end L\<rparr>"
  have "reset_handler L s = Some s'"
    unfolding reset_handler_def Let_def by (simp add: f1 f2 f3 mm'(1) f5 s'_def)
  moreover have "mem s' = (\<lambda>x. if x \<in> words (0x70000000 + data_size L) nb then 0 else mm' x)"
    "cpsr_if_masked s'" "cpsr_mode s' = 0x13" "vbar s' = 0x60000000" "sp_fiq s' = fiq_stack_end L"
    "sp_irq s' = irq_stack_end L" "sp_svc s' = stack_end L"
    by (simp_all add: s'_def)
  ultimately show ?thesis
    unfolding nd_def[symmetric] nb_def[symmetric] using cells by blast
qed

section \<open>Properties\<close>



end
