(* ===== verification/Ram.thy ===== *)
theory Ram
  imports Prelude
begin

unbundle bit_operations_syntax

text \<open>
  Memory as the U-Boot library code sees it: bytes at natural-number addresses,
  little-endian words, NUL-terminated strings and blocks. Address 0 is \<^verbatim>\<open>NULL\<close>.
  The objects the code touches are taken not to wrap around the end of the
  address space, so addresses are not reduced modulo \<open>2 ^ 32\<close>.
\<close>

section \<open>Bytes and words\<close>

type_synonym ram = "nat \<Rightarrow> u8"

definition NULL :: nat where "NULL = 0"

definition load32 :: "ram \<Rightarrow> nat \<Rightarrow> u32" where
  "load32 m a = ucast (m a) OR push_bit 8 (ucast (m (a + 1))) OR
     push_bit 16 (ucast (m (a + 2))) OR push_bit 24 (ucast (m (a + 3)))"

definition store32 :: "ram \<Rightarrow> nat \<Rightarrow> u32 \<Rightarrow> ram" where
  "store32 m a w = m(a := ucast w, a + 1 := ucast (drop_bit 8 w),
     a + 2 := ucast (drop_bit 16 w), a + 3 := ucast (drop_bit 24 w))"

definition load64 :: "ram \<Rightarrow> nat \<Rightarrow> u64" where
  "load64 m a = ucast (load32 m a) OR push_bit 32 (ucast (load32 m (a + 4)))"

text \<open>The bytes of a little-endian word.\<close>

definition byte32 :: "u32 \<Rightarrow> nat \<Rightarrow> u8" where
  "byte32 w i = ucast (drop_bit (8 * i) w)"

lemma upt_16: "[0..<16] = [0, 1, 2, 3, 4, 5, 6, 7, 8, 9, 10, 11, 12, 13, 14, 15 :: nat]"
  by (simp add: upt_rec)

lemma less_4_cases: "(i :: nat) < 4 \<Longrightarrow> i = 0 \<or> i = 1 \<or> i = 2 \<or> i = 3"
  by auto

lemma bit_u8_ge: "8 \<le> n \<Longrightarrow> \<not> bit (w :: u8) n"
  by (auto dest: bit_imp_le_length)

lemma byte32_load32: "i < 4 \<Longrightarrow> byte32 (load32 m a) i = m (a + i)"
proof (rule bit_word_eqI)
  fix n assume "i < 4" "n < LENGTH(8)"
  then show "bit (byte32 (load32 m a) i) n = bit (m (a + i)) n"
    by (auto dest!: less_4_cases simp: byte32_def load32_def bit_simps bit_u8_ge)
qed

lemma bit_load32: "n < 32 \<Longrightarrow> bit (load32 m a) n \<longleftrightarrow> bit (m (a + n div 8)) (n mod 8)"
proof -
  assume n: "n < 32"
  then have "m (a + n div 8) = byte32 (load32 m a) (n div 8)" by (simp add: byte32_load32)
  then show ?thesis using n by (simp add: byte32_def bit_simps)
qed

lemma store32_at:
  "store32 m a w x = (if a \<le> x \<and> x < a + 4 then byte32 w (x - a) else m x)"
proof (cases "a \<le> x \<and> x < a + 4")
  case True
  then have "x = a + (x - a)" "x - a < 4" by auto
  then obtain i where "x = a + i" "i < 4" by blast
  then show ?thesis by (auto dest!: less_4_cases simp: store32_def byte32_def)
qed (auto simp: store32_def)

lemma store32_load32:
  "store32 m a (load32 m b) = (\<lambda>x. if a \<le> x \<and> x < a + 4 then m (b + (x - a)) else m x)"
  by (auto simp: store32_at fun_eq_iff byte32_load32)

section \<open>Strings\<close>

text \<open>\<open>cstr m a s\<close>: the bytes \<open>s\<close>, none of them NUL, followed by a NUL, are at \<open>a\<close>.\<close>

primrec cstr :: "ram \<Rightarrow> nat \<Rightarrow> u8 list \<Rightarrow> bool" where
  "cstr m a [] \<longleftrightarrow> m a = 0"
| "cstr m a (c # s) \<longleftrightarrow> m a = c \<and> c \<noteq> 0 \<and> cstr m (Suc a) s"

lemma cstr_append: "cstr m a (s @ t) \<longleftrightarrow>
    (\<forall>i < length s. m (a + i) = s ! i \<and> s ! i \<noteq> 0) \<and> cstr m (a + length s) t"
  by (induction s arbitrary: a) (auto simp: less_Suc_eq_0_disj)

lemma cstr_nth: "cstr m a s \<Longrightarrow> i < length s \<Longrightarrow> m (a + i) = s ! i"
  using cstr_append[of m a s "[]"] by simp

lemma cstr_nonzero: "cstr m a s \<Longrightarrow> 0 \<notin> set s"
  by (induction s arbitrary: a) auto

lemma cstr_end: "cstr m a s \<Longrightarrow> m (a + length s) = 0"
  using cstr_append[of m a s "[]"] by simp

lemma cstr_drop: "cstr m a s \<Longrightarrow> i \<le> length s \<Longrightarrow> cstr m (a + i) (drop i s)"
  using cstr_append[of m a "take i s" "drop i s"] by (simp add: min_absorb2)

lemma cstrI:
  "(\<And>i. i < length s \<Longrightarrow> m (a + i) = s ! i) \<Longrightarrow> 0 \<notin> set s \<Longrightarrow> m (a + length s) = 0 \<Longrightarrow> cstr m a s"
  using cstr_append[of m a s "[]"] by (auto simp: in_set_conv_nth)

lemma cstr_unique: "cstr m a s \<Longrightarrow> cstr m a t \<Longrightarrow> s = t"
proof (induction s arbitrary: a t)
  case Nil
  then show ?case by (cases t) auto
next
  case (Cons c s)
  then show ?case by (cases t) auto
qed

lemma cstr_cong: "(\<And>i. i \<le> length s \<Longrightarrow> m (a + i) = m' (a + i)) \<Longrightarrow> cstr m a s = cstr m' a s"
proof (induction s arbitrary: a)
  case Nil
  then show ?case by (metis add.right_neutral cstr.simps(1) le_zero_eq list.size(3))
next
  case (Cons c s)
  from Cons.prems[of 0] have "m a = m' a" by simp
  moreover from Cons.prems[of "Suc _"] have "cstr m (Suc a) s = cstr m' (Suc a) s"
    by (intro Cons.IH) simp
  ultimately show ?case by simp
qed

section \<open>Blocks\<close>

definition block :: "ram \<Rightarrow> nat \<Rightarrow> nat \<Rightarrow> u8 list" where
  "block m a n = map m [a..<a + n]"

lemma length_block [simp]: "length (block m a n) = n"
  by (simp add: block_def)

lemma nth_block [simp]: "i < n \<Longrightarrow> block m a n ! i = m (a + i)"
  by (simp add: block_def)

lemma block_0 [simp]: "block m a 0 = []"
  by (simp add: block_def)

lemma block_Suc: "block m a (Suc n) = m a # block m (Suc a) n"
  by (simp add: block_def upt_conv_Cons del: upt_Suc)

lemma block_add: "block m a (n + k) = block m a n @ block m (a + n) k"
  by (induction n arbitrary: a) (simp_all add: block_Suc)

lemma block_eqI: "(\<And>i. i < n \<Longrightarrow> m (a + i) = m' (b + i)) \<Longrightarrow> block m a n = block m' b n"
  by (rule nth_equalityI) simp_all

lemma block_cstr: "cstr m a s \<Longrightarrow> block m a (length s) = s"
  by (rule nth_equalityI) (simp_all add: cstr_nth)

text \<open>Memory after a block was copied from the memory \<open>m0\<close>.\<close>

definition copied :: "ram \<Rightarrow> nat \<Rightarrow> nat \<Rightarrow> nat \<Rightarrow> ram" where
  "copied m dest src n = (\<lambda>x. if dest \<le> x \<and> x < dest + n then m (src + (x - dest)) else m x)"

lemma copied_0 [simp]: "copied m d s 0 = m"
  by (rule ext) (auto simp: copied_def)

lemma copied_same [simp]: "copied m d d n = m"
  by (rule ext) (simp add: copied_def)

lemma block_copied: "block (copied m d s n) d n = block m s n"
  by (rule block_eqI) (simp add: copied_def)

lemma block_frame: "(\<And>x. a \<le> x \<Longrightarrow> x < a + n \<Longrightarrow> m' x = m x) \<Longrightarrow> block m' a n = block m a n"
  by (rule block_eqI) simp

lemma block_split: "a \<le> b \<Longrightarrow> b \<le> c \<Longrightarrow> block m a (c - a) = block m a (b - a) @ block m b (c - b)"
  using block_add[of m a "b - a" "c - b"] by simp

text \<open>Areas that do not overlap, and a list of bytes stored in the memory.\<close>

definition apart :: "nat \<Rightarrow> nat \<Rightarrow> nat \<Rightarrow> nat \<Rightarrow> bool" where
  "apart a n b k \<longleftrightarrow> a + n \<le> b \<or> b + k \<le> a"

definition write_block :: "ram \<Rightarrow> nat \<Rightarrow> u8 list \<Rightarrow> ram" where
  "write_block m a bs = (\<lambda>x. if a \<le> x \<and> x < a + length bs then bs ! (x - a) else m x)"

lemma block_write [simp]: "length bs = n \<Longrightarrow> block (write_block m a bs) a n = bs"
  by (rule nth_equalityI) (simp_all add: write_block_def)

lemma block_write_apart: "apart a (length bs) b n \<Longrightarrow> block (write_block m a bs) b n = block m b n"
  by (rule block_eqI) (auto simp: write_block_def apart_def)

end
