(* ===== verification/Ctype.thy ===== *)
theory Ctype
  imports Prelude
begin

unbundle bit_operations_syntax

text \<open>
  Character classification of U-Boot (\<^verbatim>\<open>lib/ctype.c\<close>, \<^verbatim>\<open>include/linux/ctype.h\<close>): the
  table of class bits and the predicates that read it. Characters are bytes, as
  \<^verbatim>\<open>char\<close> is unsigned on ARM.
\<close>

section \<open>Table\<close>

definition CT_U :: u8 where "CT_U = 0x01"
definition CT_L :: u8 where "CT_L = 0x02"
definition CT_D :: u8 where "CT_D = 0x04"
definition CT_C :: u8 where "CT_C = 0x08"
definition CT_P :: u8 where "CT_P = 0x10"
definition CT_S :: u8 where "CT_S = 0x20"
definition CT_X :: u8 where "CT_X = 0x40"
definition CT_SP :: u8 where "CT_SP = 0x80"

lemmas class_bits = CT_U_def CT_L_def CT_D_def CT_C_def CT_P_def CT_S_def CT_X_def CT_SP_def

definition ctype_table :: "u8 list" where
  "ctype_table =
    [CT_C,CT_C,CT_C,CT_C,CT_C,CT_C,CT_C,CT_C,
     CT_C,CT_C OR CT_S,CT_C OR CT_S,CT_C OR CT_S,CT_C OR CT_S,CT_C OR CT_S,CT_C,CT_C,
     CT_C,CT_C,CT_C,CT_C,CT_C,CT_C,CT_C,CT_C,
     CT_C,CT_C,CT_C,CT_C,CT_C,CT_C,CT_C,CT_C,
     CT_S OR CT_SP,CT_P,CT_P,CT_P,CT_P,CT_P,CT_P,CT_P,
     CT_P,CT_P,CT_P,CT_P,CT_P,CT_P,CT_P,CT_P,
     CT_D,CT_D,CT_D,CT_D,CT_D,CT_D,CT_D,CT_D,
     CT_D,CT_D,CT_P,CT_P,CT_P,CT_P,CT_P,CT_P,
     CT_P,CT_U OR CT_X,CT_U OR CT_X,CT_U OR CT_X,CT_U OR CT_X,CT_U OR CT_X,CT_U OR CT_X,CT_U,
     CT_U,CT_U,CT_U,CT_U,CT_U,CT_U,CT_U,CT_U,
     CT_U,CT_U,CT_U,CT_U,CT_U,CT_U,CT_U,CT_U,
     CT_U,CT_U,CT_U,CT_P,CT_P,CT_P,CT_P,CT_P,
     CT_P,CT_L OR CT_X,CT_L OR CT_X,CT_L OR CT_X,CT_L OR CT_X,CT_L OR CT_X,CT_L OR CT_X,CT_L,
     CT_L,CT_L,CT_L,CT_L,CT_L,CT_L,CT_L,CT_L,
     CT_L,CT_L,CT_L,CT_L,CT_L,CT_L,CT_L,CT_L,
     CT_L,CT_L,CT_L,CT_P,CT_P,CT_P,CT_P,CT_C,
     0,0,0,0,0,0,0,0,0,0,0,0,0,0,0,0,
     0,0,0,0,0,0,0,0,0,0,0,0,0,0,0,0,
     CT_S OR CT_SP,CT_P,CT_P,CT_P,CT_P,CT_P,CT_P,CT_P,CT_P,CT_P,CT_P,CT_P,CT_P,CT_P,CT_P,CT_P,
     CT_P,CT_P,CT_P,CT_P,CT_P,CT_P,CT_P,CT_P,CT_P,CT_P,CT_P,CT_P,CT_P,CT_P,CT_P,CT_P,
     CT_U,CT_U,CT_U,CT_U,CT_U,CT_U,CT_U,CT_U,CT_U,CT_U,CT_U,CT_U,CT_U,CT_U,CT_U,CT_U,
     CT_U,CT_U,CT_U,CT_U,CT_U,CT_U,CT_U,CT_P,CT_U,CT_U,CT_U,CT_U,CT_U,CT_U,CT_U,CT_L,
     CT_L,CT_L,CT_L,CT_L,CT_L,CT_L,CT_L,CT_L,CT_L,CT_L,CT_L,CT_L,CT_L,CT_L,CT_L,CT_L,
     CT_L,CT_L,CT_L,CT_L,CT_L,CT_L,CT_L,CT_P,CT_L,CT_L,CT_L,CT_L,CT_L,CT_L,CT_L,CT_L]"

definition ismask :: "u8 \<Rightarrow> u8" where "ismask x = ctype_table ! unat x"

section \<open>Predicates\<close>

definition isalnum :: "u8 \<Rightarrow> bool" where "isalnum c \<longleftrightarrow> ismask c AND (CT_U OR CT_L OR CT_D) \<noteq> 0"
definition isalpha :: "u8 \<Rightarrow> bool" where "isalpha c \<longleftrightarrow> ismask c AND (CT_U OR CT_L) \<noteq> 0"
definition iscntrl :: "u8 \<Rightarrow> bool" where "iscntrl c \<longleftrightarrow> ismask c AND CT_C \<noteq> 0"
definition isdigit :: "u8 \<Rightarrow> bool" where "isdigit c \<longleftrightarrow> ismask c AND CT_D \<noteq> 0"
definition isgraph :: "u8 \<Rightarrow> bool" where "isgraph c \<longleftrightarrow> ismask c AND (CT_P OR CT_U OR CT_L OR CT_D) \<noteq> 0"
definition islower :: "u8 \<Rightarrow> bool" where "islower c \<longleftrightarrow> ismask c AND CT_L \<noteq> 0"
definition isprint :: "u8 \<Rightarrow> bool" where "isprint c \<longleftrightarrow> ismask c AND (CT_P OR CT_U OR CT_L OR CT_D OR CT_SP) \<noteq> 0"
definition ispunct :: "u8 \<Rightarrow> bool" where "ispunct c \<longleftrightarrow> ismask c AND CT_P \<noteq> 0"
definition isspace :: "u8 \<Rightarrow> bool" where "isspace c \<longleftrightarrow> ismask c AND CT_S \<noteq> 0"
definition isupper :: "u8 \<Rightarrow> bool" where "isupper c \<longleftrightarrow> ismask c AND CT_U \<noteq> 0"
definition isxdigit :: "u8 \<Rightarrow> bool" where "isxdigit c \<longleftrightarrow> ismask c AND (CT_D OR CT_X) \<noteq> 0"
definition isblank :: "u8 \<Rightarrow> bool" where "isblank c \<longleftrightarrow> c = 32 \<or> c = 9"
definition isascii :: "u8 \<Rightarrow> bool" where "isascii c \<longleftrightarrow> c \<le> 0x7F"
definition toascii :: "u8 \<Rightarrow> u8" where "toascii c = c AND 0x7F"

definition tolower :: "u8 \<Rightarrow> u8" where "tolower c = (if isupper c then c - (65 - 97) else c)"
definition toupper :: "u8 \<Rightarrow> u8" where "toupper c = (if islower c then c - (97 - 65) else c)"

lemmas class_defs = isalnum_def isalpha_def iscntrl_def isdigit_def isgraph_def islower_def isprint_def
  ispunct_def isspace_def isupper_def isxdigit_def ismask_def

section \<open>Lemmas\<close>

lemma length_ctype_table [simp]: "length ctype_table = 256"
  by (simp add: ctype_table_def)

text \<open>A property of all bytes and their classes, checked along the table.\<close>

fun classes_ok :: "(u8 \<Rightarrow> u8 \<Rightarrow> bool) \<Rightarrow> u8 \<Rightarrow> u8 list \<Rightarrow> bool" where
  "classes_ok Q c [] \<longleftrightarrow> True"
| "classes_ok Q c (b # bs) \<longleftrightarrow> Q c b \<and> classes_ok Q (c + 1) bs"

lemma classes_ok_nth: "classes_ok Q c bs \<Longrightarrow> i < length bs \<Longrightarrow> Q (c + of_nat i) (bs ! i)"
proof (induction bs arbitrary: c i)
  case (Cons b bs)
  then show ?case
  proof (cases i)
    case (Suc j)
    with Cons.prems Cons.IH[of "c + 1" j] show ?thesis by (simp add: add.assoc)
  qed simp
qed simp

lemma all_classes:
  assumes "classes_ok Q 0 ctype_table"
  shows "Q c (ismask c)"
proof -
  have "unat c < length ctype_table" using unsigned_less[of c, where ?'a = nat] by simp
  from classes_ok_nth[OF assms this] show ?thesis by (simp add: ismask_def)
qed

lemma isdigit_iff: "isdigit c \<longleftrightarrow> 48 \<le> c \<and> c \<le> 57"
  unfolding isdigit_def
  by (rule all_classes[of "\<lambda>c b. (b AND CT_D \<noteq> 0) = (48 \<le> c \<and> c \<le> 57)"]) code_simp

lemma isxdigit_iff: "isxdigit c \<longleftrightarrow> 48 \<le> c \<and> c \<le> 57 \<or> 65 \<le> c \<and> c \<le> 70 \<or> 97 \<le> c \<and> c \<le> 102"
  unfolding isxdigit_def
  by (rule all_classes[of "\<lambda>c b. (b AND (CT_D OR CT_X) \<noteq> 0) =
    (48 \<le> c \<and> c \<le> 57 \<or> 65 \<le> c \<and> c \<le> 70 \<or> 97 \<le> c \<and> c \<le> 102)"]) code_simp

lemma islower_iff:
  "islower c \<longleftrightarrow> 97 \<le> c \<and> c \<le> 122 \<or> 223 \<le> c \<and> c \<noteq> 247"
  unfolding islower_def
  by (rule all_classes[of "\<lambda>c b. (b AND CT_L \<noteq> 0) = (97 \<le> c \<and> c \<le> 122 \<or> 223 \<le> c \<and> c \<noteq> 247)"]) code_simp

lemma isupper_iff:
  "isupper c \<longleftrightarrow> 65 \<le> c \<and> c \<le> 90 \<or> 192 \<le> c \<and> c \<le> 222 \<and> c \<noteq> 215"
  unfolding isupper_def
  by (rule all_classes[of "\<lambda>c b. (b AND CT_U \<noteq> 0) = (65 \<le> c \<and> c \<le> 90 \<or> 192 \<le> c \<and> c \<le> 222 \<and> c \<noteq> 215)"]) code_simp

text \<open>A character has at most one of the classes upper, lower, digit, control and punctuation.\<close>

lemma class_unique:
  "ismask c AND (CT_U OR CT_L OR CT_D OR CT_C OR CT_P) \<in> {0, CT_U, CT_L, CT_D, CT_C, CT_P}"
  by (rule all_classes[of "\<lambda>c b. b AND (CT_U OR CT_L OR CT_D OR CT_C OR CT_P) \<in> {0, CT_U, CT_L, CT_D, CT_C, CT_P}"])
    code_simp

end
