(* ===== verification/Cstring.thy ===== *)
theory Cstring
  imports Ram Ctype
begin

unbundle bit_operations_syntax

text \<open>
  The string and memory functions of U-Boot (\<^verbatim>\<open>lib/string.c\<close>). Functions that
  write take the memory and return the new one; a loop over a NUL-terminated
  string that meets no NUL does not end, the value \<^const>\<open>None\<close>. \<^verbatim>\<open>char\<close> is
  unsigned and \<^verbatim>\<open>unsigned long\<close> has four bytes, as on 32-bit ARM. Counts are
  natural numbers: the code only decrements a count it has tested.
\<close>

section \<open>Comparison\<close>

fun strncasecmp_loop :: "ram \<Rightarrow> nat \<Rightarrow> nat \<Rightarrow> nat \<Rightarrow> u8 \<times> u8" where
  "strncasecmp_loop m s1 s2 0 = (0, 0)"
| "strncasecmp_loop m s1 s2 (Suc len) =
    (let c1 = m s1; c2 = m s2
     in if c1 = 0 then (c1, c2)
     else if c2 = 0 then (c1, c2)
     else if c1 = c2 then (if len = 0 then (c1, c2) else strncasecmp_loop m (s1 + 1) (s2 + 1) len)
     else
       let c1 = tolower c1; c2 = tolower c2
       in if c1 \<noteq> c2 then (c1, c2)
       else if len = 0 then (c1, c2) else strncasecmp_loop m (s1 + 1) (s2 + 1) len)"

definition strncasecmp :: "ram \<Rightarrow> nat \<Rightarrow> nat \<Rightarrow> nat \<Rightarrow> int" where
  "strncasecmp m s1 s2 len =
    (let (c1, c2) = (if len \<noteq> 0 then strncasecmp_loop m s1 s2 len else (0, 0))
     in int (unat c1) - int (unat c2))"

definition strcasecmp :: "ram \<Rightarrow> nat \<Rightarrow> nat \<Rightarrow> int" where
  "strcasecmp m s1 s2 = strncasecmp m s1 s2 (2 ^ 32 - 1)"

text \<open>The difference is kept in a \<^verbatim>\<open>signed char\<close>.\<close>

partial_function (option) strcmp :: "ram \<Rightarrow> nat \<Rightarrow> nat \<Rightarrow> int option" where
  "strcmp m cs ct =
    (if sint (m cs - m ct) \<noteq> 0 \<or> m cs = 0 then Some (sint (m cs - m ct))
     else strcmp m (cs + 1) (ct + 1))"

fun strncmp :: "ram \<Rightarrow> nat \<Rightarrow> nat \<Rightarrow> nat \<Rightarrow> int" where
  "strncmp m cs ct 0 = 0"
| "strncmp m cs ct (Suc count) =
    (if sint (m cs - m ct) \<noteq> 0 \<or> m cs = 0 then sint (m cs - m ct)
     else strncmp m (cs + 1) (ct + 1) count)"

fun memcmp :: "ram \<Rightarrow> nat \<Rightarrow> nat \<Rightarrow> nat \<Rightarrow> int" where
  "memcmp m su1 su2 0 = 0"
| "memcmp m su1 su2 (Suc count) =
    (let res = int (unat (m su1)) - int (unat (m su2))
     in if res \<noteq> 0 then res else memcmp m (su1 + 1) (su2 + 1) count)"

section \<open>Length and search\<close>

partial_function (option) strlen_loop :: "ram \<Rightarrow> nat \<Rightarrow> nat \<Rightarrow> nat option" where
  "strlen_loop m s sc = (if m sc \<noteq> 0 then strlen_loop m s (sc + 1) else Some (sc - s))"

definition strlen :: "ram \<Rightarrow> nat \<Rightarrow> nat option" where
  "strlen m s = strlen_loop m s s"

fun strnlen_loop :: "ram \<Rightarrow> nat \<Rightarrow> nat \<Rightarrow> nat \<Rightarrow> nat" where
  "strnlen_loop m s sc 0 = sc - s"
| "strnlen_loop m s sc (Suc count) =
    (if m sc \<noteq> 0 then strnlen_loop m s (sc + 1) count else sc - s)"

definition strnlen :: "ram \<Rightarrow> nat \<Rightarrow> nat \<Rightarrow> nat" where
  "strnlen m s count = strnlen_loop m s s count"

partial_function (option) strchr :: "ram \<Rightarrow> nat \<Rightarrow> u32 \<Rightarrow> nat option" where
  "strchr m s c =
    (if m s \<noteq> ucast c then (if m s = 0 then Some NULL else strchr m (s + 1) c) else Some s)"

partial_function (option) strchrnul :: "ram \<Rightarrow> nat \<Rightarrow> u32 \<Rightarrow> nat option" where
  "strchrnul m s c =
    (if m s \<noteq> ucast c then (if m s = 0 then Some s else strchrnul m (s + 1) c) else Some s)"

text \<open>The loop of \<^verbatim>\<open>strrchr\<close>, with \<open>k\<close> the distance of \<^verbatim>\<open>p\<close> from \<^verbatim>\<open>s\<close>.\<close>

fun strrchr_loop :: "ram \<Rightarrow> nat \<Rightarrow> u32 \<Rightarrow> nat \<Rightarrow> nat" where
  "strrchr_loop m s c 0 = (if m s = ucast c then s else NULL)"
| "strrchr_loop m s c (Suc k) = (if m (s + Suc k) = ucast c then s + Suc k else strrchr_loop m s c k)"

definition strrchr :: "ram \<Rightarrow> nat \<Rightarrow> u32 \<Rightarrow> nat option" where
  "strrchr m s c = (case strlen m s of None \<Rightarrow> None | Some n \<Rightarrow> Some (strrchr_loop m s c n))"

text \<open>The inner loop of \<^verbatim>\<open>strspn\<close>, \<^verbatim>\<open>strcspn\<close> and \<^verbatim>\<open>strpbrk\<close>: does \<open>c\<close> occur in the string at \<open>r\<close>?\<close>

partial_function (option) occurs :: "ram \<Rightarrow> u8 \<Rightarrow> nat \<Rightarrow> bool option" where
  "occurs m c r =
    (if m r = 0 then Some False else if c = m r then Some True else occurs m c (r + 1))"

partial_function (option) strcspn_loop :: "ram \<Rightarrow> nat \<Rightarrow> nat \<Rightarrow> nat \<Rightarrow> nat option" where
  "strcspn_loop m p reject count =
    (if m p = 0 then Some count
     else case occurs m (m p) reject of
       None \<Rightarrow> None
     | Some b \<Rightarrow> if b then Some count else strcspn_loop m (p + 1) reject (count + 1))"

definition strcspn :: "ram \<Rightarrow> nat \<Rightarrow> nat \<Rightarrow> nat option" where
  "strcspn m s reject = strcspn_loop m s reject 0"

partial_function (option) strspn_loop :: "ram \<Rightarrow> nat \<Rightarrow> nat \<Rightarrow> nat \<Rightarrow> nat option" where
  "strspn_loop m p accept count =
    (if m p = 0 then Some count
     else case occurs m (m p) accept of
       None \<Rightarrow> None
     | Some b \<Rightarrow> if \<not> b then Some count else strspn_loop m (p + 1) accept (count + 1))"

definition strspn :: "ram \<Rightarrow> nat \<Rightarrow> nat \<Rightarrow> nat option" where
  "strspn m s accept = strspn_loop m s accept 0"

partial_function (option) strpbrk :: "ram \<Rightarrow> nat \<Rightarrow> nat \<Rightarrow> nat option" where
  "strpbrk m cs ct =
    (if m cs = 0 then Some NULL
     else case occurs m (m cs) ct of
       None \<Rightarrow> None
     | Some b \<Rightarrow> if b then Some cs else strpbrk m (cs + 1) ct)"

fun memscan :: "ram \<Rightarrow> nat \<Rightarrow> int \<Rightarrow> nat \<Rightarrow> nat" where
  "memscan m p c 0 = p"
| "memscan m p c (Suc n) = (if int (unat (m p)) = c then p else memscan m (p + 1) c n)"

fun memchr :: "ram \<Rightarrow> nat \<Rightarrow> u32 \<Rightarrow> nat \<Rightarrow> nat" where
  "memchr m p c 0 = NULL"
| "memchr m p c (Suc n) = (if ucast c = m p then p else memchr m (p + 1) c n)"

fun check_bytes8 :: "ram \<Rightarrow> nat \<Rightarrow> u8 \<Rightarrow> nat \<Rightarrow> nat" where
  "check_bytes8 m start v 0 = NULL"
| "check_bytes8 m start v (Suc bytes) = (if m start \<noteq> v then start else check_bytes8 m (start + 1) v bytes)"

fun memchr_inv_words :: "ram \<Rightarrow> nat \<Rightarrow> u8 \<Rightarrow> u64 \<Rightarrow> nat \<Rightarrow> nat \<Rightarrow> nat" where
  "memchr_inv_words m start v v64 0 bytes = check_bytes8 m start v (bytes mod 8)"
| "memchr_inv_words m start v v64 (Suc words) bytes =
    (if load64 m start \<noteq> v64 then check_bytes8 m start v 8
     else memchr_inv_words m (start + 8) v v64 words bytes)"

definition memchr_inv :: "ram \<Rightarrow> nat \<Rightarrow> u32 \<Rightarrow> nat \<Rightarrow> nat" where
  "memchr_inv m start c bytes =
    (let v = ucast c :: u8
     in if bytes \<le> 16 then check_bytes8 m start v bytes
     else
       let v64 = ucast v :: u64;
           v64 = v64 OR push_bit 8 v64;
           v64 = v64 OR push_bit 16 v64;
           v64 = v64 OR push_bit 32 v64;
           prefix = start mod 8
       in if prefix \<noteq> 0 then
            let prefix = 8 - prefix;
                r = check_bytes8 m start v prefix
            in if r \<noteq> NULL then r
            else let start = start + prefix; bytes = bytes - prefix
              in memchr_inv_words m start v v64 (bytes div 8) bytes
          else memchr_inv_words m start v v64 (bytes div 8) bytes)"

fun strstr_loop :: "ram \<Rightarrow> nat \<Rightarrow> nat \<Rightarrow> nat \<Rightarrow> nat \<Rightarrow> nat" where
  "strstr_loop m s1 s2 l2 l1 =
    (if l1 < l2 then NULL
     else if memcmp m s1 s2 l2 = 0 then s1
     else if l1 = 0 then NULL
     else strstr_loop m (s1 + 1) s2 l2 (l1 - 1))"

definition strstr :: "ram \<Rightarrow> nat \<Rightarrow> nat \<Rightarrow> nat option" where
  "strstr m s1 s2 =
    (case strlen m s2 of None \<Rightarrow> None | Some l2 \<Rightarrow>
     if l2 = 0 then Some s1
     else case strlen m s1 of None \<Rightarrow> None | Some l1 \<Rightarrow> Some (strstr_loop m s1 s2 l2 l1))"

section \<open>Copying\<close>

fun memcpy_words :: "ram \<Rightarrow> nat \<Rightarrow> nat \<Rightarrow> nat \<Rightarrow> ram \<times> nat \<times> nat \<times> nat" where
  "memcpy_words m dl sl count =
    (if count \<ge> 4 then memcpy_words (store32 m dl (load32 m sl)) (dl + 4) (sl + 4) (count - 4)
     else (m, dl, sl, count))"

fun memcpy_bytes :: "ram \<Rightarrow> nat \<Rightarrow> nat \<Rightarrow> nat \<Rightarrow> ram" where
  "memcpy_bytes m d8 s8 0 = m"
| "memcpy_bytes m d8 s8 (Suc count) = memcpy_bytes (m(d8 := m s8)) (d8 + 1) (s8 + 1) count"

definition memcpy :: "ram \<Rightarrow> nat \<Rightarrow> nat \<Rightarrow> nat \<Rightarrow> ram" where
  "memcpy m dest src count =
    (if src = dest then m
     else
       let (m, dl, sl, count) =
         (if (dest OR src) AND 3 = 0 then memcpy_words m dest src count else (m, dest, src, count))
       in memcpy_bytes m dl sl count)"

text \<open>The backward loop of \<^verbatim>\<open>memmove\<close>, with \<open>count\<close> bytes still to copy.\<close>

fun memmove_down :: "ram \<Rightarrow> nat \<Rightarrow> nat \<Rightarrow> nat \<Rightarrow> ram" where
  "memmove_down m dest src 0 = m"
| "memmove_down m dest src (Suc count) = memmove_down (m(dest + count := m (src + count))) dest src count"

definition memmove :: "ram \<Rightarrow> nat \<Rightarrow> nat \<Rightarrow> nat \<Rightarrow> ram" where
  "memmove m dest src count =
    (if dest \<le> src then memcpy m dest src count else memmove_down m dest src count)"

fun memset_words :: "ram \<Rightarrow> nat \<Rightarrow> u32 \<Rightarrow> nat \<Rightarrow> ram \<times> nat \<times> nat" where
  "memset_words m sl cl count =
    (if count \<ge> 4 then memset_words (store32 m sl cl) (sl + 4) cl (count - 4) else (m, sl, count))"

fun memset_bytes :: "ram \<Rightarrow> nat \<Rightarrow> u32 \<Rightarrow> nat \<Rightarrow> ram" where
  "memset_bytes m s8 c 0 = m"
| "memset_bytes m s8 c (Suc count) = memset_bytes (m(s8 := ucast c)) (s8 + 1) c count"

definition memset :: "ram \<Rightarrow> nat \<Rightarrow> u32 \<Rightarrow> nat \<Rightarrow> ram" where
  "memset m s c count =
    (let (m, sl, count) =
      (if s AND 3 = 0 then
         let cl = ((\<lambda>cl. push_bit 8 cl OR (c AND 0xFF)) ^^ 4) 0
         in memset_words m s cl count
       else (m, s, count))
     in memset_bytes m sl c count)"

partial_function (option) strcpy_loop :: "ram \<Rightarrow> nat \<Rightarrow> nat \<Rightarrow> ram option" where
  "strcpy_loop m dest src =
    (if m src \<noteq> 0 then strcpy_loop (m(dest := m src)) (dest + 1) (src + 1) else Some (m(dest := m src)))"

definition strcpy :: "ram \<Rightarrow> nat \<Rightarrow> nat \<Rightarrow> (nat \<times> ram) option" where
  "strcpy m dest src = (case strcpy_loop m dest src of None \<Rightarrow> None | Some m \<Rightarrow> Some (dest, m))"

fun strncpy :: "ram \<Rightarrow> nat \<Rightarrow> nat \<Rightarrow> nat \<Rightarrow> ram" where
  "strncpy m dest src 0 = m"
| "strncpy m dest src (Suc count) =
    (if m src \<noteq> 0 then strncpy (m(dest := m src)) (dest + 1) (src + 1) count else m(dest := m src))"

definition strlcpy :: "ram \<Rightarrow> nat \<Rightarrow> nat \<Rightarrow> nat \<Rightarrow> (nat \<times> ram) option" where
  "strlcpy m dest src sz =
    (case strlen m src of None \<Rightarrow> None | Some r \<Rightarrow>
     if sz \<noteq> 0 then
       let len = if r \<ge> sz then sz - 1 else r;
           m = memcpy m dest src len
       in Some (r, m(dest + len := 0))
     else Some (r, m))"

partial_function (option) to_end :: "ram \<Rightarrow> nat \<Rightarrow> nat option" where
  "to_end m dest = (if m dest \<noteq> 0 then to_end m (dest + 1) else Some dest)"

definition strcat :: "ram \<Rightarrow> nat \<Rightarrow> nat \<Rightarrow> (nat \<times> ram) option" where
  "strcat m dest src =
    (case to_end m dest of None \<Rightarrow> None | Some d \<Rightarrow>
     case strcpy_loop m d src of None \<Rightarrow> None | Some m \<Rightarrow> Some (dest, m))"

text \<open>The copying loop of \<^verbatim>\<open>strncat\<close>, which is entered with a count above zero.\<close>

fun strncat_loop :: "ram \<Rightarrow> nat \<Rightarrow> nat \<Rightarrow> nat \<Rightarrow> ram" where
  "strncat_loop m dest src 0 = m"
| "strncat_loop m dest src (Suc count) =
    (let c = m src; m = m(dest := c)
     in if c \<noteq> 0 then (if count = 0 then m(dest + 1 := 0) else strncat_loop m (dest + 1) (src + 1) count)
        else m)"

definition strncat :: "ram \<Rightarrow> nat \<Rightarrow> nat \<Rightarrow> nat \<Rightarrow> (nat \<times> ram) option" where
  "strncat m dest src count =
    (if count \<noteq> 0 then
       case to_end m dest of None \<Rightarrow> None | Some d \<Rightarrow> Some (dest, strncat_loop m d src count)
     else Some (dest, m))"

text \<open>\<^verbatim>\<open>malloc\<close> is a parameter: the address of a new block of the given size, or \<^verbatim>\<open>NULL\<close>.\<close>

definition strdup :: "(nat \<Rightarrow> nat) \<Rightarrow> ram \<Rightarrow> nat \<Rightarrow> (nat \<times> ram) option" where
  "strdup malloc m s =
    (if s = NULL then Some (NULL, m)
     else case strlen m s of None \<Rightarrow> None | Some n \<Rightarrow>
       let new = malloc (n + 1)
       in if new = NULL then Some (NULL, m)
       else case strcpy m new s of None \<Rightarrow> None | Some (_, m) \<Rightarrow> Some (new, m))"

partial_function (option) strswab_loop :: "ram \<Rightarrow> nat \<Rightarrow> nat \<Rightarrow> ram option" where
  "strswab_loop m p q =
    (if m p \<noteq> 0 \<and> m q \<noteq> 0 then strswab_loop (m(p := m q, q := m p)) (p + 2) (q + 2) else Some m)"

definition strswab :: "ram \<Rightarrow> nat \<Rightarrow> (nat \<times> ram) option" where
  "strswab m s =
    (if s = NULL \<or> m s = 0 then Some (NULL, m)
     else case strswab_loop m s (s + 1) of None \<Rightarrow> None | Some m \<Rightarrow> Some (s, m))"

section \<open>Splitting\<close>

text \<open>\<^verbatim>\<open>strtok\<close> keeps its place in the variable \<^verbatim>\<open>___strtok\<close>, here the argument and result \<open>st\<close>.\<close>

definition strtok :: "ram \<Rightarrow> nat \<Rightarrow> nat \<Rightarrow> nat \<Rightarrow> (nat \<times> nat \<times> ram) option" where
  "strtok m st s ct =
    (let sbegin = if s \<noteq> NULL then s else st
     in if sbegin = NULL then Some (NULL, st, m)
     else case strspn m sbegin ct of None \<Rightarrow> None | Some k \<Rightarrow>
       let sbegin = sbegin + k
       in if m sbegin = 0 then Some (NULL, NULL, m)
       else case strpbrk m sbegin ct of None \<Rightarrow> None | Some send \<Rightarrow>
         if send \<noteq> NULL \<and> m send \<noteq> 0 then Some (sbegin, send + 1, m(send := 0))
         else Some (sbegin, send, m))"

definition strsep :: "ram \<Rightarrow> nat \<Rightarrow> nat \<Rightarrow> (nat \<times> nat \<times> ram) option" where
  "strsep m s ct =
    (let sbegin = s
     in if sbegin = NULL then Some (NULL, s, m)
     else case strpbrk m sbegin ct of None \<Rightarrow> None | Some e \<Rightarrow>
       if e \<noteq> NULL then Some (sbegin, e + 1, m(e := 0)) else Some (sbegin, e, m))"

declare memcpy_words.simps [simp del] memset_words.simps [simp del] strstr_loop.simps [simp del]


section \<open>Lemmas on copying\<close>

lemma memcpy_bytes_copied:
  "d \<le> s \<or> s + n \<le> d \<Longrightarrow> memcpy_bytes m d s n = copied m d s n"
proof (induction n arbitrary: m d s)
  case (Suc n)
  have "memcpy_bytes m d s (Suc n) = memcpy_bytes (m(d := m s)) (Suc d) (Suc s) n" by simp
  also have "\<dots> = copied (m(d := m s)) (Suc d) (Suc s) n"
    by (rule Suc.IH) (use Suc.prems in auto)
  also have "\<dots> = copied m d s (Suc n)"
  proof (rule ext)
    fix x
    consider "x < d" | "x = d" | "d < x" "x \<le> d + n" | "d + n < x" by linarith
    then show "copied (m(d := m s)) (Suc d) (Suc s) n x = copied m d s (Suc n) x"
    proof cases
      case 3
      then have "s + (x - d) \<noteq> d \<or> s = d" "Suc s + (x - Suc d) = s + (x - d)" using Suc.prems by linarith+
      with 3 show ?thesis by (auto simp: copied_def)
    qed (auto simp: copied_def)
  qed
  finally show ?case .
qed simp

lemma memcpy_words_copied:
  assumes "d \<le> s \<and> 4 dvd (s - d) \<or> s + n \<le> d"
  shows "\<exists>k r. memcpy_words m d s n = (copied m d s k, d + k, s + k, r) \<and> n = k + r"
  using assms
proof (induction m d s n rule: memcpy_words.induct)
  case (1 m d s n)
  show ?case
  proof (cases "n \<ge> 4")
    case False
    then show ?thesis by (subst memcpy_words.simps) simp
  next
    case True
    let ?m = "store32 m d (load32 m s)"
    have "d + 4 \<le> s + 4 \<and> 4 dvd (s + 4 - (d + 4)) \<or> s + 4 + (n - 4) \<le> d + 4" using 1(2) True by auto
    from 1(1)[OF True this] obtain k r where
      k: "memcpy_words ?m (d + 4) (s + 4) (n - 4) = (copied ?m (d + 4) (s + 4) k, d + 4 + k, s + 4 + k, r)"
      "n - 4 = k + r" by blast
    have far: "s = d \<or> d + 4 \<le> s \<or> s + n \<le> d"
      using 1(2) dvd_imp_le[of 4 "s - d"] by linarith
    have "copied ?m (d + 4) (s + 4) k = copied m d s (k + 4)"
    proof (rule ext)
      fix x
      consider "x < d" | "d \<le> x" "x < d + 4" | "d + 4 \<le> x" "x < d + 4 + k" | "d + 4 + k \<le> x" by linarith
      then show "copied ?m (d + 4) (s + 4) k x = copied m d s (k + 4) x"
      proof cases
        case 3
        have "\<not> (d \<le> s + (x - d) \<and> s + (x - d) < d + 4) \<or> s = d" using far 3 k(2) True by linarith
        moreover have "s + 4 + (x - (d + 4)) = s + (x - d)" using 3 by linarith
        ultimately show ?thesis using 3 by (auto simp: copied_def store32_load32)
      qed (auto simp: copied_def store32_load32)
    qed
    then have "memcpy_words m d s n = (copied m d s (k + 4), d + (k + 4), s + (k + 4), r)"
      using k(1) True by (subst memcpy_words.simps) (simp add: add_ac)
    moreover have "n = (k + 4) + r" using k(2) True by simp
    ultimately show ?thesis by blast
  qed
qed

lemma copied_copied:
  assumes "d \<le> s \<or> s + k + r \<le> d"
  shows "copied (copied m d s k) (d + k) (s + k) r = copied m d s (k + r)"
proof (rule ext)
  fix x
  consider "x < d + k" | "d + k \<le> x" "x < d + k + r" | "d + k + r \<le> x" by linarith
  then show "copied (copied m d s k) (d + k) (s + k) r x = copied m d s (k + r) x"
  proof cases
    case 2
    have e: "s + k + (x - (d + k)) = s + (x - d)" using 2 by simp
    show ?thesis
    proof (cases "d = s")
      case False
      then have "\<not> (d \<le> s + (x - d) \<and> s + (x - d) < d + k)" using 2 assms by linarith
      with 2 show ?thesis unfolding copied_def e by auto
    qed simp
  qed (auto simp: copied_def)
qed

lemma aligned_diff: "((d :: nat) OR s) AND 3 = 0 \<Longrightarrow> d \<le> s \<Longrightarrow> 4 dvd (s - d)"
proof -
  assume "(d OR s) AND 3 = 0" and "d \<le> s"
  then have "take_bit 2 (d OR s) = 0" by (simp add: take_bit_eq_mask mask_eq_exp_minus_1)
  then have "take_bit 2 d = 0" "take_bit 2 s = 0" by (simp_all add: take_bit_or or_eq_0_iff)
  then have "4 dvd d" "4 dvd s" by (simp_all add: take_bit_eq_mod dvd_eq_mod_eq_0)
  with \<open>d \<le> s\<close> show ?thesis by (simp add: dvd_diff_nat)
qed

text \<open>The word loop and the byte loop together copy the block.\<close>

lemma memcpy_copied:
  assumes "d \<le> s \<or> s + n \<le> d"
  shows "memcpy m d s n = copied m d s n"
proof (cases "d = s")
  case True
  then show ?thesis by (simp add: memcpy_def)
next
  case False
  show ?thesis
  proof (cases "(d OR s) AND 3 = 0")
    case True
    then have "d \<le> s \<and> 4 dvd (s - d) \<or> s + n \<le> d" using aligned_diff assms by blast
    then obtain k r where k: "memcpy_words m d s n = (copied m d s k, d + k, s + k, r)" "n = k + r"
      using memcpy_words_copied by blast
    have "memcpy_bytes (copied m d s k) (d + k) (s + k) r = copied (copied m d s k) (d + k) (s + k) r"
      using assms k(2) by (intro memcpy_bytes_copied) auto
    then show ?thesis using True False k copied_copied[of d s k r m] assms by (simp add: memcpy_def add.assoc)
  next
    case F: False
    show ?thesis using False F memcpy_bytes_copied[OF assms] by (auto simp: memcpy_def)
  qed
qed

lemma memmove_down_copied: "s < d \<Longrightarrow> memmove_down m d s n = copied m d s n"
proof (induction n arbitrary: m)
  case (Suc n)
  have "memmove_down m d s (Suc n) = memmove_down (m(d + n := m (s + n))) d s n" by simp
  also have "\<dots> = copied (m(d + n := m (s + n))) d s n" by (rule Suc.IH[OF Suc.prems])
  also have "\<dots> = copied m d s (Suc n)"
    using Suc.prems by (auto simp: copied_def fun_eq_iff less_Suc_eq)
  finally show ?case .
qed simp

lemma memmove_copied: "memmove m d s n = copied m d s n"
  by (simp add: memmove_def memcpy_copied memmove_down_copied)


section \<open>Lemmas on filling and scanning\<close>

lemma bit_0xFF: "bit (0xFF :: u32) n \<longleftrightarrow> n < 8" "bit (0xFF :: int) n \<longleftrightarrow> n < 8"
proof -
  have "(0xFF :: u32) = mask 8" "(0xFF :: int) = mask 8" by (simp_all add: mask_eq_exp_minus_1)
  then show "bit (0xFF :: u32) n \<longleftrightarrow> n < 8" "bit (0xFF :: int) n \<longleftrightarrow> n < 8"
    by (simp_all only: bit_mask_iff) auto
qed

lemma byte32_shift_0: "byte32 (push_bit 8 w OR (c AND 0xFF)) 0 = ucast c"
  by (rule bit_word_eqI) (simp add: byte32_def bit_simps bit_0xFF)

lemma byte32_shift_Suc: "i < 3 \<Longrightarrow> byte32 (push_bit 8 w OR (c AND 0xFF)) (Suc i) = byte32 w i"
  by (rule bit_word_eqI) (auto simp: byte32_def bit_simps bit_0xFF)

lemma funpow_4: "(f ^^ 4) x = f (f (f (f x)))"
  by (simp add: eval_nat_numeral)

lemma byte32_fill:
  assumes "i < 4"
  shows "byte32 (((\<lambda>cl. push_bit 8 cl OR (c AND 0xFF)) ^^ 4) 0) i = ucast c"
  using assms unfolding funpow_4
  by (auto dest!: less_4_cases simp only: byte32_shift_0 byte32_shift_Suc numeral_2_eq_2 numeral_3_eq_3
      One_nat_def less_Suc_eq zero_less_Suc simp_thms)

definition filled :: "ram \<Rightarrow> nat \<Rightarrow> u8 \<Rightarrow> nat \<Rightarrow> ram" where
  "filled m s v n = (\<lambda>x. if s \<le> x \<and> x < s + n then v else m x)"

lemma filled_filled: "filled (filled m s v k) (s + k) v r = filled m s v (k + r)"
  by (auto simp: filled_def fun_eq_iff)

lemma filled_0 [simp]: "filled m s v 0 = m"
  by (auto simp: filled_def fun_eq_iff)

lemma memset_bytes_filled: "memset_bytes m s c n = filled m s (ucast c) n"
proof (induction n arbitrary: m s)
  case (Suc n)
  have "m(s := ucast c) = filled m s (ucast c) 1" by (auto simp: filled_def fun_eq_iff)
  then show ?case using Suc.IH[of "m(s := ucast c)" "s + 1"] filled_filled[of m s "ucast c" 1 n] by simp
qed simp

lemma memset_words_filled:
  "(\<And>i. i < 4 \<Longrightarrow> byte32 cl i = v) \<Longrightarrow>
    \<exists>k r. memset_words m s cl n = (filled m s v k, s + k, r) \<and> n = k + r"
proof (induction m s cl n rule: memset_words.induct)
  case (1 m s cl n)
  show ?case
  proof (cases "n \<ge> 4")
    case False
    then show ?thesis by (subst memset_words.simps) (auto intro!: exI[of _ 0])
  next
    case True
    have st: "store32 m s cl = filled m s v 4"
      using 1(2) by (auto simp: store32_at filled_def fun_eq_iff)
    obtain k r where k: "memset_words (filled m s v 4) (s + 4) cl (n - 4) =
        (filled (filled m s v 4) (s + 4) v k, s + 4 + k, r)" "n - 4 = k + r"
      using 1(1)[OF True 1(2)] unfolding st by blast
    have "memset_words m s cl n = (filled m s v (4 + k), s + (4 + k), r)"
      using k(1) True st by (subst memset_words.simps) (simp add: filled_filled add.assoc)
    moreover have "n = (4 + k) + r" using k(2) True by simp
    ultimately show ?thesis by blast
  qed
qed

lemma memset_filled: "memset m s c n = filled m s (ucast c) n"
proof (cases "s AND 3 = 0")
  case True
  obtain k r where k: "memset_words m s (((\<lambda>cl. push_bit 8 cl OR (c AND 0xFF)) ^^ 4) 0) n =
      (filled m s (ucast c) k, s + k, r)" "n = k + r"
    using memset_words_filled[of "((\<lambda>cl. push_bit 8 cl OR (c AND 0xFF)) ^^ 4) 0", OF byte32_fill] by blast
  then show ?thesis
    unfolding memset_def using True by (simp only: if_True Let_def split) (simp add: memset_bytes_filled filled_filled)
next
  case False
  then show ?thesis by (simp add: memset_def memset_bytes_filled)
qed

lemma bit_load64:
  assumes "n < 64"
  shows "bit (load64 m a) n \<longleftrightarrow> bit (m (a + n div 8)) (n mod 8)"
proof (cases "n < 32")
  case True
  then show ?thesis by (simp add: load64_def bit_simps bit_load32)
next
  case False
  define k where "k = n - 32"
  have n: "n = 32 + k" "k < 32" using False assms by (simp_all add: k_def)
  have d: "(32 + k) div 8 = 4 + k div 8" "(32 + k) mod 8 = k mod 8" by presburger+
  have "\<not> bit (load32 m a) (32 + k)" using bit_imp_le_length[of "load32 m a" "32 + k"] by auto
  then have "bit (load64 m a) (32 + k) \<longleftrightarrow> bit (load32 m (a + 4)) k"
    using n(2) by (simp add: load64_def bit_simps)
  then show ?thesis unfolding n(1) d using bit_load32[OF n(2), of m "a + 4"] by (simp add: add.assoc)
qed

text \<open>\<open>repeats k v w\<close>: the low \<open>k\<close> bits of \<open>w\<close> are copies of the byte \<open>v\<close>, the others clear.\<close>

definition repeats :: "nat \<Rightarrow> u8 \<Rightarrow> u64 \<Rightarrow> bool" where
  "repeats k v w \<longleftrightarrow> (\<forall>n. bit w n \<longleftrightarrow> n < k \<and> bit v (n mod 8))"

lemma repeats_doubled:
  assumes "repeats k v w" and "8 dvd k" and "2 * k \<le> 64"
  shows "repeats (2 * k) v (w OR push_bit k w)"
  unfolding repeats_def
proof
  fix n
  show "bit (w OR push_bit k w) n \<longleftrightarrow> n < 2 * k \<and> bit v (n mod 8)"
  proof (cases "n < k")
    case True
    then show ?thesis using assms(1) by (auto simp: repeats_def bit_simps)
  next
    case False
    define j where "j = n - k"
    obtain q where q: "k = 8 * q" using assms(2) by (rule dvdE)
    have n1: "n = k + j" using False by (simp add: j_def)
    then have n: "n = k + j" "n mod 8 = j mod 8" by (simp_all add: q)
    have w: "bit w i \<longleftrightarrow> i < k \<and> bit v (i mod 8)" for i using assms(1) by (simp add: repeats_def)
    have "bit (push_bit k w) n \<longleftrightarrow> j < k \<and> bit v (j mod 8)"
      using w[of j] assms(3) unfolding n(1) bit_push_bit_iff by auto
    moreover have "\<not> bit w n" using w[of n] False by simp
    ultimately show ?thesis unfolding bit_or_iff n(2) using n(1) by auto
  qed
qed

lemma repeats_64:
  "repeats 64 v (let v64 = ucast v :: u64; v64 = v64 OR push_bit 8 v64; v64 = v64 OR push_bit 16 v64
     in v64 OR push_bit 32 v64)"
proof -
  have 1: "repeats 8 v (ucast v)"
    unfolding repeats_def
  proof
    fix n
    show "bit (ucast v :: u64) n \<longleftrightarrow> n < 8 \<and> bit v (n mod 8)"
      by (cases "n < 8") (simp_all add: bit_simps bit_u8_ge)
  qed
  have "repeats 16 v (ucast v OR push_bit 8 (ucast v))" using repeats_doubled[OF 1] by simp
  from repeats_doubled[OF this] have 2: "repeats 32 v
      ((ucast v OR push_bit 8 (ucast v)) OR push_bit 16 (ucast v OR push_bit 8 (ucast v)))" by simp
  from repeats_doubled[OF this] show ?thesis by (simp add: Let_def)
qed

lemma load64_repeats:
  assumes "repeats 64 v w"
  shows "load64 m a = w \<longleftrightarrow> (\<forall>i < 8. m (a + i) = v)"
proof
  assume eq: "load64 m a = w"
  show "\<forall>i < 8. m (a + i) = v"
  proof (intro allI impI bit_word_eqI)
    fix i n :: nat assume "i < 8" "n < LENGTH(8)"
    then show "bit (m (a + i)) n = bit v n"
      using bit_load64[of "8 * i + n" m a] assms unfolding eq repeats_def by simp
  qed
next
  assume *: "\<forall>i < 8. m (a + i) = v"
  show "load64 m a = w"
  proof (rule bit_word_eqI)
    fix n assume "n < LENGTH(64)"
    then show "bit (load64 m a) n = bit w n" using bit_load64[of n m a] * assms by (simp add: repeats_def)
  qed
qed

lemma check_bytes8_append:
  "check_bytes8 m a v (n + k) =
    (if \<forall>i < n. m (a + i) = v then check_bytes8 m (a + n) v k else check_bytes8 m a v n)"
  by (induction n arbitrary: a) (auto simp: All_less_Suc2)

lemma check_bytes8_NULL: "a \<noteq> NULL \<Longrightarrow> check_bytes8 m a v n = NULL \<longleftrightarrow> (\<forall>i < n. m (a + i) = v)"
  by (induction n arbitrary: a) (auto simp: All_less_Suc2 NULL_def)

lemma memchr_inv_words_eq:
  assumes "repeats 64 v w"
  shows "bytes div 8 = words + q \<Longrightarrow> memchr_inv_words m a v w words bytes =
    check_bytes8 m a v (8 * words + bytes mod 8)"
proof (induction words arbitrary: a q)
  case (Suc words)
  have "8 * Suc words + bytes mod 8 = 8 + (8 * words + bytes mod 8)" by simp
  then show ?case
    using Suc.IH[of "Suc q" "a + 8"] Suc.prems load64_repeats[OF assms, of m a]
    by (simp only: memchr_inv_words.simps check_bytes8_append[of m a v 8]) auto
qed simp

lemma memchr_inv_eq:
  assumes "a \<noteq> NULL"
  shows "memchr_inv m a c n = check_bytes8 m a (ucast c) n"
proof (cases "n \<le> 16")
  case True
  then show ?thesis by (simp add: memchr_inv_def)
next
  case False
  define v where "v = (ucast c :: u8)"
  define w where "w = (let v64 = ucast v :: u64; v64 = v64 OR push_bit 8 v64; v64 = v64 OR push_bit 16 v64
     in v64 OR push_bit 32 v64)"
  have rest: "memchr_inv_words m b v w (k div 8) k = check_bytes8 m b v k" for b k
    using memchr_inv_words_eq[OF repeats_64, of k "k div 8" 0 m b v] by (simp add: w_def)
  show ?thesis
  proof (cases "a mod 8 = 0")
    case True
    with False show ?thesis
      using rest[of a n] unfolding memchr_inv_def by (simp add: Let_def v_def w_def)
  next
    case pre: False
    define k where "k = 8 - a mod 8"
    have n: "n = k + (n - k)" using False by (simp add: k_def)
    have "memchr_inv m a c n = (if check_bytes8 m a v k \<noteq> NULL then check_bytes8 m a v k
        else check_bytes8 m (a + k) v (n - k))"
      using False pre rest[of "a + k" "n - k"] unfolding memchr_inv_def
      by (simp add: Let_def v_def[symmetric] w_def k_def[symmetric])
    also have "\<dots> = check_bytes8 m a v (k + (n - k))"
      using check_bytes8_NULL[OF assms, of m v k] by (simp only: check_bytes8_append) auto
    finally show ?thesis using n v_def by simp
  qed
qed


section \<open>Lemmas on strings\<close>

lemma strlen_loop_cstr: "cstr m a s \<Longrightarrow> strlen_loop m b a = Some (a + length s - b)"
proof (induction s arbitrary: a)
  case Nil
  then show ?case by (subst strlen_loop.simps) simp
next
  case (Cons c s)
  then show ?case by (subst strlen_loop.simps) simp
qed

lemma strlen_cstr: "cstr m a s \<Longrightarrow> strlen m a = Some (length s)"
  by (simp add: strlen_def strlen_loop_cstr)

lemma strnlen_cstr: "cstr m a s \<Longrightarrow> strnlen m a n = min n (length s)"
proof -
  assume "cstr m a s"
  then have "strnlen_loop m b a n = a + min n (length s) - b" for b
  proof (induction n arbitrary: a s)
    case (Suc n)
    then show ?case using Suc.IH[of "Suc a" "tl s"] by (cases s) simp_all
  qed simp
  then show ?thesis by (simp add: strnlen_def)
qed

lemma strchr_cstr:
  "cstr m a s \<Longrightarrow> ucast c \<noteq> (0 :: u8) \<Longrightarrow> strchr m a c =
    Some (if ucast c \<in> set s then a + length (takeWhile (\<lambda>d. d \<noteq> ucast c) s) else NULL)"
proof (induction s arbitrary: a)
  case Nil
  then show ?case by (subst strchr.simps) auto
next
  case (Cons d s)
  then show ?case by (subst strchr.simps) auto
qed

lemma strchrnul_cstr:
  "cstr m a s \<Longrightarrow> strchrnul m a c = Some (a + length (takeWhile (\<lambda>d. d \<noteq> ucast c) s))"
proof (induction s arbitrary: a)
  case Nil
  then show ?case by (subst strchrnul.simps) auto
next
  case (Cons d s)
  then show ?case by (subst strchrnul.simps) auto
qed

lemma occurs_cstr: "cstr m r t \<Longrightarrow> occurs m c r = Some (c \<in> set t)"
proof (induction t arbitrary: r)
  case Nil
  then show ?case by (subst occurs.simps) simp
next
  case (Cons d t)
  then show ?case by (subst occurs.simps) auto
qed

lemma strspn_loop_cstr:
  "cstr m p s \<Longrightarrow> cstr m a t \<Longrightarrow>
    strspn_loop m p a k = Some (k + length (takeWhile (\<lambda>c. c \<in> set t) s))"
proof (induction s arbitrary: p k)
  case Nil
  then show ?case by (subst strspn_loop.simps) simp
next
  case (Cons c s)
  then show ?case by (subst strspn_loop.simps) (simp add: occurs_cstr)
qed

lemma strspn_cstr:
  "cstr m p s \<Longrightarrow> cstr m a t \<Longrightarrow> strspn m p a = Some (length (takeWhile (\<lambda>c. c \<in> set t) s))"
  by (simp add: strspn_def strspn_loop_cstr)

lemma strcspn_loop_cstr:
  "cstr m p s \<Longrightarrow> cstr m a t \<Longrightarrow>
    strcspn_loop m p a k = Some (k + length (takeWhile (\<lambda>c. c \<notin> set t) s))"
proof (induction s arbitrary: p k)
  case Nil
  then show ?case by (subst strcspn_loop.simps) simp
next
  case (Cons c s)
  then show ?case by (subst strcspn_loop.simps) (simp add: occurs_cstr)
qed

lemma strcspn_cstr:
  "cstr m p s \<Longrightarrow> cstr m a t \<Longrightarrow> strcspn m p a = Some (length (takeWhile (\<lambda>c. c \<notin> set t) s))"
  by (simp add: strcspn_def strcspn_loop_cstr)

lemma strpbrk_cstr:
  "cstr m p s \<Longrightarrow> cstr m a t \<Longrightarrow> strpbrk m p a =
    Some (if set s \<inter> set t = {} then NULL else p + length (takeWhile (\<lambda>c. c \<notin> set t) s))"
proof (induction s arbitrary: p)
  case Nil
  then show ?case by (subst strpbrk.simps) simp
next
  case (Cons c s)
  then show ?case by (subst strpbrk.simps) (simp add: occurs_cstr)
qed

lemma memcmp_0: "memcmp m a b n = 0 \<longleftrightarrow> block m a n = block m b n"
  by (induction n arbitrary: a b) (auto simp: block_Suc Let_def word_uint_eq_iff[symmetric])

lemma strcpy_loop_cstr:
  "cstr m s t \<Longrightarrow> d \<le> s \<or> s + length t < d \<Longrightarrow> strcpy_loop m d s = Some (copied m d s (Suc (length t)))"
proof (induction t arbitrary: m d s)
  case Nil
  have "m(d := m s) = copied m d s 1" by (auto simp: copied_def fun_eq_iff)
  with Nil show ?case by (subst strcpy_loop.simps) simp
next
  case (Cons c t)
  have 1: "m(d := m s) = copied m d s 1" by (auto simp: copied_def fun_eq_iff)
  have "cstr (m(d := m s)) (Suc s) t"
  proof (cases "s = d")
    case False
    with Cons.prems have "cstr (m(d := m s)) (Suc s) t = cstr m (Suc s) t" by (intro cstr_cong) auto
    with Cons.prems show ?thesis by simp
  next
    case True
    then have "m(d := m s) = m" by simp
    with Cons.prems show ?thesis by (simp only: cstr.simps)
  qed
  then have "strcpy_loop (m(d := m s)) (Suc d) (Suc s) = Some (copied (m(d := m s)) (Suc d) (Suc s) (Suc (length t)))"
    by (rule Cons.IH) (use Cons.prems(2) in auto)
  moreover have "copied (copied m d s 1) (d + 1) (s + 1) (Suc (length t)) = copied m d s (1 + Suc (length t))"
    using Cons.prems by (intro copied_copied) auto
  moreover from Cons.prems have "m s \<noteq> 0" by simp
  ultimately show ?case by (subst strcpy_loop.simps) (simp add: 1)
qed

lemma cstr_copied:
  assumes "cstr m s t" and "n = Suc (length t)"
  shows "cstr (copied m d s n) d t"
proof (rule cstrI)
  show "0 \<notin> set t" by (rule cstr_nonzero[OF assms(1)])
qed (use assms cstr_nth[OF assms(1)] cstr_end[OF assms(1)] in \<open>simp_all add: copied_def\<close>)


text \<open>The byte-wise comparison of two strings: the truncated difference at the first mismatch.\<close>

fun first_diff :: "u8 list \<Rightarrow> u8 list \<Rightarrow> int" where
  "first_diff [] [] = 0"
| "first_diff [] (d # t) = sint (- d)"
| "first_diff (c # s) [] = sint c"
| "first_diff (c # s) (d # t) = (if c = d then first_diff s t else sint (c - d))"

lemma sint_0: "sint (w :: u8) = 0 \<longleftrightarrow> w = 0"
  by (metis signed_0 signed_word_eqI)

lemma strcmp_cstr: "cstr m a s \<Longrightarrow> cstr m b t \<Longrightarrow> strcmp m a b = Some (first_diff s t)"
proof (induction s t arbitrary: a b rule: first_diff.induct)
  case (4 c s d t)
  then show ?case by (subst strcmp.simps) (simp add: sint_0)
qed (subst strcmp.simps, simp add: sint_0)+

lemma first_diff_0:
  "0 \<notin> set s \<Longrightarrow> 0 \<notin> set t \<Longrightarrow> first_diff s t = 0 \<longleftrightarrow> s = t"
  by (induction s t rule: first_diff.induct) (auto simp: sint_0)

lemma signed_take_bit_small:
  "a \<le> 127 \<Longrightarrow> b \<le> 127 \<Longrightarrow> signed_take_bit 7 (int a - int b) = int a - int b"
  by (rule signed_take_bit_int_eq_self) simp_all

lemma sint_small: "unat (w :: u8) \<le> 127 \<Longrightarrow> sint w = int (unat w)"
  using signed_take_bit_small[of "unat w" 0] by (simp add: sint_uint)

lemma sint_diff_ascii:
  fixes c d :: u8
  assumes "c \<le> 127" and "d \<le> 127"
  shows "sint (c - d) = int (unat c) - int (unat d)"
proof -
  have "unat c \<le> 127" "unat d \<le> 127" using assms by (simp_all add: word_le_nat_alt)
  then have "sint c = int (unat c)" "sint d = int (unat d)" by (simp_all only: sint_small)
  moreover have "sint (c - d) = signed_take_bit 7 (sint c - sint d)" by (simp add: sint_word_ariths)
  moreover have "signed_take_bit 7 (int (unat c) - int (unat d)) = int (unat c) - int (unat d)"
    using \<open>unat c \<le> 127\<close> \<open>unat d \<le> 127\<close> by (rule signed_take_bit_small)
  ultimately show ?thesis by simp
qed

lemma sint_diff_neg: "c \<le> 127 \<Longrightarrow> d \<le> 127 \<Longrightarrow> sint (c - d) < 0 \<longleftrightarrow> c < (d :: u8)"
  unfolding sint_diff_ascii word_less_nat_alt by linarith

lemma first_diff_ascii:
  "\<forall>c \<in> set s. c \<le> 127 \<Longrightarrow> \<forall>c \<in> set t. c \<le> 127 \<Longrightarrow> 0 \<notin> set s \<Longrightarrow> 0 \<notin> set t \<Longrightarrow>
    first_diff s t < 0 \<longleftrightarrow> (s, t) \<in> lexord {(x, y). x < y}"
proof (induction s t rule: first_diff.induct)
  case (2 d t)
  then have "sint (0 - d) < 0 \<longleftrightarrow> 0 < d" by (intro sint_diff_neg) simp_all
  with 2 show ?case by (simp add: word_gt_0)
next
  case (3 c s)
  then have "sint (c - 0) < 0 \<longleftrightarrow> c < 0" by (intro sint_diff_neg) simp_all
  with 3 show ?case by simp
next
  case (4 c s d t)
  then have "sint (c - d) < 0 \<longleftrightarrow> c < d" by (intro sint_diff_neg) simp_all
  with 4 show ?case by (cases "c = d") simp_all
qed simp

text \<open>\<open>occurs_at t s i\<close>: the string \<open>t\<close> occurs in \<open>s\<close> at offset \<open>i\<close>.\<close>

definition occurs_at :: "u8 list \<Rightarrow> u8 list \<Rightarrow> nat \<Rightarrow> bool" where
  "occurs_at t s i \<longleftrightarrow> i + length t \<le> length s \<and> take (length t) (drop i s) = t"

lemma strstr_loop_cstr:
  assumes "cstr m b t" and "t \<noteq> []"
  shows "cstr m a s \<Longrightarrow> a \<noteq> NULL \<Longrightarrow>
    (let r = strstr_loop m a b (length t) (length s)
     in (r = NULL \<and> (\<forall>i. \<not> occurs_at t s i)) \<or>
        (\<exists>i. r = a + i \<and> r \<noteq> NULL \<and> occurs_at t s i \<and> (\<forall>j < i. \<not> occurs_at t s j)))"
proof (induction s arbitrary: a)
  case Nil
  then show ?case using assms(2) by (subst strstr_loop.simps) (simp add: occurs_at_def)
next
  case (Cons c s)
  let ?r = "strstr_loop m (Suc a) b (length t) (length s)"
  show ?case
  proof (cases "length (c # s) < length t")
    case True
    then have "strstr_loop m a b (length t) (length (c # s)) = NULL" by (subst strstr_loop.simps) simp
    moreover have "\<forall>i. \<not> occurs_at t (c # s) i" using True by (simp add: occurs_at_def)
    ultimately show ?thesis unfolding Let_def by blast
  next
    case False
    have "block m a (length (c # s)) = c # s" using block_cstr[OF Cons.prems(1)] .
    moreover have "length (c # s) = length t + (length (c # s) - length t)" using False by simp
    ultimately have "block m a (length t) = take (length t) (c # s)"
      by (metis append_eq_conv_conj block_add length_block)
    then have cmp: "memcmp m a b (length t) = 0 \<longleftrightarrow> occurs_at t (c # s) 0"
      using block_cstr[OF assms(1)] False by (auto simp: memcmp_0 occurs_at_def)
    have shift: "occurs_at t (c # s) (Suc i) \<longleftrightarrow> occurs_at t s i" for i by (simp add: occurs_at_def)
    have step: "strstr_loop m a b (length t) (length (c # s)) = (if occurs_at t (c # s) 0 then a else ?r)"
      using False cmp by (subst strstr_loop.simps) simp
    have "cstr m (Suc a) s" "Suc a \<noteq> NULL" using Cons.prems by (simp_all add: NULL_def)
    from Cons.IH[OF this] consider "?r = NULL" "\<forall>i. \<not> occurs_at t s i"
      | i where "?r = Suc a + i" "?r \<noteq> NULL" "occurs_at t s i" "\<forall>j < i. \<not> occurs_at t s j" by (auto simp: Let_def)
    moreover have first: "occurs_at t (c # s) 0 \<Longrightarrow> \<exists>i. a = a + i \<and> a \<noteq> NULL \<and> occurs_at t (c # s) i \<and>
        (\<forall>j < i. \<not> occurs_at t (c # s) j)"
      using Cons.prems(2) by (intro exI[of _ 0]) simp
    ultimately show ?thesis
    proof cases
      case 1
      have "\<not> occurs_at t (c # s) i" if "\<not> occurs_at t (c # s) 0" for i
        using 1(2) that shift by (cases i) auto
      with 1(1) first show ?thesis unfolding step Let_def by (cases "occurs_at t (c # s) 0") simp_all
    next
      case (2 i)
      have "\<forall>j < Suc i. \<not> occurs_at t (c # s) j" if "\<not> occurs_at t (c # s) 0"
        using 2(4) that shift by (auto simp: less_Suc_eq_0_disj)
      moreover have "occurs_at t (c # s) (Suc i)" using 2(3) shift by simp
      ultimately have "\<not> occurs_at t (c # s) 0 \<Longrightarrow> \<exists>i. ?r = a + i \<and> ?r \<noteq> NULL \<and> occurs_at t (c # s) i \<and>
          (\<forall>j < i. \<not> occurs_at t (c # s) j)"
        using 2(1,2) by (intro exI[of _ "Suc i"]) simp
      with first show ?thesis unfolding step Let_def by (cases "occurs_at t (c # s) 0") simp_all
    qed
  qed
qed


section \<open>Properties\<close>

text \<open>
  C21. \<^verbatim>\<open>memmove\<close> is correct however the two areas overlap: every byte of the destination
  gets the byte the source had before the call, and nothing else changes. The word-wise
  and the byte-wise part of \<^verbatim>\<open>memcpy\<close>, which it calls for a destination below the source,
  are both covered.
\<close>

theorem memmove_copies:
  "memmove m dest src count x =
    (if dest \<le> x \<and> x < dest + count then m (src + (x - dest)) else m x)"
  by (simp add: memmove_copied copied_def)

text \<open>
  C22. \<^verbatim>\<open>memchr_inv\<close>, which aligns its pointer and then compares eight bytes at a time with
  a word built by doubling, finds what the plain byte-wise scan of the whole area finds: the
  first byte that differs, or \<^verbatim>\<open>NULL\<close> exactly when all bytes are equal to \<open>c\<close>.
\<close>

theorem memchr_inv_scans:
  assumes "start \<noteq> NULL"
  shows "memchr_inv m start c bytes = check_bytes8 m start (ucast c) bytes \<and>
    (memchr_inv m start c bytes = NULL \<longleftrightarrow> (\<forall>i < bytes. m (start + i) = ucast c))"
  using assms by (simp add: memchr_inv_eq check_bytes8_NULL)

theorem memchr_inv_scans_witness:
  "memchr_inv (\<lambda>a. if a = 0x1020 then 1 else 7) 0x1003 7 40 =
     check_bytes8 (\<lambda>a. if a = 0x1020 then 1 else 7) 0x1003 (ucast (7 :: u32)) 40 \<and>
   (memchr_inv (\<lambda>a. if a = 0x1020 then 1 else 7) 0x1003 7 40 = NULL \<longleftrightarrow>
     (\<forall>i < 40. (if (0x1003 :: nat) + i = 0x1020 then 1 else 7 :: u8) = ucast (7 :: u32)))"
  by (rule memchr_inv_scans) (simp add: NULL_def)

text \<open>
  C23. \<^verbatim>\<open>strcmp\<close> on two strings returns (its loop ends), returns 0 exactly on equal strings and,
  when both hold 7-bit characters only, a negative number exactly when the first comes before
  the second in the lexicographic order of the bytes. Beyond 7 bits the sign may be wrong,
  because the difference is kept in a signed character.
\<close>

theorem strcmp_compares:
  assumes "cstr m cs s" and "cstr m ct t"
  shows "\<exists>r. strcmp m cs ct = Some r \<and> (r = 0 \<longleftrightarrow> s = t) \<and>
    ((\<forall>c \<in> set s \<union> set t. c \<le> 127) \<longrightarrow> (r < 0 \<longleftrightarrow> (s, t) \<in> lexord {(x, y). x < y}))"
  using strcmp_cstr[OF assms] first_diff_0[of s t] first_diff_ascii[of s t] cstr_nonzero[OF assms(1)]
    cstr_nonzero[OF assms(2)] by auto

theorem strcmp_compares_witness:
  "\<exists>r. strcmp ((\<lambda>_. 0)(8 := 0x61, 9 := 0x62, 16 := 0x61)) 8 16 = Some r \<and> (r = 0 \<longleftrightarrow> [0x61, 0x62] = [0x61 :: u8]) \<and>
    ((\<forall>c \<in> set [0x61, 0x62] \<union> set [0x61 :: u8]. c \<le> 127) \<longrightarrow>
      (r < 0 \<longleftrightarrow> ([0x61, 0x62], [0x61 :: u8]) \<in> lexord {(x, y). x < y}))"
  by (rule strcmp_compares) simp_all

text \<open>
  C24. \<^verbatim>\<open>strstr\<close> returns the address of the first occurrence of the second string in the first,
  or \<^verbatim>\<open>NULL\<close> when there is none.
\<close>

theorem strstr_finds_first:
  assumes "cstr m s1 s" and "cstr m s2 t" and "s1 \<noteq> NULL"
  shows "\<exists>r. strstr m s1 s2 = Some r \<and>
    (if \<exists>i. occurs_at t s i then r = s1 + (LEAST i. occurs_at t s i) else r = NULL)"
proof (cases "t = []")
  case True
  then have "occurs_at t s 0" by (simp add: occurs_at_def)
  then have "(LEAST i. occurs_at t s i) = 0" "\<exists>i. occurs_at t s i" by (auto simp: Least_eq_0)
  then show ?thesis using True strlen_cstr[OF assms(2)] by (simp add: strstr_def)
next
  case False
  define r where "r = strstr_loop m s1 s2 (length t) (length s)"
  have "strstr m s1 s2 = Some r"
    using False strlen_cstr[OF assms(1)] strlen_cstr[OF assms(2)] by (simp add: strstr_def r_def)
  moreover from strstr_loop_cstr[OF assms(2) False assms(1,3)]
  consider "r = NULL" "\<forall>i. \<not> occurs_at t s i"
    | i where "r = s1 + i" "occurs_at t s i" "\<forall>j < i. \<not> occurs_at t s j"
    unfolding r_def[symmetric] Let_def by blast
  then have "if \<exists>i. occurs_at t s i then r = s1 + (LEAST i. occurs_at t s i) else r = NULL"
  proof cases
    case (2 i)
    then have "(LEAST i. occurs_at t s i) = i" by (intro Least_equality) (auto simp: not_less[symmetric])
    with 2 show ?thesis by auto
  qed simp
  ultimately show ?thesis by blast
qed

theorem strstr_finds_first_witness:
  "\<exists>r. strstr ((\<lambda>_. 0)(8 := 0x61, 9 := 0x62, 16 := 0x62)) 8 16 = Some r \<and>
    (if \<exists>i. occurs_at [0x62] [0x61, 0x62] i then r = 8 + (LEAST i. occurs_at [0x62] [0x61, 0x62] i) else r = NULL)"
  by (rule strstr_finds_first) (simp_all add: NULL_def)

end
