(* ===== verification/Digest.thy ===== *)
theory Digest
  imports Prelude
begin

unbundle bit_operations_syntax

text \<open>
  What the message digests of \<^verbatim>\<open>common_uboot/lib\<close> share: the big-endian words, the
  context and the streaming code of \<^verbatim>\<open>sha1.c\<close> and \<^verbatim>\<open>sha256.c\<close> (the same text in both
  files), the chunked loop of the \<^verbatim>\<open>_wd\<close> functions, and the standard construction
  they implement: pad the message to 64-byte blocks and fold a compression function.
\<close>

section \<open>Words in byte arrays\<close>

definition GET_UINT32_BE :: "u8 list \<Rightarrow> nat \<Rightarrow> u32" where
  "GET_UINT32_BE b i = push_bit 24 (ucast (b ! i)) OR push_bit 16 (ucast (b ! (i + 1))) OR
     push_bit 8 (ucast (b ! (i + 2))) OR ucast (b ! (i + 3))"

text \<open>The four bytes that \<^verbatim>\<open>PUT_UINT32_BE\<close> stores.\<close>

definition PUT_UINT32_BE :: "u32 \<Rightarrow> u8 list" where
  "PUT_UINT32_BE n = [ucast (drop_bit 24 n), ucast (drop_bit 16 n), ucast (drop_bit 8 n), ucast n]"

text \<open>\<^verbatim>\<open>memcpy(b + i, xs, n)\<close> into a byte array.\<close>

definition put_bytes :: "u8 list \<Rightarrow> nat \<Rightarrow> u8 list \<Rightarrow> u8 list" where
  "put_bytes b i xs = take i b @ xs @ drop (i + length xs) b"

section \<open>The context and the streaming code\<close>

record sha_context =
  total0 :: u32
  total1 :: u32
  state :: "u32 list"
  buffer :: "u8 list"

type_synonym process_fn = "u32 list \<Rightarrow> u8 list \<Rightarrow> u32 list"

text \<open>The loop over full blocks at the end of an update, and the copy of what remains.\<close>

fun sha_update_tail :: "process_fn \<Rightarrow> sha_context \<Rightarrow> u8 list \<Rightarrow> nat \<Rightarrow> sha_context" where
  "sha_update_tail process ctx input left =
    (if length input \<ge> 64 then
       sha_update_tail process (ctx\<lparr>state := process (state ctx) (take 64 input)\<rparr>) (drop 64 input) left
     else if length input \<noteq> 0 then ctx\<lparr>buffer := put_bytes (buffer ctx) left input\<rparr>
     else ctx)"

declare sha_update_tail.simps [simp del]

definition sha_update :: "process_fn \<Rightarrow> sha_context \<Rightarrow> u8 list \<Rightarrow> sha_context" where
  "sha_update process ctx input =
    (let ilen = of_nat (length input) :: u32
     in if ilen = 0 then ctx
     else
       let left = total0 ctx AND 0x3F;
           fill = 64 - left;
           ctx = ctx\<lparr>total0 := total0 ctx + ilen\<rparr>;
           ctx = ctx\<lparr>total0 := total0 ctx AND 0xFFFFFFFF\<rparr>;
           ctx = (if total0 ctx < ilen then ctx\<lparr>total1 := total1 ctx + 1\<rparr> else ctx)
       in if left \<noteq> 0 \<and> ilen \<ge> fill then
            let ctx = ctx\<lparr>buffer := put_bytes (buffer ctx) (unat left) (take (unat fill) input)\<rparr>;
                ctx = ctx\<lparr>state := process (state ctx) (buffer ctx)\<rparr>
            in sha_update_tail process ctx (drop (unat fill) input) 0
          else sha_update_tail process ctx input (unat left))"

definition sha_padding :: "u8 list" where
  "sha_padding = 0x80 # replicate 63 0"

definition sha_finish :: "process_fn \<Rightarrow> sha_context \<Rightarrow> u8 list \<times> sha_context" where
  "sha_finish process ctx =
    (let high = drop_bit 29 (total0 ctx) OR push_bit 3 (total1 ctx);
         low = push_bit 3 (total0 ctx);
         msglen = PUT_UINT32_BE high @ PUT_UINT32_BE low;
         last = total0 ctx AND 0x3F;
         padn = (if last < 56 then 56 - last else 120 - last);
         ctx = sha_update process ctx (take (unat padn) sha_padding);
         ctx = sha_update process ctx msglen
     in (concat (map PUT_UINT32_BE (state ctx)), ctx))"

text \<open>
  The loop of the \<^verbatim>\<open>_wd\<close> functions, which hands the input to an update function in chunks
  and resets the watchdog in between. With a chunk size of 0 it never ends.
\<close>

partial_function (option) wd_chunks ::
  "('c \<Rightarrow> u8 list \<Rightarrow> 'c) \<Rightarrow> nat \<Rightarrow> 'c \<Rightarrow> u8 list \<Rightarrow> 'c option" where
  "wd_chunks upd chunk_sz ctx input =
    (if input = [] then Some ctx
     else let chunk = length input;
              chunk = (if chunk > chunk_sz then chunk_sz else chunk)
          in wd_chunks upd chunk_sz (upd ctx (take chunk input)) (drop chunk input))"

section \<open>The standard construction\<close>

text \<open>The full 64-byte blocks of a message, and what remains.\<close>

fun blocks :: "u8 list \<Rightarrow> u8 list list" where
  "blocks xs = (if length xs < 64 then [] else take 64 xs # blocks (drop 64 xs))"

fun rest :: "u8 list \<Rightarrow> u8 list" where
  "rest xs = (if length xs < 64 then xs else rest (drop 64 xs))"

declare blocks.simps [simp del] rest.simps [simp del]

text \<open>
  Padding: a one bit, zero bits up to 8 bytes before the end of a block, and the
  length of the message in bits as a 64-bit number.
\<close>

definition padded :: "(nat \<Rightarrow> u8 list) \<Rightarrow> u8 list \<Rightarrow> u8 list" where
  "padded enc msg = msg @ 0x80 # replicate ((119 - length msg mod 64) mod 64) 0 @ enc (8 * length msg)"

definition be64 :: "nat \<Rightarrow> u8 list" where
  "be64 n = map (\<lambda>i. of_nat (n div 2 ^ (8 * (7 - i)))) [0..<8]"

definition md_hash :: "(nat \<Rightarrow> u8 list) \<Rightarrow> ('s \<Rightarrow> u8 list \<Rightarrow> 's) \<Rightarrow> 's \<Rightarrow> u8 list \<Rightarrow> 's" where
  "md_hash enc compress iv msg = foldl compress iv (blocks (padded enc msg))"

section \<open>Lemmas on rotations\<close>

lemma rotr_shifts:
  assumes "0 < n" and "n < 32"
  shows "drop_bit n x OR push_bit (32 - n) x = word_rotr n (x :: u32)"
proof (rule bit_word_eqI)
  fix i assume "i < LENGTH(32)"
  with assms show "bit (drop_bit n x OR push_bit (32 - n) x) i = bit (word_rotr n x) i"
    by (cases "i + n < 32") (auto simp: bit_simps add.commute le_mod_geq dest: bit_imp_le_length)
qed

lemma rotl_shifts:
  assumes "0 < n" and "n < 32"
  shows "push_bit n x OR drop_bit (32 - n) x = word_rotl n (x :: u32)"
  using rotr_shifts[of "32 - n" x] assms by (simp add: word_rotl_eq_word_rotr or.commute)

section \<open>Lemmas on blocks\<close>

lemma blocks_short [simp]: "length xs < 64 \<Longrightarrow> blocks xs = []"
  by (simp add: blocks.simps)

lemma rest_short [simp]: "length xs < 64 \<Longrightarrow> rest xs = xs"
  by (simp add: rest.simps)

lemma blocks_append: "blocks (xs @ ys) = blocks xs @ blocks (rest xs @ ys)"
proof (induction xs rule: blocks.induct)
  case (1 xs)
  show ?case
  proof (cases "length xs < 64")
    case False
    then have "blocks (xs @ ys) = take 64 xs # blocks (drop 64 xs @ ys)" by (subst blocks.simps) simp
    with False 1 show ?thesis by (simp add: blocks.simps[of xs] rest.simps[of xs])
  qed simp
qed

lemma rest_append: "rest (xs @ ys) = rest (rest xs @ ys)"
proof (induction xs rule: rest.induct)
  case (1 xs)
  show ?case
  proof (cases "length xs < 64")
    case False
    then have "rest (xs @ ys) = rest (drop 64 xs @ ys)" by (subst rest.simps) simp
    with False 1 show ?thesis by (simp add: rest.simps[of xs])
  qed simp
qed

lemma length_rest: "length (rest xs) = length xs mod 64"
proof (induction xs rule: rest.induct)
  case (1 xs)
  then show ?case by (simp add: rest.simps[of xs] le_mod_geq)
qed

lemma blocks_64: "length xs = 64 \<Longrightarrow> blocks (xs @ ys) = xs # blocks ys"
  by (subst blocks.simps) simp

lemma rest_64: "length xs = 64 \<Longrightarrow> rest (xs @ ys) = rest ys"
  by (subst rest.simps) simp

lemma length_put_bytes [simp]: "i + length xs \<le> length b \<Longrightarrow> length (put_bytes b i xs) = length b"
  by (simp add: put_bytes_def)

lemma take_put_bytes: "i \<le> length b \<Longrightarrow> take (i + length xs) (put_bytes b i xs) = take i b @ xs"
  by (simp add: put_bytes_def)

lemma put_bytes_full: "i + length xs = length b \<Longrightarrow> put_bytes b i xs = take i b @ xs"
  by (simp add: put_bytes_def)

lemma put_bytes_Nil [simp]: "put_bytes b i [] = b"
  by (simp add: put_bytes_def)

lemma sha_update_tail_eq:
  "sha_update_tail f ctx input left =
    ctx\<lparr>state := foldl f (state ctx) (blocks input), buffer := put_bytes (buffer ctx) left (rest input)\<rparr>"
proof (induction f ctx input left rule: sha_update_tail.induct)
  case (1 f ctx input left)
  then show ?case
    by (subst sha_update_tail.simps) (simp add: blocks.simps[of input] rest.simps[of input])
qed

section \<open>What a context holds\<close>

text \<open>The context \<open>ctx\<close> has taken in the message \<open>msg\<close>.\<close>

definition sha_holds :: "process_fn \<Rightarrow> u32 list \<Rightarrow> sha_context \<Rightarrow> u8 list \<Rightarrow> bool" where
  "sha_holds f iv ctx msg \<longleftrightarrow>
     state ctx = foldl f iv (blocks msg) \<and> length (buffer ctx) = 64 \<and>
     take (length msg mod 64) (buffer ctx) = rest msg \<and>
     total0 ctx = of_nat (length msg) \<and> total1 ctx = of_nat (length msg div 2 ^ 32)"

lemma and_63: "x AND 0x3F = (of_nat (unat x mod 64) :: u32)"
proof -
  have "x AND 0x3F = x AND mask 6" by (simp add: mask_eq_exp_minus_1)
  also have "\<dots> = take_bit 6 x" by (simp add: take_bit_eq_mask)
  finally have "unat (x AND 0x3F) = take_bit 6 (unat x)" by (simp add: unsigned_take_bit_eq)
  then have "unat (x AND 0x3F) = unat (of_nat (unat x mod 64) :: u32)"
    by (simp add: take_bit_eq_mod unsigned_of_nat)
  then show ?thesis by (simp only: word_unat_eq_iff)
qed

lemma unat_and_63: "unat ((of_nat n :: u32) AND 0x3F) = n mod 64"
proof -
  have "unat (of_nat n :: u32) mod 64 = n mod 64"
    by (simp add: unsigned_of_nat take_bit_eq_mod mod_mod_cancel)
  then show ?thesis by (simp add: and_63 unsigned_of_nat take_bit_eq_mod)
qed

lemma total_carry:
  assumes "k < 2 ^ 32"
  shows "(of_nat (n + k) :: u32) < of_nat k \<longleftrightarrow> (n + k) div 2 ^ 32 = Suc (n div 2 ^ 32)"
    and "\<not> (of_nat (n + k) :: u32) < of_nat k \<longleftrightarrow> (n + k) div 2 ^ 32 = n div 2 ^ 32"
proof -
  define q r where "q = n div 2 ^ 32" and "r = n mod 2 ^ 32"
  have n: "n = 2 ^ 32 * q + r" "r < 2 ^ 32" by (simp_all add: q_def r_def)
  have "unat (of_nat (n + k) :: u32) = (r + k) mod 2 ^ 32" "unat (of_nat k :: u32) = k"
    using assms unfolding unat_of_nat by (simp_all add: r_def mod_simps)
  then have "(of_nat (n + k) :: u32) < of_nat k \<longleftrightarrow> (r + k) mod 2 ^ 32 < k"
    by (simp only: word_less_nat_alt)
  moreover have "(n + k) div 2 ^ 32 = q + (r + k) div 2 ^ 32" unfolding n(1) by (simp add: add.assoc)
  moreover have "(r + k) mod 2 ^ 32 < k \<longleftrightarrow> 2 ^ 32 \<le> r + k"
    using n(2) assms by (cases "2 ^ 32 \<le> r + k") (simp_all add: le_mod_geq)
  moreover have "(r + k) div 2 ^ 32 = (if 2 ^ 32 \<le> r + k then 1 else 0)"
    using n(2) assms by (auto simp: div_eq_dividend_iff le_div_geq)
  ultimately show "(of_nat (n + k) :: u32) < of_nat k \<longleftrightarrow> (n + k) div 2 ^ 32 = Suc (n div 2 ^ 32)"
    and "\<not> (of_nat (n + k) :: u32) < of_nat k \<longleftrightarrow> (n + k) div 2 ^ 32 = n div 2 ^ 32"
    unfolding q_def[symmetric] by auto
qed


text \<open>The first part of an update: the message length as two 32-bit words.\<close>

definition sha_count :: "sha_context \<Rightarrow> nat \<Rightarrow> sha_context" where
  "sha_count ctx n =
    (let t = total0 ctx + of_nat n
     in ctx\<lparr>total0 := t, total1 := (if t < of_nat n then total1 ctx + 1 else total1 ctx)\<rparr>)"

lemma sha_count_simps [simp]:
  "state (sha_count ctx n) = state ctx" "buffer (sha_count ctx n) = buffer ctx"
  by (simp_all add: sha_count_def Let_def)

lemma sha_count_totals:
  assumes "total0 ctx = of_nat n" and "total1 ctx = of_nat (n div 2 ^ 32)" and "k < 2 ^ 32"
  shows "total0 (sha_count ctx k) = of_nat (n + k)"
    and "total1 (sha_count ctx k) = of_nat ((n + k) div 2 ^ 32)"
proof -
  have t: "total0 ctx + of_nat k = of_nat (n + k)" by (simp add: assms(1))
  show "total0 (sha_count ctx k) = of_nat (n + k)"
    unfolding sha_count_def t Let_def by (simp del: of_nat_add)
  have "total1 (sha_count ctx k) =
      (if (of_nat (n + k) :: u32) < of_nat k then of_nat (Suc (n div 2 ^ 32)) else of_nat (n div 2 ^ 32))"
    unfolding sha_count_def t Let_def by (simp add: assms(2) del: of_nat_add)
  also have "\<dots> = of_nat ((n + k) div 2 ^ 32)"
    using total_carry[OF assms(3), of n] by (simp only: split: if_split) auto
  finally show "total1 (sha_count ctx k) = of_nat ((n + k) div 2 ^ 32)" .
qed

lemma sha_update_eq:
  assumes "total0 ctx = of_nat n" and "input \<noteq> []" and "length input < 2 ^ 32"
  shows "sha_update f ctx input =
    (let l = n mod 64; ctx = sha_count ctx (length input)
     in if l \<noteq> 0 \<and> length input \<ge> 64 - l then
          let b = put_bytes (buffer ctx) l (take (64 - l) input)
          in sha_update_tail f (ctx\<lparr>buffer := b, state := f (state ctx) b\<rparr>) (drop (64 - l) input) 0
        else sha_update_tail f ctx input l)"
proof -
  define l where "l = n mod 64"
  have l: "unat (total0 ctx AND 0x3F) = l" "l < 64" unfolding assms(1) unat_and_63 by (simp_all add: l_def)
  have left: "total0 ctx AND 0x3F = of_nat l" by (simp only: l(1)[symmetric] of_nat_unat ucast_id)
  have fill: "unat (64 - of_nat l :: u32) = 64 - l"
    using l(2) by (subst unat_sub) (simp_all add: word_le_nat_alt unsigned_of_nat take_bit_eq_mod)
  have len: "unat (of_nat (length input) :: u32) = length input"
    using assms(3) by (simp add: unat_of_nat)
  have 0: "(of_nat (length input) :: u32) \<noteq> 0" "(of_nat l :: u32) = 0 \<longleftrightarrow> l = 0"
    using assms(2) len l(2) by (auto simp: unsigned_of_nat take_bit_eq_mod word_unat_eq_iff)
  have ge: "64 - (of_nat l :: u32) \<le> of_nat (length input) \<longleftrightarrow> 64 - l \<le> length input"
    unfolding word_le_nat_alt fill len ..
  have "(0xFFFFFFFF :: u32) = - 1" by simp
  then have m: "x AND 0xFFFFFFFF = (x :: u32)" for x by (simp only: and.right_neutral)
  show ?thesis
    using 0 l(1) ge unfolding sha_update_def left l_def[symmetric] sha_count_def Let_def m fill
    by (simp add: m)
qed

lemma sha_update_holds:
  assumes "sha_holds f iv ctx msg" and "length xs < 2 ^ 32"
  shows "sha_holds f iv (sha_update f ctx xs) (msg @ xs)"
proof (cases "xs = []")
  case True
  then show ?thesis using assms(1) by (simp add: sha_update_def)
next
  case False
  define l where "l = length msg mod 64"
  define c where "c = sha_count ctx (length xs)"
  have h: "state ctx = foldl f iv (blocks msg)" "length (buffer ctx) = 64" "take l (buffer ctx) = rest msg"
    "total0 ctx = of_nat (length msg)" "total1 ctx = of_nat (length msg div 2 ^ 32)"
    using assms(1) by (simp_all add: sha_holds_def l_def)
  have l: "l < 64" "length (rest msg) = l" by (simp_all add: l_def length_rest)
  have c: "state c = state ctx" "buffer c = buffer ctx"
    "total0 c = of_nat (length (msg @ xs))" "total1 c = of_nat (length (msg @ xs) div 2 ^ 32)"
    unfolding c_def length_append using sha_count_totals[OF h(4,5) assms(2)] by (simp_all del: of_nat_add)
  have holdsI: "sha_holds f iv (c\<lparr>state := st, buffer := put_bytes b i r\<rparr>) (msg @ xs)"
    if "st = foldl f (state ctx) (blocks (rest msg @ xs))" "length b = 64" "i + length r \<le> 64"
      "take i b @ r = rest (rest msg @ xs)" for st b i r
  proof -
    have "length (msg @ xs) mod 64 = length (take i b @ r)"
      unfolding that(4) rest_append[of msg xs, symmetric] length_rest ..
    also have "\<dots> = i + length r" using that(2,3) by simp
    finally have "take (length (msg @ xs) mod 64) (put_bytes b i r) = rest (msg @ xs)"
      using that take_put_bytes[of i b r] by (simp only: rest_append[of msg xs])
    with that c h(1) show ?thesis unfolding sha_holds_def by (simp add: blocks_append[of msg xs])
  qed
  show ?thesis
  proof (cases "l \<noteq> 0 \<and> length xs \<ge> 64 - l")
    case True
    define b where "b = rest msg @ take (64 - l) xs"
    have b: "put_bytes (buffer ctx) l (take (64 - l) xs) = b" "length b = 64"
      using True h l by (simp_all add: put_bytes_full b_def)
    have xs: "rest msg @ xs = b @ drop (64 - l) xs" by (simp add: b_def)
    have "sha_update f ctx xs = c\<lparr>state := foldl f (f (state ctx) b) (blocks (drop (64 - l) xs)),
        buffer := put_bytes b 0 (rest (drop (64 - l) xs))\<rparr>"
      using sha_update_eq[OF h(4) False assms(2), of f] True b(1)
      unfolding l_def[symmetric] c_def[symmetric] Let_def c(1,2) by (simp add: sha_update_tail_eq)
    moreover have "length (rest (drop (64 - l) xs)) \<le> 64" by (simp add: length_rest)
    ultimately show ?thesis using holdsI[of _ b 0] b(2) by (simp add: xs blocks_64 rest_64)
  next
    case F: False
    have "sha_update f ctx xs = c\<lparr>state := foldl f (state ctx) (blocks xs), buffer := put_bytes (buffer ctx) l (rest xs)\<rparr>"
      using sha_update_eq[OF h(4) False assms(2), of f] F
      unfolding l_def[symmetric] c_def[symmetric] Let_def if_not_P[OF F] by (simp add: sha_update_tail_eq c)
    moreover have "blocks (rest msg @ xs) = blocks xs" "rest (rest msg @ xs) = take l (buffer ctx) @ rest xs"
      "l + length (rest xs) \<le> 64"
      using F l h(3) by (auto simp: length_rest)
    ultimately show ?thesis using holdsI[of _ "buffer ctx" l] h(2) by simp
  qed
qed


lemma low_bits: "push_bit 3 (of_nat n) = (of_nat (8 * n) :: u32)"
  by (simp add: push_bit_eq_mult)

lemma high_bits:
  "drop_bit 29 (of_nat n) OR push_bit 3 (of_nat (n div 2 ^ 32)) = (of_nat (8 * n div 2 ^ 32) :: u32)"
proof (rule bit_word_eqI)
  fix i assume "i < LENGTH(32)"
  have "8 * n div 2 ^ 32 = n div 2 ^ 29" by simp
  then have "8 * n div 2 ^ 32 = drop_bit 29 n" "n div 2 ^ 32 = drop_bit 32 n" by (simp_all only: drop_bit_eq_div)
  with \<open>i < LENGTH(32)\<close> show "bit (drop_bit 29 (of_nat n) OR push_bit 3 (of_nat (n div 2 ^ 32)) :: u32) i =
      bit (of_nat (8 * n div 2 ^ 32) :: u32) i"
    by (auto simp: bit_simps add.commute dest: bit_imp_le_length)
qed

lemma PUT_UINT32_BE_nat:
  "PUT_UINT32_BE (of_nat n) = map (\<lambda>i. of_nat (n div 2 ^ (8 * (3 - i)))) [0..<4]"
proof -
  have "(ucast (drop_bit k (of_nat n :: u32)) :: u8) = of_nat (n div 2 ^ k)" if "k + 8 \<le> 32" for k
  proof (rule bit_word_eqI)
    fix i assume "i < LENGTH(8)"
    with that show "bit (ucast (drop_bit k (of_nat n :: u32)) :: u8) i = bit (of_nat (n div 2 ^ k) :: u8) i"
      by (simp add: bit_simps drop_bit_eq_div[symmetric])
  qed
  from this[of 24] this[of 16] this[of 8] this[of 0] show ?thesis
    by (simp add: PUT_UINT32_BE_def upt_rec)
qed

lemma msglen_be64:
  "PUT_UINT32_BE (of_nat (n div 2 ^ 32)) @ PUT_UINT32_BE (of_nat n) = be64 n"
  unfolding PUT_UINT32_BE_nat be64_def
  by (simp add: upt_rec div_mult2_eq[symmetric])

lemma length_be64 [simp]: "length (be64 n) = 8"
  by (simp add: be64_def)

lemma padn:
  fixes last :: u32
  assumes "last = of_nat l" and "l < 64"
  shows "unat (if last < 56 then 56 - last else 120 - last) = Suc ((119 - l) mod 64)"
proof -
  have u: "unat last = l" using assms by (simp add: unsigned_of_nat take_bit_eq_mod)
  show ?thesis
  proof (cases "l < 56")
    case True
    then have "last < 56" "last \<le> 56" using u by (simp_all add: word_less_nat_alt word_le_nat_alt)
    moreover have "(119 - l) mod 64 = 55 - l" using True by (simp add: le_mod_geq)
    ultimately show ?thesis using True u by (simp add: unat_sub)
  next
    case False
    then have "\<not> last < 56" "last \<le> 120" using u assms(2) by (simp_all add: word_less_nat_alt word_le_nat_alt)
    moreover have "(119 - l) mod 64 = 119 - l" using False by simp
    ultimately show ?thesis using False u assms(2) by (simp add: unat_sub)
  qed
qed

lemma take_sha_padding: "k < 64 \<Longrightarrow> take (Suc k) sha_padding = 0x80 # replicate k 0"
  by (simp add: sha_padding_def min_def)

lemma sha_finish_hash:
  assumes "sha_holds f iv ctx msg"
  shows "\<exists>ctx'. sha_finish f ctx = (concat (map PUT_UINT32_BE (md_hash be64 f iv msg)), ctx') \<and> length (buffer ctx') = 64"
proof -
  define n where "n = length msg"
  define z where "z = (119 - n mod 64) mod 64"
  define c where "c = sha_update f ctx (take (Suc z) sha_padding)"
  have h: "total0 ctx = of_nat n" "total1 ctx = of_nat (n div 2 ^ 32)"
    using assms by (simp_all add: sha_holds_def n_def)
  have left: "total0 ctx AND 0x3F = of_nat (n mod 64)"
    unfolding h(1) by (simp only: unat_and_63[symmetric] of_nat_unat ucast_id)
  have padn: "unat (if total0 ctx AND 0x3F < 56 then 56 - (total0 ctx AND 0x3F) else 120 - (total0 ctx AND 0x3F)) = Suc z"
    using padn[OF left] by (simp add: z_def)
  define c' where "c' = sha_update f c (be64 (8 * n))"
  have fin: "sha_finish f ctx = (concat (map PUT_UINT32_BE (state c')), c')"
    unfolding sha_finish_def Let_def padn c'_def c_def unfolding h high_bits unfolding low_bits msglen_be64 ..
  have "z < 64" by (simp add: z_def)
  then have "sha_holds f iv c (msg @ 0x80 # replicate z 0)"
    using sha_update_holds[OF assms, of "take (Suc z) sha_padding"] unfolding c_def by (simp add: take_sha_padding)
  from sha_update_holds[OF this, of "be64 (8 * n)"]
  have "state c' = md_hash be64 f iv msg" "length (buffer c') = 64"
    unfolding c'_def sha_holds_def md_hash_def padded_def n_def[symmetric] z_def[symmetric] by simp_all
  then show ?thesis unfolding fin by simp
qed

section \<open>The interface of a streaming digest\<close>

text \<open>
  A context is started, takes in pieces of the message in any split, and is
  finished: the result is the digest of the concatenation.
\<close>

locale stream_hash =
  fixes starts :: "'c \<Rightarrow> 'c"
    and upd :: "'c \<Rightarrow> u8 list \<Rightarrow> 'c"
    and finish :: "'c \<Rightarrow> u8 list \<times> 'c"
    and valid :: "'c \<Rightarrow> bool"
    and holds :: "'c \<Rightarrow> u8 list \<Rightarrow> bool"
    and digest :: "u8 list \<Rightarrow> u8 list"
  assumes holds_starts: "valid c \<Longrightarrow> holds (starts c) []"
    and holds_upd: "holds c msg \<Longrightarrow> length xs < 2 ^ 32 \<Longrightarrow> holds (upd c xs) (msg @ xs)"
    and finish_digest: "holds c msg \<Longrightarrow> \<exists>c'. finish c = (digest msg, c') \<and> valid c'"
begin

lemma one_update:
  assumes "valid c" and "length xs < 2 ^ 32"
  shows "\<exists>c'. finish (upd (starts c) xs) = (digest xs, c') \<and> valid c'"
  using finish_digest[OF holds_upd[OF holds_starts[OF assms(1)] assms(2)]] by simp

lemma two_updates:
  assumes "valid c" and "length xs < 2 ^ 32" and "length ys < 2 ^ 32"
  shows "\<exists>c'. finish (upd (upd (starts c) xs) ys) = (digest (xs @ ys), c') \<and> valid c'"
  using finish_digest[OF holds_upd[OF holds_upd[OF holds_starts[OF assms(1)] assms(2)] assms(3)]] by simp

lemma many_updates:
  assumes "holds c msg" and "\<forall>x \<in> set xs. length x < 2 ^ 32"
  shows "fst (finish (foldl upd c xs)) = digest (msg @ concat xs)"
  using assms
proof (induction xs arbitrary: c msg)
  case Nil
  then show ?case using finish_digest[of c msg] by auto
next
  case (Cons x xs)
  from Cons.prems have "holds (upd c x) (msg @ x)" by (simp add: holds_upd)
  from Cons.IH[OF this] Cons.prems(2) show ?case by simp
qed

lemma wd_chunks_holds:
  assumes "0 < chunk_sz"
  shows "length input < 2 ^ 32 \<Longrightarrow> holds c msg \<Longrightarrow>
    \<exists>c'. wd_chunks upd chunk_sz c input = Some c' \<and> holds c' (msg @ input)"
proof (induction "length input" arbitrary: input c msg rule: less_induct)
  case less
  show ?case
  proof (cases "input = []")
    case True
    with less.prems show ?thesis by (subst wd_chunks.simps) simp
  next
    case False
    define k where "k = (if length input > chunk_sz then chunk_sz else length input)"
    have k: "length (drop k input) < length input" using False assms by (simp add: k_def)
    have h: "holds (upd c (take k input)) (msg @ take k input)" using less.prems by (simp add: holds_upd)
    have "length (drop k input) < 2 ^ 32" using k less.prems(1) by simp
    from less.hyps[OF k this h] show ?thesis
      using False by (subst wd_chunks.simps) (simp add: Let_def k_def)
  qed
qed

lemma wd_chunks_digest:
  assumes "valid c" and "0 < chunk_sz" and "length input < 2 ^ 32"
  shows "map_option (fst \<circ> finish) (wd_chunks upd chunk_sz (starts c) input) = Some (digest input)"
proof -
  obtain c' where c': "wd_chunks upd chunk_sz (starts c) input = Some c'" "holds c' input"
    using wd_chunks_holds[OF assms(2,3) holds_starts[OF assms(1)]] by auto
  then show ?thesis using finish_digest[OF c'(2)] by auto
qed

end

end
