(* ===== verification/Sha256.thy ===== *)
theory Sha256
  imports Digest
begin

unbundle bit_operations_syntax

text \<open>
  \<^verbatim>\<open>common_uboot/lib/sha256.c\<close>: the compression function with its eight rotating
  variables, the streaming functions and \<^verbatim>\<open>sha256_csum_wd\<close>, and the function FIPS 180-2
  defines, which they compute.
\<close>

section \<open>The compression function of the source\<close>

definition sha256_SHR :: "u32 \<Rightarrow> nat \<Rightarrow> u32" where
  "sha256_SHR x n = drop_bit n (x AND 0xFFFFFFFF)"

definition sha256_ROTR :: "u32 \<Rightarrow> nat \<Rightarrow> u32" where
  "sha256_ROTR x n = sha256_SHR x n OR push_bit (32 - n) x"

definition sha256_S0 :: "u32 \<Rightarrow> u32" where
  "sha256_S0 x = sha256_ROTR x 7 XOR sha256_ROTR x 18 XOR sha256_SHR x 3"

definition sha256_S1 :: "u32 \<Rightarrow> u32" where
  "sha256_S1 x = sha256_ROTR x 17 XOR sha256_ROTR x 19 XOR sha256_SHR x 10"

definition sha256_S2 :: "u32 \<Rightarrow> u32" where
  "sha256_S2 x = sha256_ROTR x 2 XOR sha256_ROTR x 13 XOR sha256_ROTR x 22"

definition sha256_S3 :: "u32 \<Rightarrow> u32" where
  "sha256_S3 x = sha256_ROTR x 6 XOR sha256_ROTR x 11 XOR sha256_ROTR x 25"

definition sha256_F0 :: "u32 \<Rightarrow> u32 \<Rightarrow> u32 \<Rightarrow> u32" where
  "sha256_F0 x y z = (x AND y) OR (z AND (x OR y))"

definition sha256_F1 :: "u32 \<Rightarrow> u32 \<Rightarrow> u32 \<Rightarrow> u32" where
  "sha256_F1 x y z = z XOR (x AND (y XOR z))"

definition sha256_R :: "u32 list \<Rightarrow> nat \<Rightarrow> u32" where
  "sha256_R W t = sha256_S1 (W ! (t - 2)) + W ! (t - 7) + sha256_S0 (W ! (t - 15)) + W ! (t - 16)"

text \<open>
  The macro \<^verbatim>\<open>P\<close>. The variables \<^verbatim>\<open>A\<close> to \<^verbatim>\<open>H\<close> are the list \<open>v\<close>; the arguments \<open>a\<close> to
  \<open>h\<close> say which variable plays which part.
\<close>

definition sha256_P ::
  "nat \<Rightarrow> nat \<Rightarrow> nat \<Rightarrow> nat \<Rightarrow> nat \<Rightarrow> nat \<Rightarrow> nat \<Rightarrow> nat \<Rightarrow> u32 \<Rightarrow> u32 \<Rightarrow> u32 list \<Rightarrow> u32 list" where
  "sha256_P a b c d e f g h x K v =
    (let temp1 = v ! h + sha256_S3 (v ! e) + sha256_F1 (v ! e) (v ! f) (v ! g) + K + x;
         temp2 = sha256_S2 (v ! a) + sha256_F0 (v ! a) (v ! b) (v ! c);
         v = v[d := v ! d + temp1]
     in v[h := temp1 + temp2])"

definition sha256_K :: "u32 list" where
  "sha256_K = [
     0x428A2F98, 0x71374491, 0xB5C0FBCF, 0xE9B5DBA5, 0x3956C25B, 0x59F111F1, 0x923F82A4, 0xAB1C5ED5,
     0xD807AA98, 0x12835B01, 0x243185BE, 0x550C7DC3, 0x72BE5D74, 0x80DEB1FE, 0x9BDC06A7, 0xC19BF174,
     0xE49B69C1, 0xEFBE4786, 0x0FC19DC6, 0x240CA1CC, 0x2DE92C6F, 0x4A7484AA, 0x5CB0A9DC, 0x76F988DA,
     0x983E5152, 0xA831C66D, 0xB00327C8, 0xBF597FC7, 0xC6E00BF3, 0xD5A79147, 0x06CA6351, 0x14292967,
     0x27B70A85, 0x2E1B2138, 0x4D2C6DFC, 0x53380D13, 0x650A7354, 0x766A0ABB, 0x81C2C92E, 0x92722C85,
     0xA2BFE8A1, 0xA81A664B, 0xC24B8B70, 0xC76C51A3, 0xD192E819, 0xD6990624, 0xF40E3585, 0x106AA070,
     0x19A4C116, 0x1E376C08, 0x2748774C, 0x34B0BCB5, 0x391C0CB3, 0x4ED8AA4A, 0x5B9CCA4F, 0x682E6FF3,
     0x748F82EE, 0x78A5636F, 0x84C87814, 0x8CC70208, 0x90BEFFFA, 0xA4506CEB, 0xBEF9A3F7, 0xC67178F2]"

text \<open>
  Line \<open>t\<close> of the 64 invocations of \<^verbatim>\<open>P\<close>: the variables are passed rotated by \<open>t\<close>
  places, the data word is \<^verbatim>\<open>W[t]\<close>, computed first by \<^verbatim>\<open>R(t)\<close> from line 16 on.
\<close>

definition sha256_arg :: "nat \<Rightarrow> nat \<Rightarrow> nat" where
  "sha256_arg t j = (j + 8 - t mod 8) mod 8"

definition sha256_line :: "nat \<Rightarrow> u32 list \<times> u32 list \<Rightarrow> u32 list \<times> u32 list" where
  "sha256_line t = (\<lambda>(W, v).
    let W = (if t < 16 then W else W[t := sha256_R W t]);
        i = sha256_arg t
    in (W, sha256_P (i 0) (i 1) (i 2) (i 3) (i 4) (i 5) (i 6) (i 7) (W ! t) (sha256_K ! t) v))"

definition sha256_process :: "u32 list \<Rightarrow> u8 list \<Rightarrow> u32 list" where
  "sha256_process st data =
    (let W = map (\<lambda>i. GET_UINT32_BE data (4 * i)) [0..<16] @ replicate 48 0;
         (W, v) = fold sha256_line [0..<64] (W, st)
     in map2 (+) st v)"

section \<open>Streaming\<close>

definition sha256_iv :: "u32 list" where
  "sha256_iv = [0x6A09E667, 0xBB67AE85, 0x3C6EF372, 0xA54FF53A, 0x510E527F, 0x9B05688C, 0x1F83D9AB, 0x5BE0CD19]"

definition sha256_starts :: "sha_context \<Rightarrow> sha_context" where
  "sha256_starts ctx = ctx\<lparr>total0 := 0, total1 := 0, state := sha256_iv\<rparr>"

definition sha256_update :: "sha_context \<Rightarrow> u8 list \<Rightarrow> sha_context" where
  "sha256_update = sha_update sha256_process"

definition sha256_finish :: "sha_context \<Rightarrow> u8 list \<times> sha_context" where
  "sha256_finish = sha_finish sha256_process"

text \<open>
  \<open>wd\<close> says whether a watchdog is configured; \<open>ctx\<close> is the uninitialised context on the
  stack.
\<close>

definition sha256_csum_wd :: "bool \<Rightarrow> sha_context \<Rightarrow> u8 list \<Rightarrow> nat \<Rightarrow> u8 list option" where
  "sha256_csum_wd wd ctx input chunk_sz =
    (let ctx = sha256_starts ctx
     in map_option (fst \<circ> sha256_finish)
          (if wd then wd_chunks sha256_update chunk_sz ctx input else Some (sha256_update ctx input)))"

section \<open>The standard\<close>

text \<open>FIPS 180-2, sections 4.1.2, 5.1.1 and 6.2.2.\<close>

definition Ch :: "u32 \<Rightarrow> u32 \<Rightarrow> u32 \<Rightarrow> u32" where "Ch x y z = (x AND y) XOR (NOT x AND z)"
definition Maj :: "u32 \<Rightarrow> u32 \<Rightarrow> u32 \<Rightarrow> u32" where "Maj x y z = (x AND y) XOR (x AND z) XOR (y AND z)"
definition Sigma0 :: "u32 \<Rightarrow> u32" where "Sigma0 x = word_rotr 2 x XOR word_rotr 13 x XOR word_rotr 22 x"
definition Sigma1 :: "u32 \<Rightarrow> u32" where "Sigma1 x = word_rotr 6 x XOR word_rotr 11 x XOR word_rotr 25 x"
definition sigma0 :: "u32 \<Rightarrow> u32" where "sigma0 x = word_rotr 7 x XOR word_rotr 18 x XOR drop_bit 3 x"
definition sigma1 :: "u32 \<Rightarrow> u32" where "sigma1 x = word_rotr 17 x XOR word_rotr 19 x XOR drop_bit 10 x"

fun schedule256 :: "u8 list \<Rightarrow> nat \<Rightarrow> u32" where
  "schedule256 M t =
    (if t < 16 then GET_UINT32_BE M (4 * t)
     else sigma1 (schedule256 M (t - 2)) + schedule256 M (t - 7) +
          sigma0 (schedule256 M (t - 15)) + schedule256 M (t - 16))"

declare schedule256.simps [simp del]

definition round256 :: "u32 \<Rightarrow> u32 \<Rightarrow> u32 list \<Rightarrow> u32 list" where
  "round256 K W s =
    (let a = s ! 0; b = s ! 1; c = s ! 2; d = s ! 3; e = s ! 4; f = s ! 5; g = s ! 6; h = s ! 7;
         T1 = h + Sigma1 e + Ch e f g + K + W;
         T2 = Sigma0 a + Maj a b c
     in [T1 + T2, a, b, c, d + T1, e, f, g])"

definition compress256 :: "u32 list \<Rightarrow> u8 list \<Rightarrow> u32 list" where
  "compress256 H M = map2 (+) H (fold (\<lambda>t. round256 (sha256_K ! t) (schedule256 M t)) [0..<64] H)"

definition SHA256 :: "u8 list \<Rightarrow> u8 list" where
  "SHA256 msg = concat (map PUT_UINT32_BE (md_hash be64 compress256 sha256_iv msg))"

section \<open>The source computes the standard\<close>

lemma SHR_eq: "sha256_SHR x n = drop_bit n x"
proof -
  have "(0xFFFFFFFF :: u32) = - 1" by simp
  then show ?thesis unfolding sha256_SHR_def by (simp only: and.right_neutral)
qed

lemma ROTR_eq: "0 < n \<Longrightarrow> n < 32 \<Longrightarrow> sha256_ROTR x n = word_rotr n x"
  unfolding sha256_ROTR_def SHR_eq by (rule rotr_shifts)

lemma F0_eq: "sha256_F0 x y z = Maj x y z"
  by (rule bit_word_eqI) (auto simp: sha256_F0_def Maj_def bit_simps)

lemma F1_eq: "sha256_F1 x y z = Ch x y z"
  by (rule bit_word_eqI) (auto simp: sha256_F1_def Ch_def bit_simps)

lemmas sha256_fun_eqs = sha256_S0_def sha256_S1_def sha256_S2_def sha256_S3_def
  Sigma0_def Sigma1_def sigma0_def sigma1_def SHR_eq ROTR_eq F0_eq F1_eq

lemma S_eqs: "sha256_S0 = sigma0" "sha256_S1 = sigma1" "sha256_S2 = Sigma0" "sha256_S3 = Sigma1"
  by (rule ext, simp add: sha256_fun_eqs)+

text \<open>The variables in the order of their parts at line \<open>t\<close>.\<close>

definition parts256 :: "nat \<Rightarrow> u32 list \<Rightarrow> u32 list" where
  "parts256 t v = map (\<lambda>j. v ! sha256_arg t j) [0..<8]"

lemma P_round:
  assumes "length v = 8"
  shows "parts256 (Suc t) (sha256_P (sha256_arg t 0) (sha256_arg t 1) (sha256_arg t 2) (sha256_arg t 3)
      (sha256_arg t 4) (sha256_arg t 5) (sha256_arg t 6) (sha256_arg t 7) x K v) = round256 K x (parts256 t v)"
proof -
  obtain a b c d e f g h where v: "v = [a, b, c, d, e, f, g, h]"
    using assms by (auto simp: length_Suc_conv numeral_eq_Suc)
  have "t mod 8 < 8" by simp
  then consider "t mod 8 = 0" | "t mod 8 = 1" | "t mod 8 = 2" | "t mod 8 = 3" | "t mod 8 = 4" | "t mod 8 = 5"
    | "t mod 8 = 6" | "t mod 8 = 7" by linarith
  then show ?thesis
    by cases (simp_all add: v parts256_def sha256_arg_def mod_Suc upt_rec sha256_P_def round256_def Let_def S_eqs F0_eq F1_eq)
qed


lemma length_P [simp]: "length (sha256_P a b c d e f g h x K v) = length v"
  by (simp add: sha256_P_def Let_def)

lemma R_schedule:
  assumes "\<forall>j < t. W ! j = schedule256 M j" and "16 \<le> t"
  shows "sha256_R W t = schedule256 M t"
  using assms by (subst schedule256.simps) (simp add: sha256_R_def S_eqs)

lemma sha256_line_inv:
  assumes "length W = 64" and "length v = 8" and "\<forall>j < max 16 t. W ! j = schedule256 M j" and "t < 64"
    and "sha256_line t (W, v) = (W', v')"
  shows "length W' = 64" and "length v' = 8" and "\<forall>j < max 16 (Suc t). W' ! j = schedule256 M j"
    and "parts256 (Suc t) v' = round256 (sha256_K ! t) (schedule256 M t) (parts256 t v)"
proof -
  have W': "W' = (if t < 16 then W else W[t := sha256_R W t])" using assms(5) by (simp add: sha256_line_def Let_def)
  then show "length W' = 64" using assms(1) by simp
  have R: "t \<ge> 16 \<Longrightarrow> sha256_R W t = schedule256 M t" using assms(3) by (intro R_schedule) auto
  then show sch: "\<forall>j < max 16 (Suc t). W' ! j = schedule256 M j"
    using assms(1,3,4) unfolding W' by (auto simp: nth_list_update less_Suc_eq)
  have v': "v' = sha256_P (sha256_arg t 0) (sha256_arg t 1) (sha256_arg t 2) (sha256_arg t 3)
      (sha256_arg t 4) (sha256_arg t 5) (sha256_arg t 6) (sha256_arg t 7) (W' ! t) (sha256_K ! t) v"
    using assms(5) unfolding W' by (simp add: sha256_line_def Let_def)
  then show "length v' = 8" using assms(2) by simp
  have "W' ! t = schedule256 M t" using sch by simp
  then show "parts256 (Suc t) v' = round256 (sha256_K ! t) (schedule256 M t) (parts256 t v)"
    unfolding v' P_round[OF assms(2)] by simp
qed

lemma sha256_lines:
  assumes "length st = 8"
  shows "t \<le> 64 \<Longrightarrow> fold sha256_line [0..<t] (map (\<lambda>i. GET_UINT32_BE M (4 * i)) [0..<16] @ replicate 48 0, st) = (W, v) \<Longrightarrow>
    length W = 64 \<and> length v = 8 \<and> (\<forall>j < max 16 t. W ! j = schedule256 M j) \<and>
    parts256 t v = fold (\<lambda>t. round256 (sha256_K ! t) (schedule256 M t)) [0..<t] st"
proof (induction t arbitrary: W v)
  case 0
  have "parts256 0 st = st" using assms by (auto simp: parts256_def sha256_arg_def intro!: nth_equalityI)
  then show ?case using 0 assms
    by (auto simp: nth_append schedule256.simps[of M])
next
  case (Suc t)
  obtain W1 v1 where f: "fold sha256_line [0..<t] (map (\<lambda>i. GET_UINT32_BE M (4 * i)) [0..<16] @ replicate 48 0, st) = (W1, v1)"
    by (rule prod.exhaust)
  then have line: "sha256_line t (W1, v1) = (W, v)" using Suc.prems(2) by simp
  from Suc.IH[OF _ f] Suc.prems(1) have h: "length W1 = 64" "length v1 = 8" "\<forall>j < max 16 t. W1 ! j = schedule256 M j"
    "parts256 t v1 = fold (\<lambda>t. round256 (sha256_K ! t) (schedule256 M t)) [0..<t] st" by auto
  from Suc.prems(1) have "t < 64" by simp
  note l = sha256_line_inv[OF h(1-3) this line]
  show ?case using l(1-3) unfolding l(4) h(4) by simp
qed

lemma sha256_process_eq: "length st = 8 \<Longrightarrow> sha256_process st M = compress256 st M"
proof -
  assume st: "length st = 8"
  obtain W v where f: "fold sha256_line [0..<64] (map (\<lambda>i. GET_UINT32_BE M (4 * i)) [0..<16] @ replicate 48 0, st) = (W, v)"
    by (rule prod.exhaust)
  have h: "length v = 8" "parts256 64 v = fold (\<lambda>t. round256 (sha256_K ! t) (schedule256 M t)) [0..<64] st"
    using sha256_lines[OF st order_refl f] by simp_all
  have "parts256 64 v = v" using h(1) by (auto simp: parts256_def sha256_arg_def intro!: nth_equalityI)
  then show "sha256_process st M = compress256 st M"
    using f h(2) by (simp add: sha256_process_def compress256_def Let_def)
qed

lemma length_round256: "length (round256 K W s) = 8"
  by (simp add: round256_def Let_def)

lemma length_compress256: "length H = 8 \<Longrightarrow> length (compress256 H M) = 8"
proof -
  have "length (fold (\<lambda>t. round256 (sha256_K ! t) (schedule256 M t)) ts s) = 8" if "length s = 8" for ts s
    using that by (induction ts arbitrary: s) (simp_all add: length_round256)
  then show "length H = 8 \<Longrightarrow> length (compress256 H M) = 8" by (simp add: compress256_def)
qed

lemma foldl_process_eq: "length st = 8 \<Longrightarrow> foldl sha256_process st bs = foldl compress256 st bs"
  by (induction bs arbitrary: st) (simp_all add: sha256_process_eq length_compress256)

lemma md_hash_process: "md_hash be64 sha256_process sha256_iv msg = md_hash be64 compress256 sha256_iv msg"
  unfolding md_hash_def by (rule foldl_process_eq) (simp add: sha256_iv_def)

interpretation hash256: stream_hash sha256_starts sha256_update sha256_finish
  "\<lambda>c. length (buffer c) = 64" "sha_holds sha256_process sha256_iv" SHA256
proof unfold_locales
  show "sha_holds sha256_process sha256_iv (sha256_starts c) []" if "length (buffer c) = 64" for c
    using that by (simp add: sha_holds_def sha256_starts_def)
  show "\<exists>c'. sha256_finish c = (SHA256 msg, c') \<and> length (buffer c') = 64" if "sha_holds sha256_process sha256_iv c msg" for c msg
    using sha_finish_hash[OF that] by (simp add: sha256_finish_def SHA256_def md_hash_process)
qed (simp add: sha256_update_def sha_update_holds)

section \<open>Properties\<close>

text \<open>
  C28. The digest of \<^verbatim>\<open>sha256_csum_wd\<close> is the SHA-256 digest of FIPS 180-2 of the input,
  with and without a watchdog, for every chunk size above 0; and any sequence of updates
  between a start and a finish gives the digest of the concatenated pieces, whatever their
  sizes and whatever the buffer held before.
\<close>

theorem sha256_digests:
  assumes "length (buffer ctx) = 64"
  shows "(0 < chunk_sz \<longrightarrow> length input < 2 ^ 31 \<longrightarrow> sha256_csum_wd wd ctx input chunk_sz = Some (SHA256 input)) \<and>
    ((\<forall>x \<in> set pieces. length x < 2 ^ 32) \<longrightarrow>
      fst (sha256_finish (foldl sha256_update (sha256_starts ctx) pieces)) = SHA256 (concat pieces))"
  using hash256.wd_chunks_digest[OF assms, of chunk_sz input] hash256.one_update[OF assms, of input]
    hash256.many_updates[OF hash256.holds_starts[OF assms], of pieces]
  by (auto simp: sha256_csum_wd_def Let_def)

theorem sha256_digests_witness:
  "sha256_csum_wd True \<lparr>total0 = 7, total1 = 7, state = [], buffer = replicate 64 7\<rparr> [0x61, 0x62, 0x63] 2 =
     Some (SHA256 [0x61, 0x62, 0x63]) \<and>
   fst (sha256_finish (foldl sha256_update (sha256_starts \<lparr>total0 = 7, total1 = 7, state = [], buffer = replicate 64 7\<rparr>)
     [[0x61], [0x62, 0x63]])) = SHA256 [0x61, 0x62, 0x63]"
  using sha256_digests[of "\<lparr>total0 = 7, total1 = 7, state = [], buffer = replicate 64 7\<rparr>" 2 "[0x61, 0x62, 0x63]" True
    "[[0x61], [0x62, 0x63]]"] by simp

section \<open>The constants\<close>

text \<open>
  The standard takes the constants from the first 64 primes: \<open>w\<close> is the first 32 bits of
  the fractional part of the \<open>k\<close>-th root of \<open>p\<close>. A number below \<open>18 ^ 2\<close> is prime when no
  number below 18 divides it properly.
\<close>

definition frac_root :: "nat \<Rightarrow> nat \<Rightarrow> u32 \<Rightarrow> bool" where
  "frac_root k p w \<longleftrightarrow> (\<exists>r. r ^ k \<le> p * 2 ^ (32 * k) \<and> p * 2 ^ (32 * k) < (r + 1) ^ k \<and> w = of_nat r)"

definition small_primes :: "nat list" where
  "small_primes = filter (\<lambda>n. list_all (\<lambda>k. n \<le> k \<or> n mod k \<noteq> 0) [2..<18]) [2..<312]"

definition root_list_ok :: "nat \<Rightarrow> nat list \<Rightarrow> nat list \<Rightarrow> u32 list \<Rightarrow> bool" where
  "root_list_ok k ps rs ws \<longleftrightarrow>
     list_all (\<lambda>(p, r, w). r ^ k \<le> p * 2 ^ (32 * k) \<and> p * 2 ^ (32 * k) < (r + 1) ^ k \<and> w = of_nat r) (zip ps (zip rs ws)) \<and>
     length rs = length ps \<and> length ws = length ps"

lemma root_list_ok_frac_root: "root_list_ok k ps rs ws \<Longrightarrow> list_all2 (frac_root k) ps ws"
  unfolding root_list_ok_def list_all2_conv_all_nth list_all_length frac_root_def by auto

lemma small_primes_eq: "small_primes = [
     2, 3, 5, 7, 11, 13, 17, 19, 23, 29, 31, 37, 41, 43, 47, 53,
     59, 61, 67, 71, 73, 79, 83, 89, 97, 101, 103, 107, 109, 113, 127, 131,
     137, 139, 149, 151, 157, 163, 167, 173, 179, 181, 191, 193, 197, 199, 211, 223,
     227, 229, 233, 239, 241, 251, 257, 263, 269, 271, 277, 281, 283, 293, 307, 311]"
  unfolding small_primes_def by (simp add: upt_rec)

lemma cube_roots: "root_list_ok 3 small_primes [
     5411319704, 6194414737, 7344290767, 8215976869, 9551921755, 10098905585,
     11043570340, 11460697813, 12214315672, 13195500289, 13492127166, 14311783875,
     14809980276, 15046980094, 15499789991, 16133124468, 16720292289, 16907126662,
     17444216262, 17784676812, 17950125167, 18429019306, 18734950876, 19175934170,
     19734090066, 20001703533, 20132865992, 20390182855, 20516441075, 20764397895,
     21588763473, 21813078375, 22141143685, 22248366392, 22769593852, 22871018771,
     23170020180, 23461497531, 23651862830, 23931792517, 24205322401, 24295138891,
     24734567280, 24820601251, 24990902297, 25075189284, 25569408389, 26045227120,
     26200031510, 26276752392, 26428864332, 26653801653, 26727943347, 27092625994,
     27306805839, 27517677555, 27725365998, 27793908591, 27997534228, 28131656200,
     28198240250, 28526537963, 28973835255, 29099129074] sha256_K"
  unfolding small_primes_eq sha256_K_def root_list_ok_def by simp

lemma square_roots: "root_list_ok 2 (take 8 small_primes) [
     6074000999, 7439101573, 9603838834, 11363415354, 14244795007, 15485724812,
     17708603819, 18721328409] sha256_iv"
  unfolding small_primes_eq sha256_iv_def root_list_ok_def by simp


text \<open>
  C32. The constants of the source are those of the standard: the round constants are the first
  32 bits of the fractional parts of the cube roots of the first 64 primes, the initial state those
  of the square roots of the first eight.
\<close>

theorem sha256_constants:
  "list_all2 (frac_root 3) small_primes sha256_K \<and> list_all2 (frac_root 2) (take 8 small_primes) sha256_iv"
  using root_list_ok_frac_root[OF cube_roots] root_list_ok_frac_root[OF square_roots] by blast

end
