(* ===== verification/Sha1.thy ===== *)
theory Sha1
  imports Digest
begin

unbundle bit_operations_syntax

text \<open>
  \<^verbatim>\<open>common_uboot/lib/sha1.c\<close>: the compression function with its ring of 16 words and
  five rotating variables, the streaming functions, \<^verbatim>\<open>sha1_csum\<close>, \<^verbatim>\<open>sha1_csum_wd\<close> and
  \<^verbatim>\<open>sha1_hmac\<close>, and the functions FIPS 180-1 and RFC 2104 define.
  \<^verbatim>\<open>unsigned long\<close> has 32 bits on the target.
\<close>

section \<open>The compression function of the source\<close>

definition sha1_S :: "u32 \<Rightarrow> nat \<Rightarrow> u32" where
  "sha1_S x n = push_bit n x OR drop_bit (32 - n) (x AND 0xFFFFFFFF)"

text \<open>The macro \<^verbatim>\<open>R\<close>: the new value of \<^verbatim>\<open>W[t & 0x0F]\<close>.\<close>

definition sha1_R :: "u32 list \<Rightarrow> nat \<Rightarrow> u32" where
  "sha1_R W t =
    (let temp = W ! ((t - 3) AND 0x0F) XOR W ! ((t - 8) AND 0x0F) XOR W ! ((t - 14) AND 0x0F) XOR W ! (t AND 0x0F)
     in sha1_S temp 1)"

text \<open>The definitions of \<^verbatim>\<open>F\<close> and \<^verbatim>\<open>K\<close> in force at line \<open>t\<close>.\<close>

definition sha1_F :: "nat \<Rightarrow> u32 \<Rightarrow> u32 \<Rightarrow> u32 \<Rightarrow> u32" where
  "sha1_F t x y z =
    (if t < 20 then z XOR (x AND (y XOR z))
     else if t < 40 then x XOR y XOR z
     else if t < 60 then (x AND y) OR (z AND (x OR y))
     else x XOR y XOR z)"

definition sha1_K :: "nat \<Rightarrow> u32" where
  "sha1_K t =
    (if t < 20 then 0x5A827999 else if t < 40 then 0x6ED9EBA1 else if t < 60 then 0x8F1BBCDC else 0xCA62C1D6)"

text \<open>The macro \<^verbatim>\<open>P\<close> on the variables \<^verbatim>\<open>A\<close> to \<^verbatim>\<open>E\<close>, here the list \<open>v\<close>.\<close>

definition sha1_P :: "nat \<Rightarrow> nat \<Rightarrow> nat \<Rightarrow> nat \<Rightarrow> nat \<Rightarrow> nat \<Rightarrow> u32 \<Rightarrow> u32 list \<Rightarrow> u32 list" where
  "sha1_P t a b c d e x v =
    (let v = v[e := v ! e + (sha1_S (v ! a) 5 + sha1_F t (v ! b) (v ! c) (v ! d) + sha1_K t + x)]
     in v[b := sha1_S (v ! b) 30])"

text \<open>Line \<open>t\<close> of the 80 invocations of \<^verbatim>\<open>P\<close>, with the variables rotated by \<open>t\<close> places.\<close>

definition sha1_arg :: "nat \<Rightarrow> nat \<Rightarrow> nat" where
  "sha1_arg t j = (j + 5 - t mod 5) mod 5"

definition sha1_line :: "nat \<Rightarrow> u32 list \<times> u32 list \<Rightarrow> u32 list \<times> u32 list" where
  "sha1_line t = (\<lambda>(W, v).
    let W = (if t < 16 then W else W[t AND 0x0F := sha1_R W t]);
        i = sha1_arg t
    in (W, sha1_P t (i 0) (i 1) (i 2) (i 3) (i 4) (W ! (t AND 0x0F)) v))"

definition sha1_process :: "u32 list \<Rightarrow> u8 list \<Rightarrow> u32 list" where
  "sha1_process st data =
    (let W = map (\<lambda>i. GET_UINT32_BE data (4 * i)) [0..<16];
         (W, v) = fold sha1_line [0..<80] (W, st)
     in map2 (+) st v)"

section \<open>Streaming\<close>

definition sha1_iv :: "u32 list" where
  "sha1_iv = [0x67452301, 0xEFCDAB89, 0x98BADCFE, 0x10325476, 0xC3D2E1F0]"

definition sha1_starts :: "sha_context \<Rightarrow> sha_context" where
  "sha1_starts ctx = ctx\<lparr>total0 := 0, total1 := 0, state := sha1_iv\<rparr>"

definition sha1_update :: "sha_context \<Rightarrow> u8 list \<Rightarrow> sha_context" where
  "sha1_update = sha_update sha1_process"

definition sha1_finish :: "sha_context \<Rightarrow> u8 list \<times> sha_context" where
  "sha1_finish = sha_finish sha1_process"

definition sha1_csum :: "sha_context \<Rightarrow> u8 list \<Rightarrow> u8 list" where
  "sha1_csum ctx input = fst (sha1_finish (sha1_update (sha1_starts ctx) input))"

definition sha1_csum_wd :: "bool \<Rightarrow> sha_context \<Rightarrow> u8 list \<Rightarrow> nat \<Rightarrow> u8 list option" where
  "sha1_csum_wd wd ctx input chunk_sz =
    (let ctx = sha1_starts ctx
     in map_option (fst \<circ> sha1_finish)
          (if wd then wd_chunks sha1_update chunk_sz ctx input else Some (sha1_update ctx input)))"

text \<open>
  The loop that mixes the key into the two pads: it stops after 64 bytes.
\<close>

function hmac_pad :: "nat \<Rightarrow> u8 list \<Rightarrow> u8 list \<Rightarrow> u8 list" where
  "hmac_pad i key pad =
    (if i < length key then if i \<ge> 64 then pad else hmac_pad (Suc i) key (pad[i := pad ! i XOR key ! i]) else pad)"
  by pat_completeness auto
termination by (relation "measure (\<lambda>(i, key, pad). length key - i)") auto

declare hmac_pad.simps [simp del]

definition sha1_hmac :: "sha_context \<Rightarrow> u8 list \<Rightarrow> u8 list \<Rightarrow> u8 list" where
  "sha1_hmac ctx key input =
    (let k_ipad = hmac_pad 0 key (replicate 64 0x36);
         k_opad = hmac_pad 0 key (replicate 64 0x5C);
         ctx = sha1_starts ctx;
         ctx = sha1_update ctx k_ipad;
         ctx = sha1_update ctx input;
         (tmpbuf, ctx) = sha1_finish ctx;
         ctx = sha1_starts ctx;
         ctx = sha1_update ctx k_opad;
         ctx = sha1_update ctx tmpbuf
     in fst (sha1_finish ctx))"

section \<open>The standards\<close>

text \<open>FIPS 180-1, sections 5 and 7, and RFC 2104.\<close>

fun schedule1 :: "u8 list \<Rightarrow> nat \<Rightarrow> u32" where
  "schedule1 M t =
    (if t < 16 then GET_UINT32_BE M (4 * t)
     else word_rotl 1 (schedule1 M (t - 3) XOR schedule1 M (t - 8) XOR schedule1 M (t - 14) XOR schedule1 M (t - 16)))"

declare schedule1.simps [simp del]

definition f1 :: "nat \<Rightarrow> u32 \<Rightarrow> u32 \<Rightarrow> u32 \<Rightarrow> u32" where
  "f1 t B C D =
    (if t < 20 then (B AND C) OR (NOT B AND D)
     else if t < 40 then B XOR C XOR D
     else if t < 60 then (B AND C) OR (B AND D) OR (C AND D)
     else B XOR C XOR D)"

definition round1 :: "nat \<Rightarrow> u32 \<Rightarrow> u32 list \<Rightarrow> u32 list" where
  "round1 t W s =
    (let A = s ! 0; B = s ! 1; C = s ! 2; D = s ! 3; E = s ! 4
     in [word_rotl 5 A + f1 t B C D + E + W + sha1_K t, A, word_rotl 30 B, C, D])"

definition compress1 :: "u32 list \<Rightarrow> u8 list \<Rightarrow> u32 list" where
  "compress1 H M = map2 (+) H (fold (\<lambda>t. round1 t (schedule1 M t)) [0..<80] H)"

definition SHA1 :: "u8 list \<Rightarrow> u8 list" where
  "SHA1 msg = concat (map PUT_UINT32_BE (md_hash be64 compress1 sha1_iv msg))"

definition xor_bytes :: "u8 \<Rightarrow> u8 list \<Rightarrow> u8 list" where
  "xor_bytes c = map (\<lambda>b. b XOR c)"

text \<open>HMAC for a key of at most a block, which is filled up with zero bytes.\<close>

definition HMAC_SHA1 :: "u8 list \<Rightarrow> u8 list \<Rightarrow> u8 list" where
  "HMAC_SHA1 key msg =
    (let k = key @ replicate (64 - length key) 0
     in SHA1 (xor_bytes 0x5C k @ SHA1 (xor_bytes 0x36 k @ msg)))"

section \<open>The source computes the standards\<close>

lemma S_rotl: "0 < n \<Longrightarrow> n < 32 \<Longrightarrow> sha1_S x n = word_rotl n x"
proof -
  have "(0xFFFFFFFF :: u32) = - 1" by simp
  then have "sha1_S x n = push_bit n x OR drop_bit (32 - n) x"
    unfolding sha1_S_def by (simp only: and.right_neutral)
  then show "0 < n \<Longrightarrow> n < 32 \<Longrightarrow> ?thesis" by (simp add: rotl_shifts)
qed

lemma F_f1: "sha1_F t = f1 t"
  by (intro ext bit_word_eqI) (auto simp: sha1_F_def f1_def bit_simps)

definition parts1 :: "nat \<Rightarrow> u32 list \<Rightarrow> u32 list" where
  "parts1 t v = map (\<lambda>j. v ! sha1_arg t j) [0..<5]"

lemma P_round1:
  assumes "length v = 5"
  shows "parts1 (Suc t) (sha1_P t (sha1_arg t 0) (sha1_arg t 1) (sha1_arg t 2) (sha1_arg t 3)
      (sha1_arg t 4) x v) = round1 t x (parts1 t v)"
proof -
  obtain a b c d e where v: "v = [a, b, c, d, e]"
    using assms by (auto simp: length_Suc_conv numeral_eq_Suc)
  have "t mod 5 < 5" by simp
  then consider "t mod 5 = 0" | "t mod 5 = 1" | "t mod 5 = 2" | "t mod 5 = 3" | "t mod 5 = 4" by linarith
  then show ?thesis
    by cases (simp_all add: v parts1_def sha1_arg_def mod_Suc upt_rec sha1_P_def round1_def Let_def S_rotl F_f1 ac_simps)
qed

lemma and_15: "t AND 0x0F = t mod (16 :: nat)"
proof -
  have "t AND 0x0F = t AND mask 4" by (simp add: mask_eq_exp_minus_1)
  then show ?thesis by (simp add: take_bit_eq_mask[symmetric] take_bit_eq_mod)
qed

text \<open>The ring holds the last 16 words of the schedule.\<close>

definition ring :: "u8 list \<Rightarrow> nat \<Rightarrow> u32 list \<Rightarrow> bool" where
  "ring M t W \<longleftrightarrow> length W = 16 \<and> (\<forall>j. t \<le> j + 16 \<and> j < t \<longrightarrow> W ! (j mod 16) = schedule1 M j)"

lemma ring_step:
  assumes "ring M t W" and "16 \<le> t"
  shows "ring M (Suc t) (W[t mod 16 := sha1_R W t])"
proof -
  have W: "W ! ((t - k) mod 16) = schedule1 M (t - k)" if "0 < k" "k \<le> 16" for k
    using assms that unfolding ring_def by auto
  have "W ! (t mod 16) = schedule1 M (t - 16)" using W[of 16] assms(2) by (simp add: le_mod_geq)
  then have R: "sha1_R W t = schedule1 M t"
    using assms(2) W[of 3] W[of 8] W[of 14] by (subst schedule1.simps) (simp add: sha1_R_def and_15 S_rotl)
  have neq: "j mod 16 \<noteq> t mod 16" if "Suc t \<le> j + 16" "j < t" for j
  proof
    assume "j mod 16 = t mod 16"
    then have "16 dvd t - j" using mod_eq_dvd_iff_nat[of j t 16] that by simp
    moreover have "0 < t - j" "t - j < 16" using that by simp_all
    ultimately show False using dvd_imp_le by fastforce
  qed
  have "W[t mod 16 := sha1_R W t] ! (j mod 16) = schedule1 M j" if "Suc t \<le> j + 16" "j < Suc t" for j
  proof (cases "j = t")
    case False
    with that have "j < t" by simp
    with that neq[of j] assms show ?thesis unfolding ring_def by simp
  qed (use assms R in \<open>simp add: ring_def\<close>)
  then show ?thesis using assms(1) unfolding ring_def by simp
qed

lemma length_P1 [simp]: "length (sha1_P t a b c d e x v) = length v"
  by (simp add: sha1_P_def Let_def)

lemma sha1_line_inv:
  assumes "ring M (max 16 t) W" and "length v = 5" and "sha1_line t (W, v) = (W', v')"
  shows "ring M (max 16 (Suc t)) W'" and "length v' = 5"
    and "parts1 (Suc t) v' = round1 t (schedule1 M t) (parts1 t v)"
proof -
  have W': "W' = (if t < 16 then W else W[t mod 16 := sha1_R W t])"
    using assms(3) unfolding sha1_line_def Let_def and_15 by simp
  show r: "ring M (max 16 (Suc t)) W'"
  proof (cases "t < 16")
    case True
    then have "max 16 (Suc t) = 16" "max 16 t = 16" by simp_all
    with True assms(1) show ?thesis by (simp add: W')
  next
    case False
    then have "max 16 (Suc t) = Suc t" "max 16 t = t" by simp_all
    with False ring_step[of M t W] assms(1) show ?thesis by (simp add: W')
  qed
  have v': "v' = sha1_P t (sha1_arg t 0) (sha1_arg t 1) (sha1_arg t 2) (sha1_arg t 3) (sha1_arg t 4) (W' ! (t mod 16)) v"
    using assms(3) unfolding W' sha1_line_def Let_def and_15 by simp
  then show "length v' = 5" using assms(2) by simp
  have "W' ! (t mod 16) = schedule1 M t" using r unfolding ring_def by auto
  then show "parts1 (Suc t) v' = round1 t (schedule1 M t) (parts1 t v)"
    unfolding v' P_round1[OF assms(2)] by simp
qed

lemma sha1_lines:
  assumes "length st = 5"
  shows "fold sha1_line [0..<t] (map (\<lambda>i. GET_UINT32_BE M (4 * i)) [0..<16], st) = (W, v) \<Longrightarrow>
    ring M (max 16 t) W \<and> length v = 5 \<and> parts1 t v = fold (\<lambda>t. round1 t (schedule1 M t)) [0..<t] st"
proof (induction t arbitrary: W v)
  case 0
  have "parts1 0 st = st" using assms by (auto simp: parts1_def sha1_arg_def intro!: nth_equalityI)
  then show ?case using 0 assms by (auto simp: ring_def schedule1.simps[of M])
next
  case (Suc t)
  obtain W1 v1 where f: "fold sha1_line [0..<t] (map (\<lambda>i. GET_UINT32_BE M (4 * i)) [0..<16], st) = (W1, v1)"
    by (rule prod.exhaust)
  then have line: "sha1_line t (W1, v1) = (W, v)" using Suc.prems by simp
  from Suc.IH[OF f] have h: "ring M (max 16 t) W1" "length v1 = 5"
    "parts1 t v1 = fold (\<lambda>t. round1 t (schedule1 M t)) [0..<t] st" by simp_all
  note l = sha1_line_inv[OF h(1,2) line]
  show ?case using l(1,2) unfolding l(3) h(3) by simp
qed

lemma sha1_process_eq: "length st = 5 \<Longrightarrow> sha1_process st M = compress1 st M"
proof -
  assume st: "length st = 5"
  obtain W v where f: "fold sha1_line [0..<80] (map (\<lambda>i. GET_UINT32_BE M (4 * i)) [0..<16], st) = (W, v)"
    by (rule prod.exhaust)
  have h: "length v = 5" "parts1 80 v = fold (\<lambda>t. round1 t (schedule1 M t)) [0..<80] st"
    using sha1_lines[OF st f] by simp_all
  have "parts1 80 v = v" using h(1) by (auto simp: parts1_def sha1_arg_def intro!: nth_equalityI)
  then show "sha1_process st M = compress1 st M"
    using f h(2) by (simp add: sha1_process_def compress1_def Let_def)
qed

lemma length_round1: "length (round1 t W s) = 5"
  by (simp add: round1_def Let_def)

lemma length_compress1: "length H = 5 \<Longrightarrow> length (compress1 H M) = 5"
proof -
  have "length (fold (\<lambda>t. round1 t (schedule1 M t)) ts s) = 5" if "length s = 5" for ts s
    using that by (induction ts arbitrary: s) (simp_all add: length_round1)
  then show "length H = 5 \<Longrightarrow> length (compress1 H M) = 5" by (simp add: compress1_def)
qed

lemma foldl_process1: "length st = 5 \<Longrightarrow> foldl sha1_process st bs = foldl compress1 st bs"
  by (induction bs arbitrary: st) (simp_all add: sha1_process_eq length_compress1)

lemma md_hash_process1: "md_hash be64 sha1_process sha1_iv msg = md_hash be64 compress1 sha1_iv msg"
  unfolding md_hash_def by (rule foldl_process1) (simp add: sha1_iv_def)

lemma length_SHA1: "length (SHA1 msg) = 20"
proof -
  have "length (foldl compress1 st bs) = 5" if "length st = 5" for st bs
    using that by (induction bs arbitrary: st) (simp_all add: length_compress1)
  moreover have "length (concat (map PUT_UINT32_BE ws)) = 4 * length ws" for ws
    by (induction ws) (simp_all add: PUT_UINT32_BE_def)
  ultimately show ?thesis by (simp add: SHA1_def md_hash_def sha1_iv_def)
qed

interpretation hash1: stream_hash sha1_starts sha1_update sha1_finish
  "\<lambda>c. length (buffer c) = 64" "sha_holds sha1_process sha1_iv" SHA1
proof unfold_locales
  show "sha_holds sha1_process sha1_iv (sha1_starts c) []" if "length (buffer c) = 64" for c
    using that by (simp add: sha_holds_def sha1_starts_def)
  show "\<exists>c'. sha1_finish c = (SHA1 msg, c') \<and> length (buffer c') = 64" if "sha_holds sha1_process sha1_iv c msg" for c msg
    using sha_finish_hash[OF that] by (simp add: sha1_finish_def SHA1_def md_hash_process1)
qed (simp add: sha1_update_def sha_update_holds)

section \<open>The authentication code\<close>

lemma hmac_pad_nth:
  "length pad = 64 \<Longrightarrow> length (hmac_pad i key pad) = 64 \<and>
    (\<forall>j < 64. hmac_pad i key pad ! j = (if i \<le> j \<and> j < length key then pad ! j XOR key ! j else pad ! j))"
proof (induction i key pad rule: hmac_pad.induct)
  case (1 i key pad)
  show ?case
  proof (cases "i < length key \<and> i < 64")
    case True
    with 1 have "length (hmac_pad (Suc i) key (pad[i := pad ! i XOR key ! i])) = 64 \<and>
      (\<forall>j < 64. hmac_pad (Suc i) key (pad[i := pad ! i XOR key ! i]) ! j =
        (if Suc i \<le> j \<and> j < length key then pad[i := pad ! i XOR key ! i] ! j XOR key ! j
         else pad[i := pad ! i XOR key ! i] ! j))" by auto
    moreover have "hmac_pad i key pad = hmac_pad (Suc i) key (pad[i := pad ! i XOR key ! i])"
      using True by (subst hmac_pad.simps) simp
    ultimately show ?thesis using True 1(2) by (auto simp: nth_list_update)
  next
    case False
    then have "hmac_pad i key pad = pad" by (subst hmac_pad.simps) auto
    with False 1(2) show ?thesis by auto
  qed
qed

lemma hmac_pad_xor:
  assumes "length key \<le> 64"
  shows "hmac_pad 0 key (replicate 64 c) = xor_bytes c (key @ replicate (64 - length key) 0)"
  using hmac_pad_nth[of "replicate 64 c" 0 key] assms
  by (intro nth_equalityI) (auto simp: xor_bytes_def nth_append xor.commute)


section \<open>Properties\<close>



text \<open>
  C29. For a key of at most 64 bytes \<^verbatim>\<open>sha1_hmac\<close> computes the HMAC of RFC 2104. (A longer
  key is cut off after 64 bytes; the RFC hashes it first.)
\<close>

theorem sha1_hmac_authenticates:
  assumes "length (buffer ctx) = 64" and "length key \<le> 64" and "length input < 2 ^ 32"
  shows "sha1_hmac ctx key input = HMAC_SHA1 key input"
proof -
  define k where "k = key @ replicate (64 - length key) 0"
  have k: "length (xor_bytes c k) < 2 ^ 32" for c using assms(2) by (simp add: k_def xor_bytes_def)
  obtain c' where c': "sha1_finish (sha1_update (sha1_update (sha1_starts ctx) (xor_bytes 0x36 k)) input) =
      (SHA1 (xor_bytes 0x36 k @ input), c')" "length (buffer c') = 64"
    using hash1.two_updates[OF assms(1) k assms(3)] by blast
  have "length (SHA1 (xor_bytes 0x36 k @ input)) < 2 ^ 32" by (simp add: length_SHA1)
  from hash1.two_updates[OF c'(2) k[of "0x5C"] this] show ?thesis
    using c'(1) by (auto simp: sha1_hmac_def HMAC_SHA1_def Let_def hmac_pad_xor[OF assms(2)] k_def[symmetric])
qed

theorem sha1_hmac_authenticates_witness:
  "sha1_hmac \<lparr>total0 = 7, total1 = 7, state = [], buffer = replicate 64 7\<rparr> [1, 2] [0x61, 0x62] = HMAC_SHA1 [1, 2] [0x61, 0x62]"
  by (rule sha1_hmac_authenticates) simp_all

end
