(* ===== verification/Md5.thy ===== *)
theory Md5
  imports Digest
begin

unbundle bit_operations_syntax

text \<open>
  \<^verbatim>\<open>common_uboot/lib/md5.c\<close> on the little-endian target: the transformation, the
  streaming functions with their own bit counter and padding, \<^verbatim>\<open>md5\<close> and \<^verbatim>\<open>md5_wd\<close>,
  and the function RFC 1321 defines.
\<close>

section \<open>Words in byte arrays\<close>

definition le_word :: "u8 list \<Rightarrow> nat \<Rightarrow> u32" where
  "le_word b i = ucast (b ! i) OR push_bit 8 (ucast (b ! (i + 1))) OR
     push_bit 16 (ucast (b ! (i + 2))) OR push_bit 24 (ucast (b ! (i + 3)))"

definition le_bytes :: "u32 \<Rightarrow> u8 list" where
  "le_bytes w = [ucast w, ucast (drop_bit 8 w), ucast (drop_bit 16 w), ucast (drop_bit 24 w)]"

text \<open>A 64-byte array read as 16 words, as the cast to \<^verbatim>\<open>__u32 *\<close> does.\<close>

definition le_words :: "u8 list \<Rightarrow> u32 list" where
  "le_words b = map (\<lambda>i. le_word b (4 * i)) [0..<16]"

fun byteReverse :: "u8 list \<Rightarrow> nat \<Rightarrow> u8 list" where
  "byteReverse (b0 # b1 # b2 # b3 # buf) (Suc longs) =
    (let t = push_bit 16 (push_bit 8 (ucast b3) OR ucast b2) OR (push_bit 8 (ucast b1) OR ucast b0) :: u32
     in le_bytes t @ byteReverse buf longs)"
| "byteReverse buf longs = buf"

section \<open>The transformation\<close>

definition md5_F1 :: "u32 \<Rightarrow> u32 \<Rightarrow> u32 \<Rightarrow> u32" where "md5_F1 x y z = z XOR (x AND (y XOR z))"
definition md5_F2 :: "u32 \<Rightarrow> u32 \<Rightarrow> u32 \<Rightarrow> u32" where "md5_F2 x y z = md5_F1 z x y"
definition md5_F3 :: "u32 \<Rightarrow> u32 \<Rightarrow> u32 \<Rightarrow> u32" where "md5_F3 x y z = x XOR y XOR z"
definition md5_F4 :: "u32 \<Rightarrow> u32 \<Rightarrow> u32 \<Rightarrow> u32" where "md5_F4 x y z = y XOR (x OR NOT z)"

text \<open>The macro \<^verbatim>\<open>MD5STEP\<close> on the variables \<^verbatim>\<open>a\<close> to \<^verbatim>\<open>d\<close>, here the list \<open>v\<close>.\<close>

definition MD5STEP :: "(u32 \<Rightarrow> u32 \<Rightarrow> u32 \<Rightarrow> u32) \<Rightarrow> nat \<Rightarrow> nat \<Rightarrow> nat \<Rightarrow> nat \<Rightarrow> u32 \<Rightarrow> nat \<Rightarrow> u32 list \<Rightarrow> u32 list" where
  "MD5STEP f w x y z data s v =
    (let v = v[w := v ! w + (f (v ! x) (v ! y) (v ! z) + data)];
         v = v[w := push_bit s (v ! w) OR drop_bit (32 - s) (v ! w)]
     in v[w := v ! w + v ! x])"

text \<open>
  The 64 invocations of \<^verbatim>\<open>MD5STEP\<close>: the word of \<^verbatim>\<open>in\<close>, the constant and the shift of
  each. The function changes every 16 lines, the variables are rotated by one place per line.
\<close>

definition md5_steps :: "(nat \<times> u32 \<times> nat) list" where
  "md5_steps = [
     (0, 0xd76aa478, 7), (1, 0xe8c7b756, 12), (2, 0x242070db, 17), (3, 0xc1bdceee, 22),
     (4, 0xf57c0faf, 7), (5, 0x4787c62a, 12), (6, 0xa8304613, 17), (7, 0xfd469501, 22),
     (8, 0x698098d8, 7), (9, 0x8b44f7af, 12), (10, 0xffff5bb1, 17), (11, 0x895cd7be, 22),
     (12, 0x6b901122, 7), (13, 0xfd987193, 12), (14, 0xa679438e, 17), (15, 0x49b40821, 22),
     (1, 0xf61e2562, 5), (6, 0xc040b340, 9), (11, 0x265e5a51, 14), (0, 0xe9b6c7aa, 20),
     (5, 0xd62f105d, 5), (10, 0x02441453, 9), (15, 0xd8a1e681, 14), (4, 0xe7d3fbc8, 20),
     (9, 0x21e1cde6, 5), (14, 0xc33707d6, 9), (3, 0xf4d50d87, 14), (8, 0x455a14ed, 20),
     (13, 0xa9e3e905, 5), (2, 0xfcefa3f8, 9), (7, 0x676f02d9, 14), (12, 0x8d2a4c8a, 20),
     (5, 0xfffa3942, 4), (8, 0x8771f681, 11), (11, 0x6d9d6122, 16), (14, 0xfde5380c, 23),
     (1, 0xa4beea44, 4), (4, 0x4bdecfa9, 11), (7, 0xf6bb4b60, 16), (10, 0xbebfbc70, 23),
     (13, 0x289b7ec6, 4), (0, 0xeaa127fa, 11), (3, 0xd4ef3085, 16), (6, 0x04881d05, 23),
     (9, 0xd9d4d039, 4), (12, 0xe6db99e5, 11), (15, 0x1fa27cf8, 16), (2, 0xc4ac5665, 23),
     (0, 0xf4292244, 6), (7, 0x432aff97, 10), (14, 0xab9423a7, 15), (5, 0xfc93a039, 21),
     (12, 0x655b59c3, 6), (3, 0x8f0ccc92, 10), (10, 0xffeff47d, 15), (1, 0x85845dd1, 21),
     (8, 0x6fa87e4f, 6), (15, 0xfe2ce6e0, 10), (6, 0xa3014314, 15), (13, 0x4e0811a1, 21),
     (4, 0xf7537e82, 6), (11, 0xbd3af235, 10), (2, 0x2ad7d2bb, 15), (9, 0xeb86d391, 21)]"

definition md5_F :: "nat \<Rightarrow> u32 \<Rightarrow> u32 \<Rightarrow> u32 \<Rightarrow> u32" where
  "md5_F t = (if t < 16 then md5_F1 else if t < 32 then md5_F2 else if t < 48 then md5_F3 else md5_F4)"

definition md5_arg :: "nat \<Rightarrow> nat \<Rightarrow> nat" where
  "md5_arg t j = (j + 4 - t mod 4) mod 4"

definition md5_line :: "u32 list \<Rightarrow> nat \<Rightarrow> u32 list \<Rightarrow> u32 list" where
  "md5_line inp t v =
    (case md5_steps ! t of (k, T, s) \<Rightarrow>
     let i = md5_arg t in MD5STEP (md5_F t) (i 0) (i 1) (i 2) (i 3) (inp ! k + T) s v)"

definition MD5Transform :: "u32 list \<Rightarrow> u32 list \<Rightarrow> u32 list" where
  "MD5Transform buf inp = map2 (+) buf (fold (md5_line inp) [0..<64] buf)"

section \<open>Streaming\<close>

record MD5Context =
  md5_buf :: "u32 list"
  bits0 :: u32
  bits1 :: u32
  md5_in :: "u8 list"

definition md5_iv :: "u32 list" where
  "md5_iv = [0x67452301, 0xEFCDAB89, 0x98BADCFE, 0x10325476]"

definition MD5Init :: "MD5Context \<Rightarrow> MD5Context" where
  "MD5Init ctx = ctx\<lparr>md5_buf := md5_iv, bits0 := 0, bits1 := 0\<rparr>"

text \<open>\<^verbatim>\<open>byteReverse(ctx->in, 16); MD5Transform(ctx->buf, (__u32 *) ctx->in)\<close>\<close>

definition md5_block :: "MD5Context \<Rightarrow> MD5Context" where
  "md5_block ctx =
    (let ctx = ctx\<lparr>md5_in := byteReverse (md5_in ctx) 16\<rparr>
     in ctx\<lparr>md5_buf := MD5Transform (md5_buf ctx) (le_words (md5_in ctx))\<rparr>)"

fun md5_update_tail :: "MD5Context \<Rightarrow> u8 list \<Rightarrow> MD5Context" where
  "md5_update_tail ctx input =
    (if length input \<ge> 64 then
       md5_update_tail (md5_block (ctx\<lparr>md5_in := put_bytes (md5_in ctx) 0 (take 64 input)\<rparr>)) (drop 64 input)
     else ctx\<lparr>md5_in := put_bytes (md5_in ctx) 0 input\<rparr>)"

declare md5_update_tail.simps [simp del]

definition MD5Update :: "MD5Context \<Rightarrow> u8 list \<Rightarrow> MD5Context" where
  "MD5Update ctx input =
    (let len = of_nat (length input) :: u32;
         t = bits0 ctx;
         ctx = ctx\<lparr>bits0 := t + push_bit 3 len\<rparr>;
         ctx = (if bits0 ctx < t then ctx\<lparr>bits1 := bits1 ctx + 1\<rparr> else ctx);
         ctx = ctx\<lparr>bits1 := bits1 ctx + drop_bit 29 len\<rparr>;
         t = drop_bit 3 t AND 0x3F
     in if t \<noteq> 0 then
          let p = unat t; t = 64 - t
          in if len < t then ctx\<lparr>md5_in := put_bytes (md5_in ctx) p input\<rparr>
          else let ctx = ctx\<lparr>md5_in := put_bytes (md5_in ctx) p (take (unat t) input)\<rparr>
               in md5_update_tail (md5_block ctx) (drop (unat t) input)
        else md5_update_tail ctx input)"

text \<open>The padding of \<^verbatim>\<open>MD5Final\<close>, from the byte 0x80 to the place of the length.\<close>

definition md5_pad :: "MD5Context \<Rightarrow> nat \<Rightarrow> MD5Context" where
  "md5_pad ctx count =
    (let p = count;
         ctx = ctx\<lparr>md5_in := put_bytes (md5_in ctx) p [0x80]\<rparr>;
         p = p + 1;
         count = 64 - 1 - count
     in if count < 8 then
          let ctx = md5_block (ctx\<lparr>md5_in := put_bytes (md5_in ctx) p (replicate count 0)\<rparr>)
          in ctx\<lparr>md5_in := put_bytes (md5_in ctx) 0 (replicate 56 0)\<rparr>
        else ctx\<lparr>md5_in := put_bytes (md5_in ctx) p (replicate (count - 8) 0)\<rparr>)"

definition MD5Final :: "MD5Context \<Rightarrow> u8 list \<times> MD5Context" where
  "MD5Final ctx =
    (let count = unat (drop_bit 3 (bits0 ctx) AND 0x3F);
         ctx = md5_pad ctx count;
         ctx = ctx\<lparr>md5_in := byteReverse (md5_in ctx) 14\<rparr>;
         ctx = ctx\<lparr>md5_in := put_bytes (md5_in ctx) 56 (le_bytes (bits0 ctx))\<rparr>;
         ctx = ctx\<lparr>md5_in := put_bytes (md5_in ctx) 60 (le_bytes (bits1 ctx))\<rparr>;
         ctx = ctx\<lparr>md5_buf := MD5Transform (md5_buf ctx) (le_words (md5_in ctx))\<rparr>
     in (take 16 (byteReverse (concat (map le_bytes (md5_buf ctx))) 4),
         \<lparr>md5_buf = replicate 4 0, bits0 = 0, bits1 = 0, md5_in = replicate 64 0\<rparr>))"

definition md5 :: "MD5Context \<Rightarrow> u8 list \<Rightarrow> u8 list" where
  "md5 context input = fst (MD5Final (MD5Update (MD5Init context) input))"

definition md5_wd :: "bool \<Rightarrow> MD5Context \<Rightarrow> u8 list \<Rightarrow> nat \<Rightarrow> u8 list option" where
  "md5_wd wd context input chunk_sz =
    (let context = MD5Init context
     in map_option (fst \<circ> MD5Final)
          (if wd then wd_chunks MD5Update chunk_sz context input else Some (MD5Update context input)))"

section \<open>The standard\<close>

text \<open>RFC 1321, section 3.4. The constants are those of the source.\<close>

definition rfc_F :: "nat \<Rightarrow> u32 \<Rightarrow> u32 \<Rightarrow> u32 \<Rightarrow> u32" where
  "rfc_F t X Y Z =
    (if t < 16 then (X AND Y) OR (NOT X AND Z)
     else if t < 32 then (X AND Z) OR (Y AND NOT Z)
     else if t < 48 then X XOR Y XOR Z
     else Y XOR (X OR NOT Z))"

definition rfc_k :: "nat \<Rightarrow> nat" where
  "rfc_k t = (if t < 16 then t else if t < 32 then (1 + 5 * t) mod 16
     else if t < 48 then (5 + 3 * t) mod 16 else 7 * t mod 16)"

definition rfc_s :: "nat \<Rightarrow> nat" where
  "rfc_s t = (if t < 16 then [7, 12, 17, 22] else if t < 32 then [5, 9, 14, 20]
     else if t < 48 then [4, 11, 16, 23] else [6, 10, 15, 21]) ! (t mod 4)"

definition rfc_round :: "u32 list \<Rightarrow> nat \<Rightarrow> u32 list \<Rightarrow> u32 list" where
  "rfc_round X t s =
    (let a = s ! 0; b = s ! 1; c = s ! 2; d = s ! 3; T = fst (snd (md5_steps ! t))
     in [d, b + word_rotl (rfc_s t) (a + rfc_F t b c d + X ! rfc_k t + T), b, c])"

definition rfc_compress :: "u32 list \<Rightarrow> u8 list \<Rightarrow> u32 list" where
  "rfc_compress H M = map2 (+) H (fold (rfc_round (le_words M)) [0..<64] H)"

definition le64 :: "nat \<Rightarrow> u8 list" where
  "le64 n = map (\<lambda>i. of_nat (n div 2 ^ (8 * i))) [0..<8]"

definition MD5 :: "u8 list \<Rightarrow> u8 list" where
  "MD5 msg = concat (map le_bytes (md_hash le64 rfc_compress md5_iv msg))"

section \<open>The source computes the standard\<close>

lemma le_bytes_word: "le_bytes (push_bit 16 (push_bit 8 (ucast b3) OR ucast b2) OR (push_bit 8 (ucast b1) OR ucast b0)) = [b0, b1, b2, b3]"
proof -
  have "ucast (drop_bit 0 (push_bit 16 (push_bit 8 (ucast b3) OR ucast b2) OR (push_bit 8 (ucast b1) OR ucast b0) :: u32)) = b0"
    "ucast (drop_bit 8 (push_bit 16 (push_bit 8 (ucast b3) OR ucast b2) OR (push_bit 8 (ucast b1) OR ucast b0) :: u32)) = b1"
    "ucast (drop_bit 16 (push_bit 16 (push_bit 8 (ucast b3) OR ucast b2) OR (push_bit 8 (ucast b1) OR ucast b0) :: u32)) = b2"
    "ucast (drop_bit 24 (push_bit 16 (push_bit 8 (ucast b3) OR ucast b2) OR (push_bit 8 (ucast b1) OR ucast b0) :: u32)) = b3"
    by (rule bit_word_eqI, auto simp: bit_simps dest: bit_imp_le_length)+
  then show ?thesis by (simp add: le_bytes_def)
qed

lemma byteReverse_id [simp]: "byteReverse buf n = buf"
proof (induction buf n rule: byteReverse.induct)
  case (1 b0 b1 b2 b3 buf longs)
  then show ?case unfolding byteReverse.simps Let_def le_bytes_word by simp
qed simp_all

lemma md5_F_rfc: "md5_F t = rfc_F t"
  by (intro ext bit_word_eqI) (auto simp: md5_F_def rfc_F_def md5_F1_def md5_F2_def md5_F3_def md5_F4_def bit_simps)

text \<open>Rows of the table follow the rule of the RFC.\<close>

lemma md5_steps_rfc:
  assumes "t < 64"
  shows "md5_steps ! t = (rfc_k t, fst (snd (md5_steps ! t)), rfc_s t)" and "0 < rfc_s t" and "rfc_s t < 32"
proof -
  have "list_all (\<lambda>t. fst (md5_steps ! t) = rfc_k t \<and> snd (snd (md5_steps ! t)) = rfc_s t \<and> 0 < rfc_s t \<and> rfc_s t < 32) [0..<64]"
    by (simp add: md5_steps_def rfc_k_def rfc_s_def upt_rec)
  then have "fst (md5_steps ! t) = rfc_k t \<and> snd (snd (md5_steps ! t)) = rfc_s t \<and> 0 < rfc_s t \<and> rfc_s t < 32"
    using assms by (simp add: list_all_iff)
  then show "md5_steps ! t = (rfc_k t, fst (snd (md5_steps ! t)), rfc_s t)" and "0 < rfc_s t" and "rfc_s t < 32"
    by (simp_all add: prod_eq_iff)
qed

definition parts5 :: "nat \<Rightarrow> u32 list \<Rightarrow> u32 list" where
  "parts5 t v = map (\<lambda>j. v ! md5_arg t j) [0..<4]"

lemma MD5STEP_round:
  assumes "length v = 4" and "0 < s" and "s < 32"
  shows "parts5 (Suc t) (MD5STEP f (md5_arg t 0) (md5_arg t 1) (md5_arg t 2) (md5_arg t 3) x s v) =
    (let p = parts5 t v in [p ! 3, p ! 1 + word_rotl s (p ! 0 + f (p ! 1) (p ! 2) (p ! 3) + x), p ! 1, p ! 2])"
proof -
  obtain a b c d where v: "v = [a, b, c, d]"
    using assms by (auto simp: length_Suc_conv numeral_eq_Suc)
  have "t mod 4 < 4" by simp
  then consider "t mod 4 = 0" | "t mod 4 = 1" | "t mod 4 = 2" | "t mod 4 = 3" by linarith
  then show ?thesis
    by cases (simp_all add: v parts5_def md5_arg_def mod_Suc upt_rec MD5STEP_def Let_def rotl_shifts[OF assms(2,3)] ac_simps)
qed

lemma md5_line_round:
  assumes "length v = 4" and "t < 64"
  shows "parts5 (Suc t) (md5_line X t v) = rfc_round X t (parts5 t v)" and "length (md5_line X t v) = 4"
proof -
  define T where "T = fst (snd (md5_steps ! t))"
  have row: "md5_steps ! t = (rfc_k t, T, rfc_s t)" using md5_steps_rfc(1)[OF assms(2)] by (simp add: T_def)
  then have line: "md5_line X t v = MD5STEP (md5_F t) (md5_arg t 0) (md5_arg t 1) (md5_arg t 2) (md5_arg t 3) (X ! rfc_k t + T) (rfc_s t) v"
    by (simp add: md5_line_def Let_def)
  show "parts5 (Suc t) (md5_line X t v) = rfc_round X t (parts5 t v)"
    unfolding line MD5STEP_round[OF assms(1) md5_steps_rfc(2,3)[OF assms(2)]] md5_F_rfc
    by (simp add: rfc_round_def Let_def row ac_simps)
  show "length (md5_line X t v) = 4" using assms(1) unfolding line by (simp add: MD5STEP_def Let_def)
qed

lemma md5_lines:
  assumes "length v = 4"
  shows "t \<le> 64 \<Longrightarrow> length (fold (md5_line X) [0..<t] v) = 4 \<and>
    parts5 t (fold (md5_line X) [0..<t] v) = fold (rfc_round X) [0..<t] v"
proof (induction t)
  case 0
  then show ?case using assms by (auto simp: parts5_def md5_arg_def intro!: nth_equalityI)
next
  case (Suc t)
  then show ?case using md5_line_round[of "fold (md5_line X) [0..<t] v" t X] by simp
qed

lemma MD5Transform_rfc: "length st = 4 \<Longrightarrow> MD5Transform st (le_words M) = rfc_compress st M"
proof -
  assume st: "length st = 4"
  have h: "length (fold (md5_line (le_words M)) [0..<64] st) = 4"
    "parts5 64 (fold (md5_line (le_words M)) [0..<64] st) = fold (rfc_round (le_words M)) [0..<64] st"
    using md5_lines[OF st, of 64] by simp_all
  have "parts5 64 v = v" if "length v = 4" for v
    using that by (auto simp: parts5_def md5_arg_def intro!: nth_equalityI)
  from this[OF h(1)] h(2) show "MD5Transform st (le_words M) = rfc_compress st M"
    by (simp add: MD5Transform_def rfc_compress_def)
qed

lemma length_rfc_compress: "length H = 4 \<Longrightarrow> length (rfc_compress H M) = 4"
proof -
  have "length (fold (rfc_round X) ts s) = 4" if "length s = 4" for X ts s
    using that by (induction ts arbitrary: s) (simp_all add: rfc_round_def Let_def)
  then show "length H = 4 \<Longrightarrow> length (rfc_compress H M) = 4" by (simp add: rfc_compress_def)
qed

lemma length_foldl_rfc: "length st = 4 \<Longrightarrow> length (foldl rfc_compress st bs) = 4"
  by (induction bs arbitrary: st) (simp_all add: length_rfc_compress)


section \<open>What a context holds\<close>

definition md5_holds :: "MD5Context \<Rightarrow> u8 list \<Rightarrow> bool" where
  "md5_holds ctx msg \<longleftrightarrow>
     md5_buf ctx = foldl rfc_compress md5_iv (blocks msg) \<and> length (md5_in ctx) = 64 \<and>
     take (length msg mod 64) (md5_in ctx) = rest msg \<and>
     bits0 ctx = of_nat (8 * length msg) \<and> bits1 ctx = of_nat (8 * length msg div 2 ^ 32)"

lemma md5_block_eq:
  "length (md5_buf ctx) = 4 \<Longrightarrow> md5_block ctx = ctx\<lparr>md5_buf := rfc_compress (md5_buf ctx) (md5_in ctx)\<rparr>"
  by (simp add: md5_block_def MD5Transform_rfc)

lemma md5_update_tail_eq:
  "length (md5_buf ctx) = 4 \<Longrightarrow> length (md5_in ctx) = 64 \<Longrightarrow>
    \<exists>b. length b = 64 \<and> take (length (rest input)) b = rest input \<and>
      md5_update_tail ctx input = ctx\<lparr>md5_buf := foldl rfc_compress (md5_buf ctx) (blocks input), md5_in := b\<rparr>"
proof (induction ctx input rule: md5_update_tail.induct)
  case (1 ctx input)
  show ?case
  proof (cases "length input \<ge> 64")
    case True
    define c where "c = md5_block (ctx\<lparr>md5_in := put_bytes (md5_in ctx) 0 (take 64 input)\<rparr>)"
    have "put_bytes (md5_in ctx) 0 (take 64 input) = take 64 input"
      using True 1(3) by (simp add: put_bytes_def)
    then have c: "c = ctx\<lparr>md5_buf := rfc_compress (md5_buf ctx) (take 64 input), md5_in := take 64 input\<rparr>"
      unfolding c_def using 1(2) by (simp add: md5_block_eq)
    then have "length (md5_buf c) = 4" "length (md5_in c) = 64" using True 1(2) by (simp_all add: length_rfc_compress)
    from 1(1)[OF True, folded c_def, OF this]
    obtain b where b: "length b = 64" "take (length (rest (drop 64 input))) b = rest (drop 64 input)"
      "md5_update_tail c (drop 64 input) = c\<lparr>md5_buf := foldl rfc_compress (md5_buf c) (blocks (drop 64 input)), md5_in := b\<rparr>"
      by blast
    have "md5_update_tail ctx input = md5_update_tail c (drop 64 input)"
      unfolding c_def using True by (subst md5_update_tail.simps) simp
    moreover have "rest input = rest (drop 64 input)" "blocks input = take 64 input # blocks (drop 64 input)"
      using True by (simp_all add: rest.simps[of input] blocks.simps[of input])
    ultimately show ?thesis using b c by auto
  next
    case False
    then show ?thesis using 1(3) take_put_bytes[of 0 "md5_in ctx" input]
      by (intro exI[of _ "put_bytes (md5_in ctx) 0 input"]) (simp add: md5_update_tail.simps[of ctx])
  qed
qed

text \<open>The bit counter.\<close>

definition md5_count :: "MD5Context \<Rightarrow> nat \<Rightarrow> MD5Context" where
  "md5_count ctx n =
    (let t = bits0 ctx + push_bit 3 (of_nat n)
     in ctx\<lparr>bits0 := t, bits1 := (if t < bits0 ctx then bits1 ctx + 1 else bits1 ctx) + drop_bit 29 (of_nat n)\<rparr>)"

lemma md5_count_simps [simp]:
  "md5_buf (md5_count ctx n) = md5_buf ctx" "md5_in (md5_count ctx n) = md5_in ctx"
  by (simp_all add: md5_count_def Let_def)

lemma md5_count_bits:
  assumes "bits0 ctx = of_nat (8 * n)" and "bits1 ctx = of_nat (8 * n div 2 ^ 32)" and "k < 2 ^ 32"
  shows "bits0 (md5_count ctx k) = of_nat (8 * (n + k))"
    and "bits1 (md5_count ctx k) = of_nat (8 * (n + k) div 2 ^ 32)"
proof -
  define r where "r = 8 * n mod 2 ^ 32"
  have r: "r < 2 ^ 32" "(of_nat r :: u32) = of_nat (8 * n)"
    unfolding r_def by (simp_all add: word_unat_eq_iff unat_of_nat del: of_nat_mult)
  have t: "bits0 ctx + push_bit 3 (of_nat k) = of_nat (8 * (n + k))" by (simp add: assms(1) push_bit_eq_mult)
  show "bits0 (md5_count ctx k) = of_nat (8 * (n + k))"
    unfolding md5_count_def t Let_def by (simp del: of_nat_add of_nat_mult)
  have "(of_nat (8 * (n + k)) :: u32) = of_nat (8 * k + r)" by (simp add: r(2))
  then have "(of_nat (8 * (n + k)) :: u32) < of_nat (8 * n) \<longleftrightarrow> (of_nat (8 * k + r) :: u32) < of_nat r"
    by (simp only: r(2))
  then have carry: "(if (of_nat (8 * (n + k)) :: u32) < of_nat (8 * n) then 1 else 0) + 8 * k div 2 ^ 32 = (8 * k + r) div 2 ^ 32"
    using total_carry[OF r(1), of "8 * k"] by (simp only: split: if_split) auto
  have "8 * (n + k) = 8 * k + r + 2 ^ 32 * (8 * n div 2 ^ 32)" unfolding r_def
    by (metis add.assoc add.commute distrib_left mod_mult_div_eq)
  then have sum: "8 * (n + k) div 2 ^ 32 = 8 * n div 2 ^ 32 + (8 * k + r) div 2 ^ 32" by simp
  have "drop_bit 29 (of_nat k :: u32) = of_nat (k div 2 ^ 29)"
    using assms(3) by (simp only: word_unat_eq_iff unsigned_drop_bit_eq unat_of_nat)
      (simp add: drop_bit_eq_div take_bit_eq_mod div_le_dividend order_le_less_trans)
  moreover have "k div 2 ^ 29 = 8 * k div 2 ^ 32" by simp
  ultimately have d: "drop_bit 29 (of_nat k :: u32) = of_nat (8 * k div 2 ^ 32)" by (simp only:)
  show "bits1 (md5_count ctx k) = of_nat (8 * (n + k) div 2 ^ 32)"
    unfolding sum carry[symmetric] md5_count_def Let_def t d unfolding assms(1,2)
    by (simp del: of_nat_mult)
qed

lemma md5_left: "unat (drop_bit 3 (of_nat (8 * n) :: u32) AND 0x3F) = n mod 64"
proof -
  have "unat (drop_bit 3 (of_nat (8 * n) :: u32)) = (8 * n mod 2 ^ 32) div 8"
    by (simp only: unsigned_drop_bit_eq unat_of_nat) (simp add: drop_bit_eq_div take_bit_eq_mod)
  also have "\<dots> = n mod 2 ^ 29" using mult_mod_right[of 8 n "2 ^ 29"] by simp
  finally have "drop_bit 3 (of_nat (8 * n) :: u32) = of_nat (n mod 2 ^ 29)"
    by (metis of_nat_unat ucast_id)
  then show ?thesis by (simp only: unat_and_63) (simp add: mod_mod_cancel)
qed

lemma MD5Update_eq:
  assumes "bits0 ctx = of_nat (8 * n)" and "length input < 2 ^ 32"
  shows "MD5Update ctx input =
    (let l = n mod 64; ctx = md5_count ctx (length input)
     in if l \<noteq> 0 then
          if length input < 64 - l then ctx\<lparr>md5_in := put_bytes (md5_in ctx) l input\<rparr>
          else md5_update_tail (md5_block (ctx\<lparr>md5_in := put_bytes (md5_in ctx) l (take (64 - l) input)\<rparr>)) (drop (64 - l) input)
        else md5_update_tail ctx input)"
proof -
  define l where "l = n mod 64"
  have l: "unat (drop_bit 3 (bits0 ctx) AND 0x3F) = l" "l < 64" unfolding assms(1) md5_left by (simp_all add: l_def)
  have left: "drop_bit 3 (bits0 ctx) AND 0x3F = of_nat l" by (simp only: l(1)[symmetric] of_nat_unat ucast_id)
  have fill: "unat (64 - of_nat l :: u32) = 64 - l"
    using l(2) by (subst unat_sub) (simp_all add: word_le_nat_alt unsigned_of_nat take_bit_eq_mod)
  have len: "unat (of_nat (length input) :: u32) = length input" "unat (of_nat l :: u32) = l"
    using assms(2) l(2) by (simp_all add: unat_of_nat)
  have 0: "(of_nat l :: u32) = 0 \<longleftrightarrow> l = 0"
    using l(2) by (auto simp: unsigned_of_nat take_bit_eq_mod word_unat_eq_iff)
  have lt: "of_nat (length input) < 64 - (of_nat l :: u32) \<longleftrightarrow> length input < 64 - l"
    unfolding word_less_nat_alt fill len ..
  have count: "(let ctx1 = ctx\<lparr>bits0 := bits0 ctx + push_bit 3 (of_nat (length input))\<rparr>;
         ctx2 = (if bits0 ctx1 < bits0 ctx then ctx1\<lparr>bits1 := bits1 ctx1 + 1\<rparr> else ctx1)
       in ctx2\<lparr>bits1 := bits1 ctx2 + drop_bit 29 (of_nat (length input))\<rparr>) = md5_count ctx (length input)"
    by (cases "bits0 ctx + push_bit 3 (of_nat (length input)) < bits0 ctx") (simp_all add: md5_count_def Let_def)
  show ?thesis
    unfolding MD5Update_def Let_def left 0 lt fill len l_def[symmetric] count[unfolded Let_def] ..
qed


lemma MD5Update_holds:
  assumes "md5_holds ctx msg" and "length xs < 2 ^ 32"
  shows "md5_holds (MD5Update ctx xs) (msg @ xs)"
proof -
  define l where "l = length msg mod 64"
  define c where "c = md5_count ctx (length xs)"
  have h: "md5_buf ctx = foldl rfc_compress md5_iv (blocks msg)" "length (md5_in ctx) = 64"
    "take l (md5_in ctx) = rest msg"
    "bits0 ctx = of_nat (8 * length msg)" "bits1 ctx = of_nat (8 * length msg div 2 ^ 32)"
    using assms(1) by (simp_all add: md5_holds_def l_def)
  have l: "l < 64" "length (rest msg) = l" by (simp_all add: l_def length_rest)
  have len4: "length (md5_buf ctx) = 4" unfolding h(1) by (rule length_foldl_rfc) (simp add: md5_iv_def)
  have c: "md5_buf c = md5_buf ctx" "md5_in c = md5_in ctx"
    "bits0 c = of_nat (8 * length (msg @ xs))" "bits1 c = of_nat (8 * length (msg @ xs) div 2 ^ 32)"
    unfolding c_def length_append using md5_count_bits[OF h(4,5) assms(2)] by (simp_all del: of_nat_add of_nat_mult)
  have holdsI: "md5_holds (c\<lparr>md5_buf := st, md5_in := b\<rparr>) (msg @ xs)"
    if "st = foldl rfc_compress (md5_buf ctx) (blocks (rest msg @ xs))" "length b = 64"
      "take (length (rest (rest msg @ xs))) b = rest (rest msg @ xs)" for st b
    using that c h(1) rest_append[of msg xs] length_rest[of "msg @ xs"]
    unfolding md5_holds_def by (simp add: blocks_append[of msg xs])
  note upd = MD5Update_eq[OF h(4) assms(2), folded l_def c_def, unfolded Let_def]
  consider "l = 0" | "l \<noteq> 0" "length xs < 64 - l" | "l \<noteq> 0" "64 - l \<le> length xs" by linarith
  then show ?thesis
  proof cases
    case 1
    then have "rest msg = []" using l by simp
    moreover obtain b where "length b = 64" "take (length (rest xs)) b = rest xs"
      "md5_update_tail c xs = c\<lparr>md5_buf := foldl rfc_compress (md5_buf c) (blocks xs), md5_in := b\<rparr>"
      using md5_update_tail_eq[of c xs] c(1,2) len4 h(2) by auto
    ultimately show ?thesis using 1 c(1) holdsI[of _ b] unfolding upd by simp
  next
    case 2
    then have "length (rest msg @ xs) < 64" using l by simp
    then have "blocks (rest msg @ xs) = []" "rest (rest msg @ xs) = rest msg @ xs" by simp_all
    moreover have "take (l + length xs) (put_bytes (md5_in ctx) l xs) = rest msg @ xs"
      using take_put_bytes[of l "md5_in ctx" xs] h l by simp
    moreover have "c\<lparr>md5_in := b\<rparr> = c\<lparr>md5_buf := md5_buf ctx, md5_in := b\<rparr>" for b using c(1) by (cases c) simp
    ultimately show ?thesis using 2 h(2) l c(2) unfolding upd by (simp add: holdsI)
  next
    case 3
    define b where "b = rest msg @ take (64 - l) xs"
    have b: "put_bytes (md5_in ctx) l (take (64 - l) xs) = b" "length b = 64"
      using 3 h l by (simp_all add: put_bytes_full b_def)
    define c2 where "c2 = c\<lparr>md5_in := b, md5_buf := rfc_compress (md5_buf ctx) b\<rparr>"
    have "MD5Update ctx xs = md5_update_tail c2 (drop (64 - l) xs)"
      using 3 b c(1,2) len4 unfolding upd by (simp add: md5_block_eq c2_def)
    moreover have "rest msg @ xs = b @ drop (64 - l) xs" by (simp add: b_def)
    then have r: "rest (rest msg @ xs) = rest (drop (64 - l) xs)" "blocks (rest msg @ xs) = b # blocks (drop (64 - l) xs)"
      using b(2) by (simp_all add: rest_64 blocks_64)
    moreover have "length (md5_buf c2) = 4" "length (md5_in c2) = 64"
      using len4 b(2) by (simp_all add: c2_def length_rfc_compress)
    ultimately obtain b' where "length b' = 64" "take (length (rest (rest msg @ xs))) b' = rest (rest msg @ xs)"
      "MD5Update ctx xs = c2\<lparr>md5_buf := foldl rfc_compress (md5_buf c2) (blocks (drop (64 - l) xs)), md5_in := b'\<rparr>"
      using md5_update_tail_eq[of c2 "drop (64 - l) xs"] by auto
    moreover have "c2\<lparr>md5_buf := x, md5_in := y\<rparr> = c\<lparr>md5_buf := x, md5_in := y\<rparr>" for x y
      by (cases c) (simp add: c2_def)
    ultimately show ?thesis using holdsI[of _ b'] r by (simp add: c2_def)
  qed
qed

lemma le_bytes_nat: "le_bytes (of_nat n) = map (\<lambda>i. of_nat (n div 2 ^ (8 * i))) [0..<4]"
proof -
  have "(ucast (drop_bit k (of_nat n :: u32)) :: u8) = of_nat (n div 2 ^ k)" if "k + 8 \<le> 32" for k
  proof (rule bit_word_eqI)
    fix i assume "i < LENGTH(8)"
    with that show "bit (ucast (drop_bit k (of_nat n :: u32)) :: u8) i = bit (of_nat (n div 2 ^ k) :: u8) i"
      by (simp add: bit_simps drop_bit_eq_div[symmetric])
  qed
  from this[of 24] this[of 16] this[of 8] this[of 0] show ?thesis
    by (simp add: le_bytes_def upt_rec)
qed

lemma msglen_le64: "le_bytes (of_nat n) @ le_bytes (of_nat (n div 2 ^ 32)) = le64 n"
  unfolding le_bytes_nat le64_def by (simp add: upt_rec div_mult2_eq[symmetric])

lemma length_le_bytes [simp]: "length (le_bytes w) = 4"
  by (simp add: le_bytes_def)

lemma length_concat_le_bytes: "length (concat (map le_bytes ws)) = 4 * length ws"
  by (induction ws) simp_all

lemma put_length:
  assumes "length b = 64"
  shows "put_bytes (put_bytes b 56 (le_bytes x)) 60 (le_bytes y) = take 56 b @ le_bytes x @ le_bytes y"
  using assms by (simp add: put_bytes_def)

lemma md5_pad_blocks:
  assumes "length (md5_buf ctx) = 4" and "length (md5_in ctx) = 64" and "take l (md5_in ctx) = r"
    and "length r = l" and "l < 64" and "length e = 8"
  shows "length (md5_in (md5_pad ctx l)) = 64" and "length (md5_buf (md5_pad ctx l)) = 4"
    and "bits0 (md5_pad ctx l) = bits0 ctx" and "bits1 (md5_pad ctx l) = bits1 ctx"
    and "rfc_compress (md5_buf (md5_pad ctx l)) (take 56 (md5_in (md5_pad ctx l)) @ e) =
      foldl rfc_compress (md5_buf ctx) (blocks (r @ 0x80 # replicate ((119 - l) mod 64) 0 @ e))"
proof -
  define b where "b = put_bytes (md5_in ctx) l [0x80]"
  have b: "take (Suc l) b = r @ [0x80]" "length b = 64"
    unfolding b_def using take_put_bytes[of l "md5_in ctx" "[0x80]"] assms by simp_all
  have "length (md5_in (md5_pad ctx l)) = 64 \<and> length (md5_buf (md5_pad ctx l)) = 4 \<and>
    bits0 (md5_pad ctx l) = bits0 ctx \<and> bits1 (md5_pad ctx l) = bits1 ctx \<and>
    rfc_compress (md5_buf (md5_pad ctx l)) (take 56 (md5_in (md5_pad ctx l)) @ e) =
      foldl rfc_compress (md5_buf ctx) (blocks (r @ 0x80 # replicate ((119 - l) mod 64) 0 @ e))"
  proof (cases "63 - l < 8")
    case True
    define p where "p = r @ 0x80 # replicate (63 - l) 0"
    have p: "put_bytes b (Suc l) (replicate (63 - l) 0) = p" "length p = 64"
      using b assms(4,5) by (simp_all add: put_bytes_full p_def)
    have pad: "md5_pad ctx l = ctx\<lparr>md5_buf := rfc_compress (md5_buf ctx) p, md5_in := put_bytes p 0 (replicate 56 0)\<rparr>"
      using True p(1) assms(1) unfolding md5_pad_def Let_def b_def[symmetric] by (simp add: md5_block_eq b_def[symmetric])
    have "(119 - l) mod 64 = (63 - l) + 56" using True assms(5) by simp
    then have eq: "r @ 0x80 # replicate ((119 - l) mod 64) 0 @ e = p @ (replicate 56 0 @ e)"
      by (simp only: p_def replicate_add) simp
    have "blocks (p @ (replicate 56 0 @ e)) = [p, replicate 56 0 @ e]"
      using p(2) assms(6) blocks_64[of "replicate 56 0 @ e" "[]"] by (simp add: blocks_64)
    moreover have "take 56 (put_bytes p 0 (replicate 56 0)) = replicate 56 0" by (simp add: put_bytes_def)
    ultimately show ?thesis using p(2) assms(1) unfolding pad eq by (simp add: length_rfc_compress)
  next
    case False
    define p where "p = r @ 0x80 # replicate (55 - l) 0"
    have pad: "md5_pad ctx l = ctx\<lparr>md5_in := put_bytes b (Suc l) (replicate (55 - l) 0)\<rparr>"
      using False unfolding md5_pad_def Let_def b_def[symmetric] by (simp add: b_def[symmetric])
    have p: "length p = 56" "(119 - l) mod 64 = 55 - l" using False assms(4) by (simp_all add: p_def le_mod_geq)
    have "take 56 (put_bytes b (Suc l) (replicate (55 - l) 0)) = p"
      using take_put_bytes[of "Suc l" b "replicate (55 - l) 0"] b False by (simp add: p_def)
    moreover have "blocks (p @ e) = [p @ e]" using p(1) assms(6) blocks_64[of "p @ e" "[]"] by simp
    moreover have eq: "r @ 0x80 # replicate ((119 - l) mod 64) 0 @ e = p @ e" unfolding p(2) p_def by simp
    ultimately show ?thesis using b False assms(1) unfolding pad eq by simp
  qed
  then show "length (md5_in (md5_pad ctx l)) = 64" and "length (md5_buf (md5_pad ctx l)) = 4"
    and "bits0 (md5_pad ctx l) = bits0 ctx" and "bits1 (md5_pad ctx l) = bits1 ctx"
    and "rfc_compress (md5_buf (md5_pad ctx l)) (take 56 (md5_in (md5_pad ctx l)) @ e) =
      foldl rfc_compress (md5_buf ctx) (blocks (r @ 0x80 # replicate ((119 - l) mod 64) 0 @ e))" by blast+
qed

lemma MD5Final_digest:
  assumes "md5_holds ctx msg"
  shows "\<exists>ctx'. MD5Final ctx = (MD5 msg, ctx') \<and> length (md5_in ctx') = 64"
proof -
  define n where "n = length msg"
  define l where "l = n mod 64"
  have h: "md5_buf ctx = foldl rfc_compress md5_iv (blocks msg)" "length (md5_in ctx) = 64"
    "take l (md5_in ctx) = rest msg" "bits0 ctx = of_nat (8 * n)" "bits1 ctx = of_nat (8 * n div 2 ^ 32)"
    using assms by (simp_all add: md5_holds_def l_def n_def)
  have l: "l < 64" "length (rest msg) = l" by (simp_all add: l_def n_def length_rest)
  have len4: "length (md5_buf ctx) = 4" unfolding h(1) by (rule length_foldl_rfc) (simp add: md5_iv_def)
  have count: "unat (drop_bit 3 (bits0 ctx) AND 0x3F) = l" unfolding h(4) md5_left by (simp add: l_def)
  define c where "c = md5_pad ctx l"
  have "length (le64 (8 * n)) = 8" by (simp add: le64_def)
  note c = md5_pad_blocks[OF len4 h(2,3) l(2,1) this, folded c_def]
  define st where "st = MD5Transform (md5_buf c) (le_words (take 56 (md5_in c) @ le64 (8 * n)))"
  have "put_bytes (put_bytes (md5_in c) 56 (le_bytes (bits0 c))) 60 (le_bytes (bits1 c)) = take 56 (md5_in c) @ le64 (8 * n)"
    unfolding put_length[OF c(1)] c(3,4) h(4,5) by (simp only: append_assoc[symmetric] msglen_le64[symmetric])
  then have fin: "MD5Final ctx = (take 16 (concat (map le_bytes st)), \<lparr>md5_buf = replicate 4 0, bits0 = 0, bits1 = 0, md5_in = replicate 64 0\<rparr>)"
    unfolding MD5Final_def count Let_def st_def c_def[symmetric] by simp
  have "st = foldl rfc_compress (md5_buf ctx) (blocks (rest msg @ 0x80 # replicate ((119 - l) mod 64) 0 @ le64 (8 * n)))"
    unfolding st_def MD5Transform_rfc[OF c(2)] c(5) ..
  also have "\<dots> = md_hash le64 rfc_compress md5_iv msg"
    unfolding md_hash_def padded_def h(1) n_def[symmetric] l_def[symmetric]
    by (simp only: blocks_append[of msg] foldl_append)
  finally have st: "st = md_hash le64 rfc_compress md5_iv msg" .
  have "length st = 4" unfolding st md_hash_def by (rule length_foldl_rfc) (simp add: md5_iv_def)
  then have "take 16 (concat (map le_bytes st)) = concat (map le_bytes st)" by (simp add: length_concat_le_bytes)
  then show ?thesis unfolding fin st MD5_def by simp
qed

interpretation hash5: stream_hash MD5Init MD5Update MD5Final "\<lambda>c. length (md5_in c) = 64" md5_holds MD5
proof unfold_locales
  show "md5_holds (MD5Init c) []" if "length (md5_in c) = 64" for c
    using that by (simp add: md5_holds_def MD5Init_def)
qed (simp_all add: MD5Update_holds MD5Final_digest)

section \<open>Property\<close>



end
