(* ===== verification/Linear.thy ===== *)
theory Linear
  imports Prelude
begin

unbundle bit_operations_syntax

text \<open>
  Maps that are linear over exclusive or. A table of such a map is made from its entries at
  the powers of two by doubling, which is how the constant tables of the checksums and of the
  cipher are checked.
\<close>

definition lin :: "('a::len word \<Rightarrow> 'b::len word) \<Rightarrow> bool" where
  "lin f \<longleftrightarrow> (\<forall>a b. f (a XOR b) = f a XOR f b)"

definition doubled :: "'a::len word list \<Rightarrow> 'a word list" where
  "doubled ts = foldl (\<lambda>acc t. acc @ map (\<lambda>x. x XOR t) acc) [0] ts"

lemma lin_xor: "lin f \<Longrightarrow> f (a XOR b) = f a XOR f b"
  by (simp add: lin_def)

lemma lin_0: "lin f \<Longrightarrow> f 0 = 0"
  using lin_xor[of f 0 0] by simp

lemma lin_comp: "lin f \<Longrightarrow> lin g \<Longrightarrow> lin (\<lambda>x. f (g x))"
  by (simp add: lin_def)

lemma lin_funpow:
  fixes f :: "'a::len word \<Rightarrow> 'a word"
  shows "lin f \<Longrightarrow> lin (f ^^ n)"
  by (induction n) (simp_all add: lin_def)

lemma lin_push_bit: "lin (push_bit n)" and lin_drop_bit: "lin (drop_bit n)"
  by (auto simp: lin_def intro!: bit_word_eqI simp: bit_simps)

lemma upt_double: "[0..<2 * n] = [0..<n] @ map (\<lambda>i. i + n) [0..<n]"
proof -
  have "[0..<n + n] = [0..<n] @ [n..<n + n]" using upt_add_eq_append[of 0 n n] by simp
  moreover have "[n..<n + n] = map (\<lambda>i. i + n) [0..<n]" by (rule nth_equalityI) simp_all
  ultimately show ?thesis by (simp only: mult_2)
qed

lemma of_nat_add_power:
  assumes "n < 2 ^ k"
  shows "(of_nat (n + 2 ^ k) :: 'a::len word) = of_nat n XOR push_bit k 1"
proof -
  have "take_bit k n = n" using assms by (simp add: take_bit_nat_eq_self)
  then have b: "bit n i \<Longrightarrow> i < k" for i by (metis bit_take_bit_iff)
  have "n AND push_bit k 1 = 0" by (rule bit_eqI) (auto simp: bit_simps dest: b)
  then have "n + push_bit k 1 = n XOR push_bit k 1" by (rule disjunctive_add_eq_xor)
  moreover have "push_bit k (1 :: nat) = 2 ^ k" by (simp add: push_bit_eq_mult)
  ultimately have "(of_nat (n + 2 ^ k) :: 'a word) = of_nat (n XOR push_bit k 1)" by simp
  also have "\<dots> = of_nat n XOR push_bit k 1" by (rule bit_word_eqI) (auto simp: bit_simps)
  finally show ?thesis .
qed

lemma lin_doubled:
  fixes f :: "'a::len word \<Rightarrow> 'b::len word"
  assumes "lin f"
  shows "map (\<lambda>n. f (of_nat n)) [0..<2 ^ k] = doubled (map (\<lambda>i. f (push_bit i 1)) [0..<k])"
proof (induction k)
  case 0
  then show ?case using lin_0[OF assms] by (simp add: doubled_def)
next
  case (Suc k)
  have "map (\<lambda>n. f (of_nat (n + 2 ^ k))) [0..<2 ^ k] = map (\<lambda>n. f (of_nat n) XOR f (push_bit k 1)) [0..<2 ^ k]"
    by (rule map_cong) (simp_all only: of_nat_add_power lin_xor[OF assms] set_upt atLeastLessThan_iff)
  then have "map (\<lambda>n. f (of_nat n)) [0..<2 ^ Suc k] =
      doubled (map (\<lambda>i. f (push_bit i 1)) [0..<k]) @ map (\<lambda>x. x XOR f (push_bit k 1)) (doubled (map (\<lambda>i. f (push_bit i 1)) [0..<k]))"
    unfolding power_Suc upt_double Suc.IH[symmetric] by (simp add: comp_def)
  also have "\<dots> = doubled (map (\<lambda>i. f (push_bit i 1)) [0..<Suc k])" by (simp add: doubled_def)
  finally show ?case .
qed

lemma lin_doubled_8:
  fixes f :: "'a::len word \<Rightarrow> 'b::len word"
  assumes "lin f"
  shows "map (\<lambda>n. f (of_nat n)) [0..<256] =
    doubled [f 1, f 2, f 4, f 8, f 16, f 32, f 64, f 128]"
  using lin_doubled[OF assms, of 8] by (simp add: upt_rec push_bit_eq_mult)

lemma funpow_8: "(f ^^ 8) x = f (f (f (f (f (f (f (f x)))))))"
  by (simp add: numeral_eq_Suc)

end
