(* ===== verification/Crc.thy ===== *)
theory Crc
  imports Ram Linear
begin

unbundle bit_operations_syntax

text \<open>
  The checksums of \<^verbatim>\<open>common_uboot/lib\<close>: \<^verbatim>\<open>crc32.c\<close>, \<^verbatim>\<open>crc32c.c\<close>, \<^verbatim>\<open>crc16.c\<close>,
  \<^verbatim>\<open>crc8.c\<close>, \<^verbatim>\<open>crc7.c\<close> and the bit reversal of \<^verbatim>\<open>bitrev.c\<close>. The reference for all
  checksums is the shift register that takes in one message bit at a time.
\<close>

section \<open>Shift registers\<close>

text \<open>
  One step of a register that shifts to the right (bits enter at the low end, least
  significant bit of a byte first), and of one that shifts to the left.
\<close>

definition lsb_step :: "'a::len word \<Rightarrow> 'a word \<Rightarrow> bool \<Rightarrow> 'a word" where
  "lsb_step poly c b = drop_bit 1 c XOR (if bit c 0 \<noteq> b then poly else 0)"

definition msb_step :: "'a::len word \<Rightarrow> 'a word \<Rightarrow> bool \<Rightarrow> 'a word" where
  "msb_step poly c b = push_bit 1 c XOR (if bit c (LENGTH('a) - 1) \<noteq> b then poly else 0)"

definition bits_lsb :: "u8 list \<Rightarrow> bool list" where
  "bits_lsb xs = concat (map (\<lambda>x. map (bit x) [0..<8]) xs)"

definition bits_msb :: "u8 list \<Rightarrow> bool list" where
  "bits_msb xs = concat (map (\<lambda>x. map (\<lambda>i. bit x (7 - i)) [0..<8]) xs)"

definition lsb_crc :: "'a::len word \<Rightarrow> 'a word \<Rightarrow> u8 list \<Rightarrow> 'a word" where
  "lsb_crc poly c xs = foldl (lsb_step poly) c (bits_lsb xs)"

definition msb_crc :: "'a::len word \<Rightarrow> 'a word \<Rightarrow> u8 list \<Rightarrow> 'a word" where
  "msb_crc poly c xs = foldl (msb_step poly) c (bits_msb xs)"

section \<open>CRC-32\<close>

definition crc_table :: "u32 list" where
  "crc_table = [
     0x00000000, 0x77073096, 0xEE0E612C, 0x990951BA, 0x076DC419, 0x706AF48F, 0xE963A535, 0x9E6495A3,
     0x0EDB8832, 0x79DCB8A4, 0xE0D5E91E, 0x97D2D988, 0x09B64C2B, 0x7EB17CBD, 0xE7B82D07, 0x90BF1D91,
     0x1DB71064, 0x6AB020F2, 0xF3B97148, 0x84BE41DE, 0x1ADAD47D, 0x6DDDE4EB, 0xF4D4B551, 0x83D385C7,
     0x136C9856, 0x646BA8C0, 0xFD62F97A, 0x8A65C9EC, 0x14015C4F, 0x63066CD9, 0xFA0F3D63, 0x8D080DF5,
     0x3B6E20C8, 0x4C69105E, 0xD56041E4, 0xA2677172, 0x3C03E4D1, 0x4B04D447, 0xD20D85FD, 0xA50AB56B,
     0x35B5A8FA, 0x42B2986C, 0xDBBBC9D6, 0xACBCF940, 0x32D86CE3, 0x45DF5C75, 0xDCD60DCF, 0xABD13D59,
     0x26D930AC, 0x51DE003A, 0xC8D75180, 0xBFD06116, 0x21B4F4B5, 0x56B3C423, 0xCFBA9599, 0xB8BDA50F,
     0x2802B89E, 0x5F058808, 0xC60CD9B2, 0xB10BE924, 0x2F6F7C87, 0x58684C11, 0xC1611DAB, 0xB6662D3D,
     0x76DC4190, 0x01DB7106, 0x98D220BC, 0xEFD5102A, 0x71B18589, 0x06B6B51F, 0x9FBFE4A5, 0xE8B8D433,
     0x7807C9A2, 0x0F00F934, 0x9609A88E, 0xE10E9818, 0x7F6A0DBB, 0x086D3D2D, 0x91646C97, 0xE6635C01,
     0x6B6B51F4, 0x1C6C6162, 0x856530D8, 0xF262004E, 0x6C0695ED, 0x1B01A57B, 0x8208F4C1, 0xF50FC457,
     0x65B0D9C6, 0x12B7E950, 0x8BBEB8EA, 0xFCB9887C, 0x62DD1DDF, 0x15DA2D49, 0x8CD37CF3, 0xFBD44C65,
     0x4DB26158, 0x3AB551CE, 0xA3BC0074, 0xD4BB30E2, 0x4ADFA541, 0x3DD895D7, 0xA4D1C46D, 0xD3D6F4FB,
     0x4369E96A, 0x346ED9FC, 0xAD678846, 0xDA60B8D0, 0x44042D73, 0x33031DE5, 0xAA0A4C5F, 0xDD0D7CC9,
     0x5005713C, 0x270241AA, 0xBE0B1010, 0xC90C2086, 0x5768B525, 0x206F85B3, 0xB966D409, 0xCE61E49F,
     0x5EDEF90E, 0x29D9C998, 0xB0D09822, 0xC7D7A8B4, 0x59B33D17, 0x2EB40D81, 0xB7BD5C3B, 0xC0BA6CAD,
     0xEDB88320, 0x9ABFB3B6, 0x03B6E20C, 0x74B1D29A, 0xEAD54739, 0x9DD277AF, 0x04DB2615, 0x73DC1683,
     0xE3630B12, 0x94643B84, 0x0D6D6A3E, 0x7A6A5AA8, 0xE40ECF0B, 0x9309FF9D, 0x0A00AE27, 0x7D079EB1,
     0xF00F9344, 0x8708A3D2, 0x1E01F268, 0x6906C2FE, 0xF762575D, 0x806567CB, 0x196C3671, 0x6E6B06E7,
     0xFED41B76, 0x89D32BE0, 0x10DA7A5A, 0x67DD4ACC, 0xF9B9DF6F, 0x8EBEEFF9, 0x17B7BE43, 0x60B08ED5,
     0xD6D6A3E8, 0xA1D1937E, 0x38D8C2C4, 0x4FDFF252, 0xD1BB67F1, 0xA6BC5767, 0x3FB506DD, 0x48B2364B,
     0xD80D2BDA, 0xAF0A1B4C, 0x36034AF6, 0x41047A60, 0xDF60EFC3, 0xA867DF55, 0x316E8EEF, 0x4669BE79,
     0xCB61B38C, 0xBC66831A, 0x256FD2A0, 0x5268E236, 0xCC0C7795, 0xBB0B4703, 0x220216B9, 0x5505262F,
     0xC5BA3BBE, 0xB2BD0B28, 0x2BB45A92, 0x5CB36A04, 0xC2D7FFA7, 0xB5D0CF31, 0x2CD99E8B, 0x5BDEAE1D,
     0x9B64C2B0, 0xEC63F226, 0x756AA39C, 0x026D930A, 0x9C0906A9, 0xEB0E363F, 0x72076785, 0x05005713,
     0x95BF4A82, 0xE2B87A14, 0x7BB12BAE, 0x0CB61B38, 0x92D28E9B, 0xE5D5BE0D, 0x7CDCEFB7, 0x0BDBDF21,
     0x86D3D2D4, 0xF1D4E242, 0x68DDB3F8, 0x1FDA836E, 0x81BE16CD, 0xF6B9265B, 0x6FB077E1, 0x18B74777,
     0x88085AE6, 0xFF0F6A70, 0x66063BCA, 0x11010B5C, 0x8F659EFF, 0xF862AE69, 0x616BFFD3, 0x166CCF45,
     0xA00AE278, 0xD70DD2EE, 0x4E048354, 0x3903B3C2, 0xA7672661, 0xD06016F7, 0x4969474D, 0x3E6E77DB,
     0xAED16A4A, 0xD9D65ADC, 0x40DF0B66, 0x37D83BF0, 0xA9BCAE53, 0xDEBB9EC5, 0x47B2CF7F, 0x30B5FFE9,
     0xBDBDF21C, 0xCABAC28A, 0x53B39330, 0x24B4A3A6, 0xBAD03605, 0xCDD70693, 0x54DE5729, 0x23D967BF,
     0xB3667A2E, 0xC4614AB8, 0x5D681B02, 0x2A6F2B94, 0xB40BBE37, 0xC30C8EA1, 0x5A05DF1B, 0x2D02EF8D]"

text \<open>The code that fills the table when it is not compiled in.\<close>

definition crc_poly :: u32 where
  "crc_poly = foldl (\<lambda>poly k. poly OR push_bit (31 - k) 1) 0 [0, 1, 2, 4, 5, 7, 8, 10, 11, 12, 16, 22, 23, 26]"

definition make_crc_table :: "u32 list" where
  "make_crc_table =
    map (\<lambda>n. ((\<lambda>c. if c AND 1 \<noteq> 0 then crc_poly XOR drop_bit 1 c else drop_bit 1 c) ^^ 8) (of_nat n)) [0..<256]"

definition DO_CRC :: "u32 \<Rightarrow> u32 \<Rightarrow> u32" where
  "DO_CRC crc x = crc_table ! unat ((crc XOR x) AND 255) XOR drop_bit 8 crc"

text \<open>The loop up to an aligned address, the loop over words and the loop over the last bytes.\<close>

fun crc32_align :: "ram \<Rightarrow> u32 \<Rightarrow> nat \<Rightarrow> nat \<Rightarrow> u32 \<times> nat \<times> nat" where
  "crc32_align m crc p 0 = (crc, p, 0)"
| "crc32_align m crc p (Suc len) =
    (let crc = DO_CRC crc (ucast (m p)); p = p + 1
     in if len \<noteq> 0 \<and> p AND 3 \<noteq> 0 then crc32_align m crc p len else (crc, p, len))"

fun crc32_words :: "ram \<Rightarrow> u32 \<Rightarrow> nat \<Rightarrow> nat \<Rightarrow> u32" where
  "crc32_words m crc b 0 = crc"
| "crc32_words m crc b (Suc len) =
    (let crc = crc XOR load32 m b; crc = DO_CRC crc 0; crc = DO_CRC crc 0; crc = DO_CRC crc 0; crc = DO_CRC crc 0
     in crc32_words m crc (b + 4) len)"

fun crc32_bytes :: "ram \<Rightarrow> u32 \<Rightarrow> nat \<Rightarrow> nat \<Rightarrow> u32" where
  "crc32_bytes m crc p 0 = crc"
| "crc32_bytes m crc p (Suc len) = crc32_bytes m (DO_CRC crc (ucast (m p))) (p + 1) len"

definition crc32_no_comp :: "ram \<Rightarrow> u32 \<Rightarrow> nat \<Rightarrow> nat \<Rightarrow> u32" where
  "crc32_no_comp m crc buf len =
    (let (crc, b, len) = (if buf AND 3 \<noteq> 0 \<and> len \<noteq> 0 then crc32_align m crc buf len else (crc, buf, len));
         rem_len = len AND 3;
         len = drop_bit 2 len;
         crc = crc32_words m crc b len
     in crc32_bytes m crc (b + 4 * len) rem_len)"

definition crc32 :: "ram \<Rightarrow> u32 \<Rightarrow> nat \<Rightarrow> nat \<Rightarrow> u32" where
  "crc32 m crc p len = crc32_no_comp m (crc XOR 0xFFFFFFFF) p len XOR 0xFFFFFFFF"

text \<open>With a watchdog the buffer is checked in chunks; a chunk size of 0 never ends.\<close>

partial_function (option) crc32_wd_loop :: "ram \<Rightarrow> u32 \<Rightarrow> nat \<Rightarrow> nat \<Rightarrow> nat \<Rightarrow> u32 option" where
  "crc32_wd_loop m crc cur e chunk_sz =
    (if cur < e then
       let chunk = e - cur; chunk = (if chunk > chunk_sz then chunk_sz else chunk)
       in crc32_wd_loop m (crc32 m crc cur chunk) (cur + chunk) e chunk_sz
     else Some crc)"

definition crc32_wd :: "bool \<Rightarrow> ram \<Rightarrow> u32 \<Rightarrow> nat \<Rightarrow> nat \<Rightarrow> nat \<Rightarrow> u32 option" where
  "crc32_wd wd m crc buf len chunk_sz =
    (if wd then crc32_wd_loop m crc buf (buf + len) chunk_sz else Some (crc32 m crc buf len))"

text \<open>The checksum as four bytes, most significant first.\<close>

definition crc32_wd_buf :: "bool \<Rightarrow> ram \<Rightarrow> nat \<Rightarrow> nat \<Rightarrow> nat \<Rightarrow> u8 list option" where
  "crc32_wd_buf wd m input ilen chunk_sz =
    map_option (\<lambda>crc. [ucast (drop_bit 24 crc), ucast (drop_bit 16 crc), ucast (drop_bit 8 crc), ucast crc])
      (crc32_wd wd m 0 input ilen chunk_sz)"

section \<open>CRC-32C\<close>

definition crc32c_init :: "u32 \<Rightarrow> u32 list" where
  "crc32c_init pol =
    map (\<lambda>i. ((\<lambda>v. drop_bit 1 v XOR (if v AND 1 \<noteq> 0 then pol else 0)) ^^ 8) (of_nat i)) [0..<256]"

fun crc32c_cal :: "u32 \<Rightarrow> u8 list \<Rightarrow> u32 list \<Rightarrow> u32" where
  "crc32c_cal crc [] table = crc"
| "crc32c_cal crc (d # data) table =
    crc32c_cal (table ! unat (ucast (crc XOR ucast d) :: u8) XOR drop_bit 8 crc) data table"

section \<open>CRC-16, CRC-8 and CRC-7\<close>

definition crc16_tab :: "u16 list" where
  "crc16_tab = [
     0x0000, 0x1021, 0x2042, 0x3063, 0x4084, 0x50A5, 0x60C6, 0x70E7, 0x8108, 0x9129, 0xA14A, 0xB16B,
     0xC18C, 0xD1AD, 0xE1CE, 0xF1EF, 0x1231, 0x0210, 0x3273, 0x2252, 0x52B5, 0x4294, 0x72F7, 0x62D6,
     0x9339, 0x8318, 0xB37B, 0xA35A, 0xD3BD, 0xC39C, 0xF3FF, 0xE3DE, 0x2462, 0x3443, 0x0420, 0x1401,
     0x64E6, 0x74C7, 0x44A4, 0x5485, 0xA56A, 0xB54B, 0x8528, 0x9509, 0xE5EE, 0xF5CF, 0xC5AC, 0xD58D,
     0x3653, 0x2672, 0x1611, 0x0630, 0x76D7, 0x66F6, 0x5695, 0x46B4, 0xB75B, 0xA77A, 0x9719, 0x8738,
     0xF7DF, 0xE7FE, 0xD79D, 0xC7BC, 0x48C4, 0x58E5, 0x6886, 0x78A7, 0x0840, 0x1861, 0x2802, 0x3823,
     0xC9CC, 0xD9ED, 0xE98E, 0xF9AF, 0x8948, 0x9969, 0xA90A, 0xB92B, 0x5AF5, 0x4AD4, 0x7AB7, 0x6A96,
     0x1A71, 0x0A50, 0x3A33, 0x2A12, 0xDBFD, 0xCBDC, 0xFBBF, 0xEB9E, 0x9B79, 0x8B58, 0xBB3B, 0xAB1A,
     0x6CA6, 0x7C87, 0x4CE4, 0x5CC5, 0x2C22, 0x3C03, 0x0C60, 0x1C41, 0xEDAE, 0xFD8F, 0xCDEC, 0xDDCD,
     0xAD2A, 0xBD0B, 0x8D68, 0x9D49, 0x7E97, 0x6EB6, 0x5ED5, 0x4EF4, 0x3E13, 0x2E32, 0x1E51, 0x0E70,
     0xFF9F, 0xEFBE, 0xDFDD, 0xCFFC, 0xBF1B, 0xAF3A, 0x9F59, 0x8F78, 0x9188, 0x81A9, 0xB1CA, 0xA1EB,
     0xD10C, 0xC12D, 0xF14E, 0xE16F, 0x1080, 0x00A1, 0x30C2, 0x20E3, 0x5004, 0x4025, 0x7046, 0x6067,
     0x83B9, 0x9398, 0xA3FB, 0xB3DA, 0xC33D, 0xD31C, 0xE37F, 0xF35E, 0x02B1, 0x1290, 0x22F3, 0x32D2,
     0x4235, 0x5214, 0x6277, 0x7256, 0xB5EA, 0xA5CB, 0x95A8, 0x8589, 0xF56E, 0xE54F, 0xD52C, 0xC50D,
     0x34E2, 0x24C3, 0x14A0, 0x0481, 0x7466, 0x6447, 0x5424, 0x4405, 0xA7DB, 0xB7FA, 0x8799, 0x97B8,
     0xE75F, 0xF77E, 0xC71D, 0xD73C, 0x26D3, 0x36F2, 0x0691, 0x16B0, 0x6657, 0x7676, 0x4615, 0x5634,
     0xD94C, 0xC96D, 0xF90E, 0xE92F, 0x99C8, 0x89E9, 0xB98A, 0xA9AB, 0x5844, 0x4865, 0x7806, 0x6827,
     0x18C0, 0x08E1, 0x3882, 0x28A3, 0xCB7D, 0xDB5C, 0xEB3F, 0xFB1E, 0x8BF9, 0x9BD8, 0xABBB, 0xBB9A,
     0x4A75, 0x5A54, 0x6A37, 0x7A16, 0x0AF1, 0x1AD0, 0x2AB3, 0x3A92, 0xFD2E, 0xED0F, 0xDD6C, 0xCD4D,
     0xBDAA, 0xAD8B, 0x9DE8, 0x8DC9, 0x7C26, 0x6C07, 0x5C64, 0x4C45, 0x3CA2, 0x2C83, 0x1CE0, 0x0CC1,
     0xEF1F, 0xFF3E, 0xCF5D, 0xDF7C, 0xAF9B, 0xBFBA, 0x8FD9, 0x9FF8, 0x6E17, 0x7E36, 0x4E55, 0x5E74,
     0x2E93, 0x3EB2, 0x0ED1, 0x1EF0]"

fun crc16_ccitt :: "u16 \<Rightarrow> u8 list \<Rightarrow> u16" where
  "crc16_ccitt cksum [] = cksum"
| "crc16_ccitt cksum (b # buf) =
    crc16_ccitt (crc16_tab ! unat ((drop_bit 8 cksum XOR ucast b) AND 0xFF) XOR push_bit 8 cksum) buf"

definition crc8_POLY :: u16 where "crc8_POLY = push_bit 3 0x1070"

definition crc8_byte :: "u16 \<Rightarrow> u8" where
  "crc8_byte data =
    (let data = ((\<lambda>data. push_bit 1 (if data AND 0x8000 \<noteq> 0 then data XOR crc8_POLY else data)) ^^ 8) data
     in ucast (drop_bit 8 data))"

fun crc8 :: "u32 \<Rightarrow> u8 list \<Rightarrow> u32" where
  "crc8 crc [] = crc"
| "crc8 crc (b # vptr) = crc8 (ucast (crc8_byte (ucast (push_bit 8 (crc XOR ucast b))))) vptr"

definition crc7_syndrome_table :: "u8 list" where
  "crc7_syndrome_table = [
     0x00, 0x09, 0x12, 0x1B, 0x24, 0x2D, 0x36, 0x3F, 0x48, 0x41, 0x5A, 0x53, 0x6C, 0x65, 0x7E, 0x77,
     0x19, 0x10, 0x0B, 0x02, 0x3D, 0x34, 0x2F, 0x26, 0x51, 0x58, 0x43, 0x4A, 0x75, 0x7C, 0x67, 0x6E,
     0x32, 0x3B, 0x20, 0x29, 0x16, 0x1F, 0x04, 0x0D, 0x7A, 0x73, 0x68, 0x61, 0x5E, 0x57, 0x4C, 0x45,
     0x2B, 0x22, 0x39, 0x30, 0x0F, 0x06, 0x1D, 0x14, 0x63, 0x6A, 0x71, 0x78, 0x47, 0x4E, 0x55, 0x5C,
     0x64, 0x6D, 0x76, 0x7F, 0x40, 0x49, 0x52, 0x5B, 0x2C, 0x25, 0x3E, 0x37, 0x08, 0x01, 0x1A, 0x13,
     0x7D, 0x74, 0x6F, 0x66, 0x59, 0x50, 0x4B, 0x42, 0x35, 0x3C, 0x27, 0x2E, 0x11, 0x18, 0x03, 0x0A,
     0x56, 0x5F, 0x44, 0x4D, 0x72, 0x7B, 0x60, 0x69, 0x1E, 0x17, 0x0C, 0x05, 0x3A, 0x33, 0x28, 0x21,
     0x4F, 0x46, 0x5D, 0x54, 0x6B, 0x62, 0x79, 0x70, 0x07, 0x0E, 0x15, 0x1C, 0x23, 0x2A, 0x31, 0x38,
     0x41, 0x48, 0x53, 0x5A, 0x65, 0x6C, 0x77, 0x7E, 0x09, 0x00, 0x1B, 0x12, 0x2D, 0x24, 0x3F, 0x36,
     0x58, 0x51, 0x4A, 0x43, 0x7C, 0x75, 0x6E, 0x67, 0x10, 0x19, 0x02, 0x0B, 0x34, 0x3D, 0x26, 0x2F,
     0x73, 0x7A, 0x61, 0x68, 0x57, 0x5E, 0x45, 0x4C, 0x3B, 0x32, 0x29, 0x20, 0x1F, 0x16, 0x0D, 0x04,
     0x6A, 0x63, 0x78, 0x71, 0x4E, 0x47, 0x5C, 0x55, 0x22, 0x2B, 0x30, 0x39, 0x06, 0x0F, 0x14, 0x1D,
     0x25, 0x2C, 0x37, 0x3E, 0x01, 0x08, 0x13, 0x1A, 0x6D, 0x64, 0x7F, 0x76, 0x49, 0x40, 0x5B, 0x52,
     0x3C, 0x35, 0x2E, 0x27, 0x18, 0x11, 0x0A, 0x03, 0x74, 0x7D, 0x66, 0x6F, 0x50, 0x59, 0x42, 0x4B,
     0x17, 0x1E, 0x05, 0x0C, 0x33, 0x3A, 0x21, 0x28, 0x5F, 0x56, 0x4D, 0x44, 0x7B, 0x72, 0x69, 0x60,
     0x0E, 0x07, 0x1C, 0x15, 0x2A, 0x23, 0x38, 0x31, 0x46, 0x4F, 0x54, 0x5D, 0x62, 0x6B, 0x70, 0x79]"

text \<open>The index is computed as an \<^verbatim>\<open>int\<close>, so the shifted register is not cut to eight bits.\<close>

definition crc7_byte :: "u8 \<Rightarrow> u8 \<Rightarrow> u8" where
  "crc7_byte crc data = crc7_syndrome_table ! unat (push_bit 1 (ucast crc) XOR ucast data :: u32)"

fun crc7 :: "u8 \<Rightarrow> u8 list \<Rightarrow> u8" where
  "crc7 crc [] = crc"
| "crc7 crc (b # buffer) = crc7 (crc7_byte crc b) buffer"

section \<open>Bit reversal\<close>

definition byte_rev_table :: "u8 list" where
  "byte_rev_table = [
     0x00, 0x80, 0x40, 0xC0, 0x20, 0xA0, 0x60, 0xE0, 0x10, 0x90, 0x50, 0xD0, 0x30, 0xB0, 0x70, 0xF0,
     0x08, 0x88, 0x48, 0xC8, 0x28, 0xA8, 0x68, 0xE8, 0x18, 0x98, 0x58, 0xD8, 0x38, 0xB8, 0x78, 0xF8,
     0x04, 0x84, 0x44, 0xC4, 0x24, 0xA4, 0x64, 0xE4, 0x14, 0x94, 0x54, 0xD4, 0x34, 0xB4, 0x74, 0xF4,
     0x0C, 0x8C, 0x4C, 0xCC, 0x2C, 0xAC, 0x6C, 0xEC, 0x1C, 0x9C, 0x5C, 0xDC, 0x3C, 0xBC, 0x7C, 0xFC,
     0x02, 0x82, 0x42, 0xC2, 0x22, 0xA2, 0x62, 0xE2, 0x12, 0x92, 0x52, 0xD2, 0x32, 0xB2, 0x72, 0xF2,
     0x0A, 0x8A, 0x4A, 0xCA, 0x2A, 0xAA, 0x6A, 0xEA, 0x1A, 0x9A, 0x5A, 0xDA, 0x3A, 0xBA, 0x7A, 0xFA,
     0x06, 0x86, 0x46, 0xC6, 0x26, 0xA6, 0x66, 0xE6, 0x16, 0x96, 0x56, 0xD6, 0x36, 0xB6, 0x76, 0xF6,
     0x0E, 0x8E, 0x4E, 0xCE, 0x2E, 0xAE, 0x6E, 0xEE, 0x1E, 0x9E, 0x5E, 0xDE, 0x3E, 0xBE, 0x7E, 0xFE,
     0x01, 0x81, 0x41, 0xC1, 0x21, 0xA1, 0x61, 0xE1, 0x11, 0x91, 0x51, 0xD1, 0x31, 0xB1, 0x71, 0xF1,
     0x09, 0x89, 0x49, 0xC9, 0x29, 0xA9, 0x69, 0xE9, 0x19, 0x99, 0x59, 0xD9, 0x39, 0xB9, 0x79, 0xF9,
     0x05, 0x85, 0x45, 0xC5, 0x25, 0xA5, 0x65, 0xE5, 0x15, 0x95, 0x55, 0xD5, 0x35, 0xB5, 0x75, 0xF5,
     0x0D, 0x8D, 0x4D, 0xCD, 0x2D, 0xAD, 0x6D, 0xED, 0x1D, 0x9D, 0x5D, 0xDD, 0x3D, 0xBD, 0x7D, 0xFD,
     0x03, 0x83, 0x43, 0xC3, 0x23, 0xA3, 0x63, 0xE3, 0x13, 0x93, 0x53, 0xD3, 0x33, 0xB3, 0x73, 0xF3,
     0x0B, 0x8B, 0x4B, 0xCB, 0x2B, 0xAB, 0x6B, 0xEB, 0x1B, 0x9B, 0x5B, 0xDB, 0x3B, 0xBB, 0x7B, 0xFB,
     0x07, 0x87, 0x47, 0xC7, 0x27, 0xA7, 0x67, 0xE7, 0x17, 0x97, 0x57, 0xD7, 0x37, 0xB7, 0x77, 0xF7,
     0x0F, 0x8F, 0x4F, 0xCF, 0x2F, 0xAF, 0x6F, 0xEF, 0x1F, 0x9F, 0x5F, 0xDF, 0x3F, 0xBF, 0x7F, 0xFF]"

definition bitrev8 :: "u8 \<Rightarrow> u8" where
  "bitrev8 b = byte_rev_table ! unat b"

definition bitrev16 :: "u16 \<Rightarrow> u16" where
  "bitrev16 x = push_bit 8 (ucast (bitrev8 (ucast (x AND 0xFF)))) OR ucast (bitrev8 (ucast (drop_bit 8 x)))"

definition bitrev32 :: "u32 \<Rightarrow> u32" where
  "bitrev32 x = push_bit 16 (ucast (bitrev16 (ucast (x AND 0xFFFF)))) OR ucast (bitrev16 (ucast (drop_bit 16 x)))"

section \<open>Tables\<close>

lemma crc_poly_eq: "crc_poly = 0xEDB88320"
  by (simp add: crc_poly_def)

text \<open>The maps that the tables tabulate are linear.\<close>

lemma lin_lsb: "lin (\<lambda>c. lsb_step poly c False)"
  unfolding lin_def
proof (intro allI)
  fix a b :: "'a word"
  show "lsb_step poly (a XOR b) False = lsb_step poly a False XOR lsb_step poly b False"
    by (rule bit_word_eqI) (auto simp: lsb_step_def bit_simps)
qed

lemma lin_msb: "lin (\<lambda>c. msb_step poly c False)"
  unfolding lin_def
proof (intro allI)
  fix a b :: "'a word"
  show "msb_step poly (a XOR b) False = msb_step poly a False XOR msb_step poly b False"
    by (rule bit_word_eqI) (auto simp: msb_step_def bit_simps)
qed

lemma crc_table_doubled: "crc_table = doubled [0x77073096, 0xEE0E612C, 0x76DC419, 0xEDB8832, 0x1DB71064, 0x3B6E20C8, 0x76DC4190, 0xEDB88320]"
  by (simp add: crc_table_def doubled_def)

lemma crc_table_lin: "map (\<lambda>n. ((\<lambda>c. lsb_step 0xEDB88320 c False) ^^ 8) (of_nat n)) [0..<256] = crc_table"
  unfolding crc_table_doubled lin_doubled_8[OF lin_funpow[OF lin_lsb]]
  by (simp add: funpow_8 lsb_step_def)

lemma crc16_tab_doubled: "crc16_tab = doubled [0x1021, 0x2042, 0x4084, 0x8108, 0x1231, 0x2462, 0x48C4, 0x9188]"
  by (simp add: crc16_tab_def doubled_def)

lemma crc16_tab_lin: "map (\<lambda>n. ((\<lambda>c. msb_step 0x1021 c False) ^^ 8) (push_bit 8 (of_nat n))) [0..<256] = crc16_tab"
  unfolding crc16_tab_doubled lin_doubled_8[OF lin_comp[OF lin_funpow[OF lin_msb] lin_push_bit]]
  by (rule arg_cong[of _ _ doubled]) (simp add: funpow_8 msb_step_def)

lemma crc7_table_doubled: "crc7_syndrome_table = doubled [0x9, 0x12, 0x24, 0x48, 0x19, 0x32, 0x64, 0x41]"
  by (simp add: crc7_syndrome_table_def doubled_def)

lemma crc7_table_lin: "map (\<lambda>n. drop_bit 1 (((\<lambda>c. msb_step 0x12 c False) ^^ 8) (of_nat n))) [0..<256] = crc7_syndrome_table"
  unfolding crc7_table_doubled lin_doubled_8[OF lin_comp[OF lin_drop_bit lin_funpow[OF lin_msb]]]
  by (rule arg_cong[of _ _ doubled]) (simp add: funpow_8 msb_step_def)

lemma byte_rev_table_doubled: "byte_rev_table = doubled [0x80, 0x40, 0x20, 0x10, 0x8, 0x4, 0x2, 0x1]"
  by (simp add: byte_rev_table_def doubled_def)

lemma lin_word_reverse: "lin word_reverse"
  by (auto simp: lin_def intro!: bit_word_eqI simp: bit_simps)

lemma byte_rev_table_lin: "map (\<lambda>n. word_reverse (of_nat n)) [0..<256] = byte_rev_table"
  unfolding byte_rev_table_doubled lin_doubled_8[OF lin_word_reverse]
  by (rule arg_cong[of _ _ doubled]) (simp add: word_reverse_def upt_rec)


section \<open>Taking in several bits at once\<close>

lemma bit_lsb_step: "bit (lsb_step p c b) n \<longleftrightarrow> bit c (Suc n) \<noteq> ((bit c 0 \<noteq> b) \<and> bit p n)"
  by (simp add: lsb_step_def bit_simps)

lemma bit_msb_step:
  fixes c :: "'a::len word"
  shows "bit (msb_step p c b) n \<longleftrightarrow>
    (0 < n \<and> n < LENGTH('a) \<and> bit c (n - 1)) \<noteq> ((bit c (LENGTH('a) - 1) \<noteq> b) \<and> bit p n)"
proof -
  have "bit (push_bit 1 c) n \<longleftrightarrow> 0 < n \<and> n < LENGTH('a) \<and> bit c (n - 1)"
    by (simp only: bit_push_bit_iff possible_bit_word) auto
  then show ?thesis by (simp only: msb_step_def bit_xor_iff) (simp split: if_split)
qed

lemma bit_clear_low: "bit (push_bit k (drop_bit k (c :: 'a::len word))) i \<longleftrightarrow> k \<le> i \<and> bit c i"
  by (simp only: bit_push_bit_iff bit_drop_bit_eq possible_bit_word comp_def)
    (auto dest: bit_imp_le_length)

lemma lsb_absorb:
  fixes c :: "'a::len word"
  shows "length e \<le> LENGTH('a) \<Longrightarrow>
    foldl (lsb_step p) c e = ((\<lambda>c. lsb_step p c False) ^^ length e) (c XOR horner_sum of_bool 2 e)"
proof (induction e arbitrary: c)
  case (Cons b e)
  have "lsb_step p c b XOR horner_sum of_bool 2 e = lsb_step p (c XOR horner_sum of_bool 2 (b # e)) False"
    using Cons.prems
    by (intro bit_word_eqI) (auto simp: bit_lsb_step bit_xor_iff bit_horner_sum_bit_word_iff simp del: horner_sum_simps)
  with Cons show ?case by (simp add: funpow_Suc_right del: funpow.simps horner_sum_simps)
qed simp

lemma lsb_shift:
  fixes c :: "'a::len word"
  shows "((\<lambda>c. lsb_step p c False) ^^ n) (push_bit n (drop_bit n c)) = drop_bit n c"
proof (induction n arbitrary: c)
  case (Suc n)
  have 1: "lsb_step p (push_bit (Suc n) (drop_bit (Suc n) c)) False = push_bit n (drop_bit n (drop_bit 1 c))"
    by (rule bit_word_eqI) (simp only: bit_lsb_step bit_clear_low, simp add: bit_drop_bit_eq)
  have "((\<lambda>c. lsb_step p c False) ^^ Suc n) (push_bit (Suc n) (drop_bit (Suc n) c)) =
      ((\<lambda>c. lsb_step p c False) ^^ n) (push_bit n (drop_bit n (drop_bit 1 c)))"
    by (simp only: funpow_Suc_right comp_def 1)
  also have "\<dots> = drop_bit n (drop_bit 1 c)" by (rule Suc.IH)
  finally show ?case by simp
qed simp

lemma msb_absorb:
  fixes c :: "'a::len word"
  shows "length e \<le> LENGTH('a) \<Longrightarrow>
    foldl (msb_step p) c e = ((\<lambda>c. msb_step p c False) ^^ length e) (c XOR word_reverse (horner_sum of_bool 2 e))"
proof (induction e arbitrary: c)
  case (Cons b e)
  have "msb_step p c b XOR word_reverse (horner_sum of_bool 2 e) =
      msb_step p (c XOR word_reverse (horner_sum of_bool 2 (b # e))) False"
  proof (rule bit_word_eqI)
    fix n assume n: "n < LENGTH('a)"
    show "bit (msb_step p c b XOR word_reverse (horner_sum of_bool 2 e)) n =
      bit (msb_step p (c XOR word_reverse (horner_sum of_bool 2 (b # e))) False) n"
    proof (cases n)
      case 0
      then show ?thesis using Cons.prems
        by (auto simp: bit_msb_step bit_xor_iff bit_word_reverse_iff bit_horner_sum_bit_word_iff simp del: horner_sum_simps)
    next
      case (Suc k)
      then have "LENGTH('a) - Suc k = Suc (LENGTH('a) - Suc n)" using n by simp
      then show ?thesis using Suc n Cons.prems
        by (auto simp: bit_msb_step bit_xor_iff bit_word_reverse_iff bit_horner_sum_bit_word_iff simp del: horner_sum_simps)
    qed
  qed
  with Cons show ?case by (simp add: funpow_Suc_right del: funpow.simps horner_sum_simps)
qed (simp add: lin_0[OF lin_word_reverse])

lemma length_bits_lsb [simp]: "length (bits_lsb xs) = 8 * length xs"
  by (induction xs) (simp_all add: bits_lsb_def)

lemma bits_lsb_simps [simp]: "bits_lsb [] = []" "bits_lsb (x # xs) = map (bit x) [0..<8] @ bits_lsb xs"
  by (simp_all add: bits_lsb_def)

lemma bits_lsb_append: "bits_lsb (xs @ ys) = bits_lsb xs @ bits_lsb ys"
  by (induction xs) simp_all

lemma bits_lsb_nth: "i < 8 * length xs \<Longrightarrow> bits_lsb xs ! i = bit (xs ! (i div 8)) (i mod 8)"
proof (induction xs arbitrary: i)
  case (Cons x xs)
  show ?case
  proof (cases "i < 8")
    case False
    then have "i div 8 = Suc ((i - 8) div 8)" "i mod 8 = (i - 8) mod 8" by (simp_all add: le_div_geq le_mod_geq)
    with False Cons show ?thesis by (simp add: nth_append)
  qed (simp add: nth_append)
qed simp

lemma lsb_crc_append: "lsb_crc p c (xs @ ys) = lsb_crc p (lsb_crc p c xs) ys"
  by (simp add: lsb_crc_def bits_lsb_append)

lemma lsb_crc_Nil [simp]: "lsb_crc p c [] = c"
  by (simp add: lsb_crc_def)

lemma msb_crc_Cons: "msb_crc p c (x # xs) = msb_crc p (foldl (msb_step p) c (map (\<lambda>i. bit x (7 - i)) [0..<8])) xs"
  by (simp add: msb_crc_def bits_msb_def)

lemma msb_crc_Nil [simp]: "msb_crc p c [] = c"
  by (simp add: msb_crc_def bits_msb_def)

section \<open>CRC-32 and CRC-32C\<close>

lemma bit_255: "bit (255 :: u32) n \<longleftrightarrow> n < 8"
proof -
  have "bit (mask 8 :: u32) n \<longleftrightarrow> n < 8" by (simp only: bit_mask_iff possible_bit_word) auto
  moreover have "(mask 8 :: u32) = 255" by (simp add: mask_eq_exp_minus_1)
  ultimately show ?thesis by (simp only:)
qed

lemma bit_255_int: "bit (255 :: int) n \<longleftrightarrow> n < 8"
proof -
  have "bit (mask 8 :: int) n \<longleftrightarrow> n < 8" by (simp only: bit_mask_iff possible_bit_int simp_thms)
  moreover have "(mask 8 :: int) = 255" by (simp add: mask_eq_exp_minus_1)
  ultimately show ?thesis by (simp only:)
qed

lemma and_255_split: "c = (c AND 255) XOR push_bit 8 (drop_bit 8 (c :: u32))"
  by (rule bit_word_eqI) (simp only: bit_xor_iff bit_and_iff bit_255 bit_clear_low, auto)

lemma unat_and_255: "unat (c AND 255 :: u32) < 256"
proof -
  have "c AND 255 \<le> 255" by (rule word_and_le1)
  then show ?thesis by (simp add: word_le_nat_alt)
qed

lemma table_step:
  assumes "\<And>n. n < 256 \<Longrightarrow> T ! n = ((\<lambda>c. lsb_step p c False) ^^ 8) (of_nat n)"
  shows "T ! unat (c AND 255) XOR drop_bit 8 c = ((\<lambda>c. lsb_step p c False) ^^ 8) (c :: u32)"
proof -
  have "T ! unat (c AND 255) = ((\<lambda>c. lsb_step p c False) ^^ 8) (c AND 255)"
    using assms[OF unat_and_255, of c] by (simp only: of_nat_unat ucast_id)
  moreover have "((\<lambda>c. lsb_step p c False) ^^ 8) ((c AND 255) XOR push_bit 8 (drop_bit 8 c)) =
      ((\<lambda>c. lsb_step p c False) ^^ 8) (c AND 255) XOR drop_bit 8 c"
    by (simp only: lin_xor[OF lin_funpow[OF lin_lsb]] lsb_shift)
  ultimately show ?thesis by (simp only: and_255_split[symmetric])
qed

lemma crc_table_nth: "n < 256 \<Longrightarrow> crc_table ! n = ((\<lambda>c. lsb_step 0xEDB88320 c False) ^^ 8) (of_nat n)"
  by (simp only: crc_table_lin[symmetric]) simp

lemma drop_bit_xor_byte: "drop_bit 8 (crc XOR ucast (x :: u8)) = drop_bit 8 (crc :: u32)"
  by (rule bit_word_eqI) (auto simp: bit_simps dest: bit_imp_le_length)

lemma horner_byte: "horner_sum of_bool 2 (map (bit x) [0..<8]) = (ucast (x :: u8) :: 'a::len word)"
proof (rule bit_word_eqI)
  fix n assume "n < LENGTH('a)"
  then show "bit (horner_sum of_bool 2 (map (bit x) [0..<8]) :: 'a word) n = bit (ucast x :: 'a word) n"
    by (cases "n < 8") (auto simp: bit_horner_sum_bit_word_iff bit_unsigned_iff dest: bit_imp_le_length)
qed

lemma lsb_byte: "lsb_crc p c [x] = ((\<lambda>c. lsb_step p c False) ^^ 8) (c XOR ucast x :: u32)"
  unfolding lsb_crc_def using lsb_absorb[of "map (bit x) [0..<8]" p c] by (simp add: horner_byte)

lemma DO_CRC_byte: "DO_CRC crc (ucast (x :: u8)) = lsb_crc 0xEDB88320 crc [x]"
  unfolding DO_CRC_def lsb_byte using table_step[OF crc_table_nth, of "crc XOR ucast x"]
  by (simp only: drop_bit_xor_byte)

lemma DO_CRC_0: "DO_CRC crc 0 = ((\<lambda>c. lsb_step 0xEDB88320 c False) ^^ 8) crc"
  unfolding DO_CRC_def using table_step[OF crc_table_nth, of crc] by simp

lemma horner_word: "horner_sum of_bool 2 (bits_lsb (block m a 4)) = load32 m a"
  by (rule bit_word_eqI) (simp add: bit_horner_sum_bit_word_iff bits_lsb_nth bit_load32)

lemma crc32_words_eq: "crc32_words m crc b n = lsb_crc 0xEDB88320 crc (block m b (4 * n))"
proof (induction n arbitrary: crc b)
  case (Suc n)
  let ?f = "\<lambda>c :: u32. lsb_step 0xEDB88320 c False"
  have "block m b (4 * Suc n) = block m b 4 @ block m (b + 4) (4 * n)" using block_add[of m b 4 "4 * n"] by simp
  moreover have "(?f ^^ 8) ((?f ^^ 8) ((?f ^^ 8) ((?f ^^ 8) x))) = (?f ^^ 32) x" for x
    by (simp add: funpow_add[symmetric, THEN fun_cong, unfolded comp_def])
  moreover have "lsb_crc 0xEDB88320 crc (block m b 4) = (?f ^^ 32) (crc XOR load32 m b)"
    unfolding lsb_crc_def using lsb_absorb[of "bits_lsb (block m b 4)" "0xEDB88320" crc] by (simp add: horner_word)
  ultimately show ?case using Suc by (simp add: DO_CRC_0 Let_def lsb_crc_append)
qed simp

lemma crc32_bytes_eq: "crc32_bytes m crc p n = lsb_crc 0xEDB88320 crc (block m p n)"
proof (induction n arbitrary: crc p)
  case (Suc n)
  have "block m p (Suc n) = [m p] @ block m (Suc p) n" by (simp add: block_Suc)
  with Suc show ?case by (simp only: crc32_bytes.simps DO_CRC_byte lsb_crc_append) simp
qed simp

lemma crc32_align_eq:
  "\<exists>k \<le> len. crc32_align m crc p len = (lsb_crc 0xEDB88320 crc (block m p k), p + k, len - k)"
proof (induction len arbitrary: crc p)
  case (Suc len)
  define c where "c = lsb_crc 0xEDB88320 crc [m p]"
  have blk: "lsb_crc 0xEDB88320 crc (block m p (Suc k)) = lsb_crc 0xEDB88320 c (block m (Suc p) k)" for k
    using lsb_crc_append[of "0xEDB88320" crc "[m p]" "block m (Suc p) k"]
    by (simp only: block_Suc c_def append_Cons append_Nil)
  have step: "crc32_align m crc p (Suc len) =
      (if len \<noteq> 0 \<and> Suc p AND 3 \<noteq> 0 then crc32_align m c (Suc p) len else (c, Suc p, len))"
    unfolding crc32_align.simps(2) Let_def DO_CRC_byte c_def by simp
  obtain k where k: "k \<le> len" "crc32_align m c (Suc p) len = (lsb_crc 0xEDB88320 c (block m (Suc p) k), Suc p + k, len - k)"
    using Suc.IH by blast
  have one: "(c, Suc p, len) = (lsb_crc 0xEDB88320 crc (block m p (Suc 0)), p + Suc 0, Suc len - Suc 0)"
    unfolding blk by simp
  have more: "crc32_align m c (Suc p) len = (lsb_crc 0xEDB88320 crc (block m p (Suc k)), p + Suc k, Suc len - Suc k)"
    unfolding blk k(2) by simp
  have le: "Suc k \<le> Suc len" "Suc 0 \<le> Suc len" using k(1) by simp_all
  show ?case
  proof (cases "len \<noteq> 0 \<and> Suc p AND 3 \<noteq> 0")
    case True
    show ?thesis unfolding step if_P[OF True] using le(1) more by (intro exI[of _ "Suc k"] conjI)
  next
    case False
    show ?thesis unfolding step if_not_P[OF False] using le(2) one by (intro exI[of _ "Suc 0"] conjI)
  qed
qed simp

lemma crc32_no_comp_eq: "crc32_no_comp m crc buf len = lsb_crc 0xEDB88320 crc (block m buf len)"
proof -
  obtain k where k: "k \<le> len" "(if buf AND 3 \<noteq> 0 \<and> len \<noteq> 0 then crc32_align m crc buf len else (crc, buf, len)) =
      (lsb_crc 0xEDB88320 crc (block m buf k), buf + k, len - k)"
    using crc32_align_eq[of len m crc buf] by (cases "buf AND 3 \<noteq> 0 \<and> len \<noteq> 0") auto
  define n where "n = len - k"
  have "n AND 3 = n mod 4"
  proof -
    have "n AND 3 = n AND mask 2" by (simp add: mask_eq_exp_minus_1)
    then show ?thesis by (simp add: take_bit_eq_mask[symmetric] take_bit_eq_mod)
  qed
  then have n: "n = 4 * drop_bit 2 n + (n AND 3)" by (simp add: drop_bit_eq_div)
  have "block m buf len = block m buf k @ block m (buf + k) (4 * drop_bit 2 n) @ block m (buf + k + 4 * drop_bit 2 n) (n AND 3)"
    using block_add[of m buf k n] block_add[of m "buf + k" "4 * drop_bit 2 n" "n AND 3"] n k(1) by (simp add: n_def)
  then show ?thesis
    unfolding crc32_no_comp_def k(2) by (simp add: Let_def crc32_words_eq crc32_bytes_eq lsb_crc_append n_def)
qed

lemma not_xor: "x XOR 0xFFFFFFFF = NOT (x :: u32)"
proof -
  have "x XOR - 1 = NOT x" by (rule bit_word_eqI) (simp add: bit_simps)
  moreover have "(0xFFFFFFFF :: u32) = - 1" by simp
  ultimately show ?thesis by (simp only:)
qed

lemma crc32_eq: "crc32 m crc p len = NOT (lsb_crc 0xEDB88320 (NOT crc) (block m p len))"
  unfolding crc32_def crc32_no_comp_eq not_xor ..


lemma crc32_append: "crc32 m (crc32 m crc p k) (p + k) n = crc32 m crc p (k + n)"
  unfolding crc32_eq block_add by (simp add: lsb_crc_append)

lemma crc32_wd_loop_eq:
  assumes "0 < chunk_sz"
  shows "cur \<le> e \<Longrightarrow> crc32_wd_loop m crc cur e chunk_sz = Some (crc32 m crc cur (e - cur))"
proof (induction "e - cur" arbitrary: crc cur rule: less_induct)
  case less
  show ?case
  proof (cases "cur < e")
    case True
    define k where "k = (if e - cur > chunk_sz then chunk_sz else e - cur)"
    have k: "0 < k" "k \<le> e - cur" using True assms by (simp_all add: k_def)
    have "crc32_wd_loop m (crc32 m crc cur k) (cur + k) e chunk_sz =
        Some (crc32 m (crc32 m crc cur k) (cur + k) (e - (cur + k)))"
      by (rule less.hyps) (use k less.prems in auto)
    also have "\<dots> = Some (crc32 m crc cur (e - cur))" using k by (simp add: crc32_append)
    finally show ?thesis using True by (subst crc32_wd_loop.simps) (simp add: Let_def k_def)
  next
    case False
    with less.prems have "cur = e" by simp
    moreover have "crc32 m crc e 0 = crc" unfolding crc32_eq by simp
    ultimately show ?thesis by (subst crc32_wd_loop.simps) simp
  qed
qed

lemma crc32_wd_eq: "0 < chunk_sz \<Longrightarrow> crc32_wd wd m crc buf len chunk_sz = Some (crc32 m crc buf len)"
  using crc32_wd_loop_eq[of chunk_sz buf "buf + len" m crc] by (simp add: crc32_wd_def)

lemma and_1_bit: "c AND 1 \<noteq> 0 \<longleftrightarrow> bit (c :: u32) 0"
  by (simp add: and_one_eq mod_2_eq_odd bit_0)

lemma make_crc_table_eq: "make_crc_table = crc_table"
proof -
  have "(if c AND 1 \<noteq> 0 then crc_poly XOR drop_bit 1 c else drop_bit 1 c) = lsb_step 0xEDB88320 c False" for c
    unfolding lsb_step_def crc_poly_eq and_1_bit by (simp add: xor.commute)
  then show ?thesis unfolding make_crc_table_def crc_table_lin[symmetric] by (simp only:)
qed

lemma crc32c_init_nth: "n < 256 \<Longrightarrow> crc32c_init pol ! n = ((\<lambda>c. lsb_step pol c False) ^^ 8) (of_nat n)"
proof -
  have "drop_bit 1 v XOR (if v AND 1 \<noteq> 0 then pol else 0) = lsb_step pol v False" for v
    unfolding lsb_step_def and_1_bit by simp
  then show "n < 256 \<Longrightarrow> ?thesis" unfolding crc32c_init_def by (simp only:) simp
qed

lemma unat_ucast_and: "unat (ucast (w :: u32) :: u8) = unat (w AND 255)"
proof -
  have "unat (ucast w :: u8) = unat w mod 256" by (simp add: unsigned_ucast_eq take_bit_eq_mod)
  moreover have "w AND 255 = take_bit 8 w" by (rule bit_word_eqI) (auto simp: bit_and_iff bit_255_int bit_take_bit_iff)
  ultimately show ?thesis by (simp only: unsigned_take_bit_eq) (simp add: take_bit_eq_mod)
qed

lemma crc32c_cal_eq: "crc32c_cal crc data (crc32c_init pol) = lsb_crc pol crc data"
proof (induction data arbitrary: crc)
  case (Cons d data)
  have "crc32c_init pol ! unat (ucast (crc XOR ucast d) :: u8) XOR drop_bit 8 crc = lsb_crc pol crc [d]"
    unfolding unat_ucast_and lsb_byte using table_step[OF crc32c_init_nth, of pol "crc XOR ucast d"]
    by (simp only: drop_bit_xor_byte)
  with Cons show ?case using lsb_crc_append[of pol crc "[d]" data] by (simp only: crc32c_cal.simps append_Cons append_Nil)
qed simp

section \<open>The shift registers to the left\<close>

lemma msb_byte:
  fixes c :: "'a::len word"
  assumes "8 \<le> LENGTH('a)"
  shows "foldl (msb_step p) c (map (\<lambda>i. bit x (7 - i)) [0..<8]) =
    ((\<lambda>c. msb_step p c False) ^^ 8) (c XOR push_bit (LENGTH('a) - 8) (ucast (x :: u8)))"
proof -
  have "word_reverse (horner_sum of_bool 2 (map (\<lambda>i. bit x (7 - i)) [0..<8])) = (push_bit (LENGTH('a) - 8) (ucast x) :: 'a word)"
  proof (rule bit_word_eqI)
    fix n assume n: "n < LENGTH('a)"
    show "bit (word_reverse (horner_sum of_bool 2 (map (\<lambda>i. bit x (7 - i)) [0..<8])) :: 'a word) n =
        bit (push_bit (LENGTH('a) - 8) (ucast x) :: 'a word) n"
    proof (cases "LENGTH('a) - 8 \<le> n")
      case True
      then have l: "7 - (LENGTH('a) - Suc n) = n - (LENGTH('a) - 8)" "LENGTH('a) - Suc n < 8" using n assms by simp_all
      then have "map (\<lambda>i. bit x (7 - i)) [0..<8] ! (LENGTH('a) - Suc n) = bit x (n - (LENGTH('a) - 8))"
        by (subst nth_map) simp_all
      with True n l show ?thesis
        by (auto simp: bit_word_reverse_iff bit_horner_sum_bit_word_iff bit_push_bit_iff bit_unsigned_iff)
    next
      case False
      then have "\<not> LENGTH('a) - Suc n < 8" using n assms by simp
      with False n show ?thesis by (simp add: bit_word_reverse_iff bit_horner_sum_bit_word_iff bit_push_bit_iff)
    qed
  qed
  then show ?thesis using msb_absorb[of "map (\<lambda>i. bit x (7 - i)) [0..<8]" p c] assms by simp
qed

lemma msb_shift:
  fixes c :: "'a::len word"
  assumes "\<And>i. LENGTH('a) - n \<le> i \<Longrightarrow> \<not> bit c i"
  shows "((\<lambda>c. msb_step p c False) ^^ n) c = push_bit n c"
  using assms
proof (induction n arbitrary: c)
  case (Suc n)
  have s: "msb_step p c False = push_bit 1 c" using Suc.prems[of "LENGTH('a) - 1"] by (simp add: msb_step_def)
  have "\<not> bit (push_bit 1 c) i" if "LENGTH('a) - n \<le> i" for i
    using Suc.prems[of "i - 1"] that by (simp only: bit_push_bit_iff possible_bit_word) auto
  from Suc.IH[OF this] have "((\<lambda>c. msb_step p c False) ^^ n) (push_bit 1 c) = push_bit n (push_bit 1 c)" .
  also have "\<dots> = push_bit (Suc n) c" by (simp only: push_bit_push_bit) simp
  finally show ?case by (simp only: funpow_Suc_right comp_def s)
qed simp

lemma crc16_tab_nth: "n < 256 \<Longrightarrow> crc16_tab ! n = ((\<lambda>c. msb_step 0x1021 c False) ^^ 8) (push_bit 8 (of_nat n))"
  by (simp only: crc16_tab_lin[symmetric]) simp

lemma crc16_step:
  "crc16_tab ! unat ((drop_bit 8 c XOR ucast (b :: u8)) AND 0xFF) XOR push_bit 8 c =
    foldl (msb_step 0x1021) c (map (\<lambda>i. bit b (7 - i)) [0..<8])"
proof -
  define f where "f = (\<lambda>c :: u16. msb_step 0x1021 c False) ^^ 8"
  define h where "h = (drop_bit 8 c XOR ucast b) AND (0xFF :: u16)"
  have f: "lin f" unfolding f_def by (rule lin_funpow[OF lin_msb])
  have "h \<le> 0xFF" unfolding h_def by (rule word_and_le1)
  then have "unat h < 256" by (simp add: word_le_nat_alt)
  then have tab: "crc16_tab ! unat h = f (push_bit 8 h)"
    using crc16_tab_nth[of "unat h"] unfolding f_def by (simp only: of_nat_unat ucast_id)
  have low: "f (c AND 0xFF) = push_bit 8 c"
  proof -
    have "f (c AND 0xFF) = push_bit 8 (c AND 0xFF)"
      unfolding f_def by (rule msb_shift) (simp add: bit_and_iff bit_255_int)
    also have "\<dots> = push_bit 8 c"
      by (rule bit_word_eqI, simp only: bit_push_bit_iff bit_and_iff) (auto simp: bit_255_int)
    finally show ?thesis .
  qed
  have "c XOR push_bit 8 (ucast b) = push_bit 8 h XOR (c AND 0xFF)"
  proof (rule bit_word_eqI)
    fix n assume "n < LENGTH(16)"
    then show "bit (c XOR push_bit 8 (ucast b)) n = bit (push_bit 8 h XOR (c AND 0xFF)) n"
      by (simp only: h_def bit_push_bit_iff bit_and_iff bit_xor_iff bit_drop_bit_eq bit_unsigned_iff comp_def)
        (cases "8 \<le> n", auto simp: bit_255_int)
  qed
  then have "f (c XOR push_bit 8 (ucast b)) = f (push_bit 8 h) XOR push_bit 8 c" by (simp only: lin_xor[OF f] low)
  moreover have "foldl (msb_step 0x1021) c (map (\<lambda>i. bit b (7 - i)) [0..<8]) = f (c XOR push_bit 8 (ucast b))"
    using msb_byte[of "0x1021" c b] unfolding f_def by simp
  ultimately show ?thesis unfolding h_def[symmetric] tab by (simp only:)
qed

lemma crc16_ccitt_eq: "crc16_ccitt c data = msb_crc 0x1021 c data"
  by (induction data arbitrary: c) (simp_all only: crc16_ccitt.simps msb_crc_Cons msb_crc_Nil crc16_step)


text \<open>CRC-8: the source keeps the register in the upper half of a 16-bit word.\<close>

lemma crc8_sim:
  "push_bit 1 (if (push_bit 8 (ucast c) :: u16) AND 0x8000 \<noteq> 0 then push_bit 8 (ucast c) XOR crc8_POLY else push_bit 8 (ucast c)) =
    (push_bit 8 (ucast (msb_step 0x07 (c :: u8) False)) :: u16)"
proof -
  have top: "(push_bit 8 (ucast c) :: u16) AND 0x8000 \<noteq> 0 \<longleftrightarrow> bit c 7"
  proof -
    have "(0x8000 :: u16) = push_bit 15 1" by simp
    then have "(push_bit 8 (ucast c) :: u16) AND 0x8000 \<noteq> 0 \<longleftrightarrow> bit (push_bit 8 (ucast c) :: u16) 15"
      by (simp only: bit_iff_and_push_bit_not_eq_0)
    then show ?thesis by (simp add: bit_push_bit_iff bit_unsigned_iff)
  qed
  have x: "push_bit 1 (push_bit 8 (ucast c) XOR crc8_POLY) = (push_bit 9 (ucast c) XOR 0x0700 :: u16)"
  proof -
    have "push_bit 1 (crc8_POLY) = (0x0700 :: u16)" by (simp add: crc8_POLY_def)
    moreover have "push_bit 1 (a XOR b) = push_bit 1 a XOR push_bit 1 b" for a b :: u16
      using lin_xor[OF lin_push_bit] by blast
    ultimately show ?thesis by (simp only: push_bit_push_bit) simp
  qed
  have y: "(push_bit 8 (ucast (push_bit 1 c)) :: u16) = push_bit 9 (ucast c)"
    by (rule bit_word_eqI, simp only: bit_push_bit_iff bit_unsigned_iff possible_bit_word) auto
  have z: "(push_bit 8 (ucast (a XOR b :: u8)) :: u16) = push_bit 8 (ucast a) XOR push_bit 8 (ucast b)" for a b
    by (rule bit_word_eqI, simp only: bit_push_bit_iff bit_unsigned_iff bit_xor_iff possible_bit_word) auto
  show ?thesis
  proof (cases "bit c 7")
    case True
    then have h: "(push_bit 8 (ucast c) :: u16) AND 0x8000 \<noteq> 0" using top by blast
    from True have "msb_step 0x07 c False = push_bit 1 c XOR 0x07" by (simp add: msb_step_def)
    moreover have "(push_bit 8 (ucast (0x07 :: u8)) :: u16) = 0x0700" by simp
    ultimately show ?thesis unfolding if_P[OF h] x by (simp only: y z)
  next
    case False
    then have h: "\<not> (push_bit 8 (ucast c) :: u16) AND 0x8000 \<noteq> 0" using top by blast
    from False have "msb_step 0x07 c False = push_bit 1 c" by (simp add: msb_step_def)
    moreover have "push_bit 1 (push_bit 8 (ucast c)) = (push_bit 9 (ucast c) :: u16)" by (simp only: push_bit_push_bit) simp
    ultimately show ?thesis unfolding if_not_P[OF h] by (simp only: y)
  qed
qed


lemma unat_u8: "unat (b :: u8) < 256"
  using unsigned_less[where 'a = nat, of b] by simp

lemma crc8_funpow:
  "((\<lambda>data. push_bit 1 (if data AND 0x8000 \<noteq> 0 then data XOR crc8_POLY else data)) ^^ n) (push_bit 8 (ucast (c :: u8))) =
    push_bit 8 (ucast (((\<lambda>c. msb_step 0x07 c False) ^^ n) c))"
  by (induction n) (simp_all only: funpow.simps comp_def id_apply crc8_sim)

lemma crc8_byte_eq:
  "crc8_byte (ucast (push_bit 8 (crc XOR ucast b :: u32))) =
    foldl (msb_step 0x07) (ucast crc) (map (\<lambda>i. bit (b :: u8) (7 - i)) [0..<8])"
proof -
  have "(ucast (push_bit 8 (crc XOR ucast b)) :: u16) = push_bit 8 (ucast (ucast crc XOR b :: u8))"
    by (rule bit_word_eqI, simp only: bit_push_bit_iff bit_unsigned_iff bit_xor_iff possible_bit_word) auto
  moreover have "(ucast (drop_bit 8 (push_bit 8 (ucast x) :: u16)) :: u8) = x" for x
    by (rule bit_word_eqI, simp only: bit_push_bit_iff bit_unsigned_iff bit_drop_bit_eq comp_def possible_bit_word) auto
  ultimately have "crc8_byte (ucast (push_bit 8 (crc XOR ucast b))) = ((\<lambda>c. msb_step 0x07 c False) ^^ 8) (ucast crc XOR b)"
    unfolding crc8_byte_def Let_def by (simp only: crc8_funpow)
  then show ?thesis using msb_byte[of "0x07" "ucast crc :: u8" b] by simp
qed

lemma ucast_u8_u32: "(ucast (ucast (c :: u8) :: u32) :: u8) = c"
  by (rule bit_word_eqI) (simp add: bit_unsigned_iff)

lemma crc8_eq: "crc < 256 \<Longrightarrow> crc8 crc data = ucast (msb_crc (0x07 :: u8) (ucast crc) data)"
proof (induction data arbitrary: crc)
  case Nil
  then have "unat crc mod 256 = unat crc" by (simp add: word_less_nat_alt)
  then have "unat (ucast (ucast crc :: u8) :: u32) = unat crc"
    by (simp add: unsigned_ucast_eq take_bit_eq_mod unat_mod)
  then show ?case by (simp only: crc8.simps msb_crc_Nil word_unat_eq_iff)
next
  case (Cons b data)
  define c where "c = foldl (msb_step (0x07 :: u8)) (ucast crc) (map (\<lambda>i. bit b (7 - i)) [0..<8])"
  have "unat (ucast c :: u32) < 256" using unat_u8[of c] by (simp add: unsigned_ucast_eq take_bit_eq_mod)
  then have "(ucast c :: u32) < 256" by (simp add: word_less_nat_alt)
  from Cons.IH[OF this] have "crc8 (ucast c) data = ucast (msb_crc (0x07 :: u8) c data)" by (simp add: ucast_u8_u32)
  then show ?case by (simp only: crc8.simps crc8_byte_eq msb_crc_Cons c_def)
qed

text \<open>CRC-7: the table is indexed by the register in the upper seven bits of a byte.\<close>

lemma crc7_table_nth: "n < 256 \<Longrightarrow> crc7_syndrome_table ! n = drop_bit 1 (((\<lambda>c. msb_step 0x12 c False) ^^ 8) (of_nat n))"
  by (simp only: crc7_table_lin[symmetric]) simp

lemma crc7_sim:
  "msb_step (0x12 :: u8) (push_bit 1 (ucast (c :: 7 word))) b = push_bit 1 (ucast (msb_step (0x09 :: 7 word) c b))"
proof (rule bit_word_eqI)
  fix n assume n: "n < LENGTH(8)"
  have p: "bit (0x12 :: u8) n \<longleftrightarrow> 1 \<le> n \<and> bit (0x09 :: 7 word) (n - 1)"
  proof -
    have "(0x12 :: u8) = push_bit 1 (ucast (0x09 :: 7 word))" by simp
    then show ?thesis using n by (simp only: bit_push_bit_iff bit_unsigned_iff possible_bit_word) auto
  qed
  show "bit (msb_step (0x12 :: u8) (push_bit 1 (ucast c)) b) n = bit (push_bit 1 (ucast (msb_step (0x09 :: 7 word) c b)) :: u8) n"
    using n by (simp only: bit_msb_step p bit_push_bit_iff bit_unsigned_iff possible_bit_word) auto
qed

lemma crc7_sim_foldl:
  "foldl (msb_step (0x12 :: u8)) (push_bit 1 (ucast (c :: 7 word))) e = push_bit 1 (ucast (foldl (msb_step (0x09 :: 7 word)) c e))"
  by (induction e arbitrary: c) (simp_all only: foldl.simps crc7_sim)

lemma crc7_byte_eq:
  "crc7_byte (ucast (c :: 7 word)) x = ucast (foldl (msb_step (0x09 :: 7 word)) c (map (\<lambda>i. bit x (7 - i)) [0..<8]))"
proof -
  define w where "w = push_bit 1 (ucast c) XOR x"
  have "(push_bit 1 (ucast (ucast c :: u8)) XOR ucast x :: u32) = ucast w"
    unfolding w_def
    by (rule bit_word_eqI, simp only: bit_push_bit_iff bit_unsigned_iff bit_xor_iff possible_bit_word) (auto dest: bit_imp_le_length)
  moreover have "unat (ucast w :: u32) = unat w" using unat_u8[of w] by (simp add: unsigned_ucast_eq take_bit_eq_mod)
  ultimately have "unat (push_bit 1 (ucast (ucast c :: u8)) XOR ucast x :: u32) = unat w" by (simp only:)
  moreover have "unat w < 256" by (rule unat_u8)
  ultimately have "crc7_byte (ucast c) x = drop_bit 1 (((\<lambda>c. msb_step 0x12 c False) ^^ 8) w)"
    unfolding crc7_byte_def using crc7_table_nth[of "unat w"] by (simp only: of_nat_unat ucast_id)
  also have "\<dots> = drop_bit 1 (foldl (msb_step 0x12) (push_bit 1 (ucast c)) (map (\<lambda>i. bit x (7 - i)) [0..<8]))"
    using msb_byte[of "0x12" "push_bit 1 (ucast c) :: u8" x] by (simp add: w_def)
  also have "\<dots> = ucast (foldl (msb_step (0x09 :: 7 word)) c (map (\<lambda>i. bit x (7 - i)) [0..<8]))"
    unfolding crc7_sim_foldl
    by (rule bit_word_eqI, simp only: bit_push_bit_iff bit_drop_bit_eq bit_unsigned_iff comp_def possible_bit_word)
      (auto dest: bit_imp_le_length)
  finally show ?thesis .
qed

lemma crc7_eq: "crc7 (ucast (c :: 7 word)) data = ucast (msb_crc (0x09 :: 7 word) c data)"
  by (induction data arbitrary: c) (simp_all only: crc7.simps msb_crc_Cons msb_crc_Nil crc7_byte_eq)

section \<open>Reversal\<close>

lemma bitrev8_eq: "bitrev8 b = word_reverse b"
proof -
  have "byte_rev_table ! unat b = word_reverse (of_nat (unat b))"
    unfolding byte_rev_table_lin[symmetric] using unat_u8[of b] by simp
  then show ?thesis by (simp only: bitrev8_def of_nat_unat ucast_id)
qed

lemma bitrev16_eq: "bitrev16 x = word_reverse x"
proof (rule bit_word_eqI)
  fix n assume n: "n < LENGTH(16)"
  show "bit (bitrev16 x) n = bit (word_reverse x) n"
  proof (cases "n < 8")
    case True
    then have "8 + (7 - n) = 15 - n" "7 - n < 8" by simp_all
    with True n show ?thesis unfolding bitrev16_def bitrev8_eq
      by (simp add: bit_or_iff bit_push_bit_iff bit_unsigned_iff bit_word_reverse_iff bit_drop_bit_eq)
  next
    case False
    then have "7 - (n - 8) = 15 - n" using n by simp
    with False n show ?thesis unfolding bitrev16_def bitrev8_eq
      by (auto simp: bit_or_iff bit_push_bit_iff bit_unsigned_iff bit_word_reverse_iff bit_and_iff bit_255_int)
  qed
qed

lemma bit_65535_int: "bit (0xFFFF :: int) n \<longleftrightarrow> n < 16"
proof -
  have "bit (mask 16 :: int) n \<longleftrightarrow> n < 16" by (simp only: bit_mask_iff possible_bit_int simp_thms)
  moreover have "(mask 16 :: int) = 0xFFFF" by (simp add: mask_eq_exp_minus_1)
  ultimately show ?thesis by (simp only:)
qed

lemma bitrev32_eq: "bitrev32 x = word_reverse x"
proof (rule bit_word_eqI)
  fix n assume n: "n < LENGTH(32)"
  show "bit (bitrev32 x) n = bit (word_reverse x) n"
  proof (cases "n < 16")
    case True
    then have "16 + (15 - n) = 31 - n" "15 - n < 16" by simp_all
    with True n show ?thesis unfolding bitrev32_def bitrev16_eq
      by (simp add: bit_or_iff bit_push_bit_iff bit_unsigned_iff bit_word_reverse_iff bit_drop_bit_eq)
  next
    case False
    then have "15 - (n - 16) = 31 - n" using n by simp
    with False n show ?thesis unfolding bitrev32_def bitrev16_eq
      by (auto simp: bit_or_iff bit_push_bit_iff bit_unsigned_iff bit_word_reverse_iff bit_and_iff bit_65535_int)
  qed
qed

section \<open>Detection of bursts\<close>

text \<open>A register that ends at 0 after at most 32 bits started from those bits.\<close>

lemma lsb_zero_bits:
  assumes "bit p 31"
  shows "length e \<le> 32 \<Longrightarrow> foldl (lsb_step p) (d :: u32) e = 0 \<Longrightarrow> d = horner_sum of_bool 2 e"
proof (induction e arbitrary: d)
  case (Cons b e)
  define y where "y = (horner_sum of_bool 2 e :: u32)"
  have y: "lsb_step p d b = y" unfolding y_def using Cons by simp
  have "\<not> bit y 31" using Cons.prems(1) by (simp add: y_def bit_horner_sum_bit_word_iff)
  moreover have "bit (lsb_step p d b) 31 \<longleftrightarrow> (bit d 0 \<noteq> b)"
    using assms by (auto simp: bit_lsb_step dest: bit_imp_le_length)
  ultimately have b: "bit d 0 = b" using y by simp
  then have "drop_bit 1 d = y" using y by (simp add: lsb_step_def)
  then have dn: "bit d (Suc n) \<longleftrightarrow> bit y n" for n by (auto simp: bit_drop_bit_eq)
  show ?case
  proof (rule bit_word_eqI)
    fix n assume "n < LENGTH(32)"
    with b dn show "bit d n = bit (horner_sum of_bool 2 (b # e) :: u32) n"
      by (cases n) (auto simp: y_def bit_horner_sum_bit_word_iff simp del: horner_sum_simps)
  qed
qed simp

lemma lsb_step_xor: "lsb_step p c a XOR lsb_step p d b = lsb_step p (c XOR d) (a \<noteq> b)"
  by (rule bit_word_eqI) (auto simp: bit_lsb_step bit_xor_iff)

lemma lsb_foldl_xor:
  "length e = length f \<Longrightarrow>
    foldl (lsb_step p) c e XOR foldl (lsb_step p) d f = foldl (lsb_step p) (c XOR d) (map2 (\<noteq>) e f)"
  by (induction e f arbitrary: c d rule: list_induct2) (simp_all add: lsb_step_xor)

lemma lsb_step_inj: "bit p 31 \<Longrightarrow> lsb_step p c b = lsb_step p d b \<Longrightarrow> c = (d :: u32)"
proof -
  assume p: "bit p 31" and eq: "lsb_step p c b = lsb_step p d b"
  have "foldl (lsb_step p) (c XOR d) [False] = 0" using eq lsb_step_xor[of p c b d b] by simp
  from lsb_zero_bits[OF p _ this] have "c XOR d = 0" by simp
  then show "c = d" by (metis xor.assoc xor.left_neutral xor.right_neutral xor_self_eq)
qed

lemma lsb_foldl_inj: "bit p 31 \<Longrightarrow> foldl (lsb_step p) c e = foldl (lsb_step p) d e \<Longrightarrow> c = (d :: u32)"
  by (induction e arbitrary: c d) (auto dest: lsb_step_inj)

lemma bursts_detected:
  assumes "bit p 31" and "length e = length f" and "length e \<le> 32" and "e \<noteq> f"
  shows "foldl (lsb_step p) (c :: u32) (u @ e @ v) \<noteq> foldl (lsb_step p) c (u @ f @ v)"
proof
  assume "foldl (lsb_step p) c (u @ e @ v) = foldl (lsb_step p) c (u @ f @ v)"
  then have "foldl (lsb_step p) (foldl (lsb_step p) c u) e = foldl (lsb_step p) (foldl (lsb_step p) c u) f"
    using lsb_foldl_inj[OF assms(1)] by simp
  then have 0: "foldl (lsb_step p) 0 (map2 (\<noteq>) e f) = 0"
    using lsb_foldl_xor[OF assms(2), of p "foldl (lsb_step p) c u" "foldl (lsb_step p) c u"] by simp
  have "length (map2 (\<noteq>) e f) \<le> 32" using assms(2,3) by simp
  from lsb_zero_bits[OF assms(1) this 0] have h: "(0 :: u32) = horner_sum of_bool 2 (map2 (\<noteq>) e f)" .
  have "e ! i = f ! i" if "i < length e" for i
  proof -
    have "\<not> bit (horner_sum of_bool 2 (map2 (\<noteq>) e f) :: u32) i" unfolding h[symmetric] by simp
    then show ?thesis using that assms(2,3) by (simp add: bit_horner_sum_bit_word_iff)
  qed
  with assms(2) have "e = f" by (simp add: list_eq_iff_nth_eq)
  with assms(4) show False ..
qed

section \<open>Properties\<close>

text \<open>
  C25. \<^verbatim>\<open>crc32\<close>, which aligns its pointer, takes in four bytes at a time and looks up a table,
  computes the bit-by-bit CRC-32 (reflected polynomial 0xEDB88320, complemented before and
  after) of the bytes at any address; \<^verbatim>\<open>crc32_wd\<close> gives the same for every chunk size above 0; and
  the table compiled in is the one \<^verbatim>\<open>make_crc_table\<close> computes.
\<close>

theorem crc32_is_bitwise:
  "crc32 m crc p len = NOT (lsb_crc 0xEDB88320 (NOT crc) (block m p len)) \<and>
   (0 < chunk_sz \<longrightarrow> crc32_wd wd m crc p len chunk_sz = Some (crc32 m crc p len)) \<and>
   make_crc_table = crc_table"
  using crc32_eq crc32_wd_eq make_crc_table_eq by blast

theorem crc32_is_bitwise_witness:
  "crc32 (\<lambda>a. of_nat a) 0 0x1003 9 = NOT (lsb_crc 0xEDB88320 (NOT 0) (block (\<lambda>a. of_nat a) 0x1003 9)) \<and>
   crc32_wd True (\<lambda>a. of_nat a) 0 0x1003 9 4 = Some (crc32 (\<lambda>a. of_nat a) 0 0x1003 9) \<and>
   make_crc_table = crc_table"
proof -
  have "0 < (4 :: nat)" by simp
  with crc32_is_bitwise[of "\<lambda>a. of_nat a" 0 "0x1003" 9 4 True] show ?thesis by blast
qed

text \<open>
  C26. Two messages of the same length that differ only within a window of 32 consecutive bits
  have different CRC-32 checksums: every burst error of up to 32 bits is detected.
\<close>

theorem crc32_detects_bursts:
  assumes "bits_lsb (block m p len) = u @ e @ v" and "bits_lsb (block m' p' len) = u @ f @ v"
    and "length e = length f" and "length e \<le> 32" and "e \<noteq> f"
  shows "crc32 m crc p len \<noteq> crc32 m' crc p' len"
proof -
  have "bit (0xEDB88320 :: u32) 31" by simp
  from bursts_detected[OF this assms(3-5)] show ?thesis
    unfolding crc32_eq lsb_crc_def assms(1,2) by simp
qed

theorem crc32_detects_bursts_witness: "crc32 (\<lambda>_. 0) 0 0x1000 1 \<noteq> crc32 (\<lambda>_. 0x81) 0 0x1000 1"
proof -
  have "bits_lsb (block (\<lambda>_. 0) 0x1000 1) = [] @ replicate 8 False @ []"
    "bits_lsb (block (\<lambda>_. 0x81) 0x1000 1) = [] @ [True, False, False, False, False, False, False, True] @ []"
    by (simp_all add: block_def numeral_eq_Suc upt_rec)
  from crc32_detects_bursts[OF this, of 0] show ?thesis by (simp add: numeral_eq_Suc)
qed

text \<open>
  C27. The other checksums are the bit-by-bit registers of their polynomials, for every table and
  message: CRC-32C with any polynomial, CRC-16 (CCITT, 0x1021), CRC-8 (0x07) and CRC-7 (0x09 in a
  register of seven bits); and \<^verbatim>\<open>bitrev32\<close> reverses the order of the bits.
\<close>

theorem checksums_are_bitwise:
  "crc32c_cal crc data (crc32c_init pol) = lsb_crc pol crc data \<and>
   crc16_ccitt crc16 data = msb_crc 0x1021 crc16 data \<and>
   crc8 (ucast crc8_reg) data = ucast (msb_crc (0x07 :: u8) crc8_reg data) \<and>
   crc7 (ucast crc7_reg) data = ucast (msb_crc (0x09 :: 7 word) crc7_reg data) \<and>
   bitrev32 x = word_reverse x"
proof -
  have "unat (ucast crc8_reg :: u32) < 256" using unat_u8[of crc8_reg] by (simp add: unsigned_ucast_eq take_bit_eq_mod)
  then have "(ucast crc8_reg :: u32) < 256" by (simp add: word_less_nat_alt)
  from crc8_eq[OF this, of data] show ?thesis by (simp add: ucast_u8_u32 crc32c_cal_eq crc16_ccitt_eq crc7_eq bitrev32_eq)
qed

end
