(* ===== verification/Aes.thy ===== *)
theory Aes
  imports Ram Linear
begin

unbundle bit_operations_syntax

text \<open>
  The AES-128 block cipher and its CBC mode of \<^verbatim>\<open>common_uboot/lib/aes.c\<close>. The code works on
  tables that combine the substitution box with multiplications in the field of 256 elements;
  the reference is the cipher of FIPS 197, written with the field operations.

  The local arrays of the functions (\<^verbatim>\<open>state\<close>, \<^verbatim>\<open>tmp\<close>, \<^verbatim>\<open>tmp_data\<close>) are byte lists. The chained
  mode works on the memory of the caller, where source and destination may be the same area.
\<close>

section \<open>Tables\<close>

definition AES_STATECOLS :: nat where "AES_STATECOLS = 4"
definition AES_KEYCOLS :: nat where "AES_KEYCOLS = 4"
definition AES_ROUNDS :: nat where "AES_ROUNDS = 10"
definition AES_KEY_LENGTH :: nat where "AES_KEY_LENGTH = 128 div 8"

definition AES_EXPAND_KEY_LENGTH :: nat where
  "AES_EXPAND_KEY_LENGTH = 4 * AES_STATECOLS * (AES_ROUNDS + 1)"

definition sbox :: "u8 list" where
  "sbox = [
     0x63, 0x7c, 0x77, 0x7b, 0xf2, 0x6b, 0x6f, 0xc5, 0x30, 0x01, 0x67, 0x2b, 0xfe, 0xd7, 0xab, 0x76,
     0xca, 0x82, 0xc9, 0x7d, 0xfa, 0x59, 0x47, 0xf0, 0xad, 0xd4, 0xa2, 0xaf, 0x9c, 0xa4, 0x72, 0xc0,
     0xb7, 0xfd, 0x93, 0x26, 0x36, 0x3f, 0xf7, 0xcc, 0x34, 0xa5, 0xe5, 0xf1, 0x71, 0xd8, 0x31, 0x15,
     0x04, 0xc7, 0x23, 0xc3, 0x18, 0x96, 0x05, 0x9a, 0x07, 0x12, 0x80, 0xe2, 0xeb, 0x27, 0xb2, 0x75,
     0x09, 0x83, 0x2c, 0x1a, 0x1b, 0x6e, 0x5a, 0xa0, 0x52, 0x3b, 0xd6, 0xb3, 0x29, 0xe3, 0x2f, 0x84,
     0x53, 0xd1, 0x00, 0xed, 0x20, 0xfc, 0xb1, 0x5b, 0x6a, 0xcb, 0xbe, 0x39, 0x4a, 0x4c, 0x58, 0xcf,
     0xd0, 0xef, 0xaa, 0xfb, 0x43, 0x4d, 0x33, 0x85, 0x45, 0xf9, 0x02, 0x7f, 0x50, 0x3c, 0x9f, 0xa8,
     0x51, 0xa3, 0x40, 0x8f, 0x92, 0x9d, 0x38, 0xf5, 0xbc, 0xb6, 0xda, 0x21, 0x10, 0xff, 0xf3, 0xd2,
     0xcd, 0x0c, 0x13, 0xec, 0x5f, 0x97, 0x44, 0x17, 0xc4, 0xa7, 0x7e, 0x3d, 0x64, 0x5d, 0x19, 0x73,
     0x60, 0x81, 0x4f, 0xdc, 0x22, 0x2a, 0x90, 0x88, 0x46, 0xee, 0xb8, 0x14, 0xde, 0x5e, 0x0b, 0xdb,
     0xe0, 0x32, 0x3a, 0x0a, 0x49, 0x06, 0x24, 0x5c, 0xc2, 0xd3, 0xac, 0x62, 0x91, 0x95, 0xe4, 0x79,
     0xe7, 0xc8, 0x37, 0x6d, 0x8d, 0xd5, 0x4e, 0xa9, 0x6c, 0x56, 0xf4, 0xea, 0x65, 0x7a, 0xae, 0x08,
     0xba, 0x78, 0x25, 0x2e, 0x1c, 0xa6, 0xb4, 0xc6, 0xe8, 0xdd, 0x74, 0x1f, 0x4b, 0xbd, 0x8b, 0x8a,
     0x70, 0x3e, 0xb5, 0x66, 0x48, 0x03, 0xf6, 0x0e, 0x61, 0x35, 0x57, 0xb9, 0x86, 0xc1, 0x1d, 0x9e,
     0xe1, 0xf8, 0x98, 0x11, 0x69, 0xd9, 0x8e, 0x94, 0x9b, 0x1e, 0x87, 0xe9, 0xce, 0x55, 0x28, 0xdf,
     0x8c, 0xa1, 0x89, 0x0d, 0xbf, 0xe6, 0x42, 0x68, 0x41, 0x99, 0x2d, 0x0f, 0xb0, 0x54, 0xbb, 0x16]"

definition inv_sbox :: "u8 list" where
  "inv_sbox = [
     0x52, 0x09, 0x6a, 0xd5, 0x30, 0x36, 0xa5, 0x38, 0xbf, 0x40, 0xa3, 0x9e, 0x81, 0xf3, 0xd7, 0xfb,
     0x7c, 0xe3, 0x39, 0x82, 0x9b, 0x2f, 0xff, 0x87, 0x34, 0x8e, 0x43, 0x44, 0xc4, 0xde, 0xe9, 0xcb,
     0x54, 0x7b, 0x94, 0x32, 0xa6, 0xc2, 0x23, 0x3d, 0xee, 0x4c, 0x95, 0x0b, 0x42, 0xfa, 0xc3, 0x4e,
     0x08, 0x2e, 0xa1, 0x66, 0x28, 0xd9, 0x24, 0xb2, 0x76, 0x5b, 0xa2, 0x49, 0x6d, 0x8b, 0xd1, 0x25,
     0x72, 0xf8, 0xf6, 0x64, 0x86, 0x68, 0x98, 0x16, 0xd4, 0xa4, 0x5c, 0xcc, 0x5d, 0x65, 0xb6, 0x92,
     0x6c, 0x70, 0x48, 0x50, 0xfd, 0xed, 0xb9, 0xda, 0x5e, 0x15, 0x46, 0x57, 0xa7, 0x8d, 0x9d, 0x84,
     0x90, 0xd8, 0xab, 0x00, 0x8c, 0xbc, 0xd3, 0x0a, 0xf7, 0xe4, 0x58, 0x05, 0xb8, 0xb3, 0x45, 0x06,
     0xd0, 0x2c, 0x1e, 0x8f, 0xca, 0x3f, 0x0f, 0x02, 0xc1, 0xaf, 0xbd, 0x03, 0x01, 0x13, 0x8a, 0x6b,
     0x3a, 0x91, 0x11, 0x41, 0x4f, 0x67, 0xdc, 0xea, 0x97, 0xf2, 0xcf, 0xce, 0xf0, 0xb4, 0xe6, 0x73,
     0x96, 0xac, 0x74, 0x22, 0xe7, 0xad, 0x35, 0x85, 0xe2, 0xf9, 0x37, 0xe8, 0x1c, 0x75, 0xdf, 0x6e,
     0x47, 0xf1, 0x1a, 0x71, 0x1d, 0x29, 0xc5, 0x89, 0x6f, 0xb7, 0x62, 0x0e, 0xaa, 0x18, 0xbe, 0x1b,
     0xfc, 0x56, 0x3e, 0x4b, 0xc6, 0xd2, 0x79, 0x20, 0x9a, 0xdb, 0xc0, 0xfe, 0x78, 0xcd, 0x5a, 0xf4,
     0x1f, 0xdd, 0xa8, 0x33, 0x88, 0x07, 0xc7, 0x31, 0xb1, 0x12, 0x10, 0x59, 0x27, 0x80, 0xec, 0x5f,
     0x60, 0x51, 0x7f, 0xa9, 0x19, 0xb5, 0x4a, 0x0d, 0x2d, 0xe5, 0x7a, 0x9f, 0x93, 0xc9, 0x9c, 0xef,
     0xa0, 0xe0, 0x3b, 0x4d, 0xae, 0x2a, 0xf5, 0xb0, 0xc8, 0xeb, 0xbb, 0x3c, 0x83, 0x53, 0x99, 0x61,
     0x17, 0x2b, 0x04, 0x7e, 0xba, 0x77, 0xd6, 0x26, 0xe1, 0x69, 0x14, 0x63, 0x55, 0x21, 0x0c, 0x7d]"

definition x2_sbox :: "u8 list" where
  "x2_sbox = [
     0xc6, 0xf8, 0xee, 0xf6, 0xff, 0xd6, 0xde, 0x91, 0x60, 0x02, 0xce, 0x56, 0xe7, 0xb5, 0x4d, 0xec,
     0x8f, 0x1f, 0x89, 0xfa, 0xef, 0xb2, 0x8e, 0xfb, 0x41, 0xb3, 0x5f, 0x45, 0x23, 0x53, 0xe4, 0x9b,
     0x75, 0xe1, 0x3d, 0x4c, 0x6c, 0x7e, 0xf5, 0x83, 0x68, 0x51, 0xd1, 0xf9, 0xe2, 0xab, 0x62, 0x2a,
     0x08, 0x95, 0x46, 0x9d, 0x30, 0x37, 0x0a, 0x2f, 0x0e, 0x24, 0x1b, 0xdf, 0xcd, 0x4e, 0x7f, 0xea,
     0x12, 0x1d, 0x58, 0x34, 0x36, 0xdc, 0xb4, 0x5b, 0xa4, 0x76, 0xb7, 0x7d, 0x52, 0xdd, 0x5e, 0x13,
     0xa6, 0xb9, 0x00, 0xc1, 0x40, 0xe3, 0x79, 0xb6, 0xd4, 0x8d, 0x67, 0x72, 0x94, 0x98, 0xb0, 0x85,
     0xbb, 0xc5, 0x4f, 0xed, 0x86, 0x9a, 0x66, 0x11, 0x8a, 0xe9, 0x04, 0xfe, 0xa0, 0x78, 0x25, 0x4b,
     0xa2, 0x5d, 0x80, 0x05, 0x3f, 0x21, 0x70, 0xf1, 0x63, 0x77, 0xaf, 0x42, 0x20, 0xe5, 0xfd, 0xbf,
     0x81, 0x18, 0x26, 0xc3, 0xbe, 0x35, 0x88, 0x2e, 0x93, 0x55, 0xfc, 0x7a, 0xc8, 0xba, 0x32, 0xe6,
     0xc0, 0x19, 0x9e, 0xa3, 0x44, 0x54, 0x3b, 0x0b, 0x8c, 0xc7, 0x6b, 0x28, 0xa7, 0xbc, 0x16, 0xad,
     0xdb, 0x64, 0x74, 0x14, 0x92, 0x0c, 0x48, 0xb8, 0x9f, 0xbd, 0x43, 0xc4, 0x39, 0x31, 0xd3, 0xf2,
     0xd5, 0x8b, 0x6e, 0xda, 0x01, 0xb1, 0x9c, 0x49, 0xd8, 0xac, 0xf3, 0xcf, 0xca, 0xf4, 0x47, 0x10,
     0x6f, 0xf0, 0x4a, 0x5c, 0x38, 0x57, 0x73, 0x97, 0xcb, 0xa1, 0xe8, 0x3e, 0x96, 0x61, 0x0d, 0x0f,
     0xe0, 0x7c, 0x71, 0xcc, 0x90, 0x06, 0xf7, 0x1c, 0xc2, 0x6a, 0xae, 0x69, 0x17, 0x99, 0x3a, 0x27,
     0xd9, 0xeb, 0x2b, 0x22, 0xd2, 0xa9, 0x07, 0x33, 0x2d, 0x3c, 0x15, 0xc9, 0x87, 0xaa, 0x50, 0xa5,
     0x03, 0x59, 0x09, 0x1a, 0x65, 0xd7, 0x84, 0xd0, 0x82, 0x29, 0x5a, 0x1e, 0x7b, 0xa8, 0x6d, 0x2c]"

definition x3_sbox :: "u8 list" where
  "x3_sbox = [
     0xa5, 0x84, 0x99, 0x8d, 0x0d, 0xbd, 0xb1, 0x54, 0x50, 0x03, 0xa9, 0x7d, 0x19, 0x62, 0xe6, 0x9a,
     0x45, 0x9d, 0x40, 0x87, 0x15, 0xeb, 0xc9, 0x0b, 0xec, 0x67, 0xfd, 0xea, 0xbf, 0xf7, 0x96, 0x5b,
     0xc2, 0x1c, 0xae, 0x6a, 0x5a, 0x41, 0x02, 0x4f, 0x5c, 0xf4, 0x34, 0x08, 0x93, 0x73, 0x53, 0x3f,
     0x0c, 0x52, 0x65, 0x5e, 0x28, 0xa1, 0x0f, 0xb5, 0x09, 0x36, 0x9b, 0x3d, 0x26, 0x69, 0xcd, 0x9f,
     0x1b, 0x9e, 0x74, 0x2e, 0x2d, 0xb2, 0xee, 0xfb, 0xf6, 0x4d, 0x61, 0xce, 0x7b, 0x3e, 0x71, 0x97,
     0xf5, 0x68, 0x00, 0x2c, 0x60, 0x1f, 0xc8, 0xed, 0xbe, 0x46, 0xd9, 0x4b, 0xde, 0xd4, 0xe8, 0x4a,
     0x6b, 0x2a, 0xe5, 0x16, 0xc5, 0xd7, 0x55, 0x94, 0xcf, 0x10, 0x06, 0x81, 0xf0, 0x44, 0xba, 0xe3,
     0xf3, 0xfe, 0xc0, 0x8a, 0xad, 0xbc, 0x48, 0x04, 0xdf, 0xc1, 0x75, 0x63, 0x30, 0x1a, 0x0e, 0x6d,
     0x4c, 0x14, 0x35, 0x2f, 0xe1, 0xa2, 0xcc, 0x39, 0x57, 0xf2, 0x82, 0x47, 0xac, 0xe7, 0x2b, 0x95,
     0xa0, 0x98, 0xd1, 0x7f, 0x66, 0x7e, 0xab, 0x83, 0xca, 0x29, 0xd3, 0x3c, 0x79, 0xe2, 0x1d, 0x76,
     0x3b, 0x56, 0x4e, 0x1e, 0xdb, 0x0a, 0x6c, 0xe4, 0x5d, 0x6e, 0xef, 0xa6, 0xa8, 0xa4, 0x37, 0x8b,
     0x32, 0x43, 0x59, 0xb7, 0x8c, 0x64, 0xd2, 0xe0, 0xb4, 0xfa, 0x07, 0x25, 0xaf, 0x8e, 0xe9, 0x18,
     0xd5, 0x88, 0x6f, 0x72, 0x24, 0xf1, 0xc7, 0x51, 0x23, 0x7c, 0x9c, 0x21, 0xdd, 0xdc, 0x86, 0x85,
     0x90, 0x42, 0xc4, 0xaa, 0xd8, 0x05, 0x01, 0x12, 0xa3, 0x5f, 0xf9, 0xd0, 0x91, 0x58, 0x27, 0xb9,
     0x38, 0x13, 0xb3, 0x33, 0xbb, 0x70, 0x89, 0xa7, 0xb6, 0x22, 0x92, 0x20, 0x49, 0xff, 0x78, 0x7a,
     0x8f, 0xf8, 0x80, 0x17, 0xda, 0x31, 0xc6, 0xb8, 0xc3, 0xb0, 0x77, 0x11, 0xcb, 0xfc, 0xd6, 0x3a]"

definition x_time_9 :: "u8 list" where
  "x_time_9 = [
     0x00, 0x09, 0x12, 0x1b, 0x24, 0x2d, 0x36, 0x3f, 0x48, 0x41, 0x5a, 0x53, 0x6c, 0x65, 0x7e, 0x77,
     0x90, 0x99, 0x82, 0x8b, 0xb4, 0xbd, 0xa6, 0xaf, 0xd8, 0xd1, 0xca, 0xc3, 0xfc, 0xf5, 0xee, 0xe7,
     0x3b, 0x32, 0x29, 0x20, 0x1f, 0x16, 0x0d, 0x04, 0x73, 0x7a, 0x61, 0x68, 0x57, 0x5e, 0x45, 0x4c,
     0xab, 0xa2, 0xb9, 0xb0, 0x8f, 0x86, 0x9d, 0x94, 0xe3, 0xea, 0xf1, 0xf8, 0xc7, 0xce, 0xd5, 0xdc,
     0x76, 0x7f, 0x64, 0x6d, 0x52, 0x5b, 0x40, 0x49, 0x3e, 0x37, 0x2c, 0x25, 0x1a, 0x13, 0x08, 0x01,
     0xe6, 0xef, 0xf4, 0xfd, 0xc2, 0xcb, 0xd0, 0xd9, 0xae, 0xa7, 0xbc, 0xb5, 0x8a, 0x83, 0x98, 0x91,
     0x4d, 0x44, 0x5f, 0x56, 0x69, 0x60, 0x7b, 0x72, 0x05, 0x0c, 0x17, 0x1e, 0x21, 0x28, 0x33, 0x3a,
     0xdd, 0xd4, 0xcf, 0xc6, 0xf9, 0xf0, 0xeb, 0xe2, 0x95, 0x9c, 0x87, 0x8e, 0xb1, 0xb8, 0xa3, 0xaa,
     0xec, 0xe5, 0xfe, 0xf7, 0xc8, 0xc1, 0xda, 0xd3, 0xa4, 0xad, 0xb6, 0xbf, 0x80, 0x89, 0x92, 0x9b,
     0x7c, 0x75, 0x6e, 0x67, 0x58, 0x51, 0x4a, 0x43, 0x34, 0x3d, 0x26, 0x2f, 0x10, 0x19, 0x02, 0x0b,
     0xd7, 0xde, 0xc5, 0xcc, 0xf3, 0xfa, 0xe1, 0xe8, 0x9f, 0x96, 0x8d, 0x84, 0xbb, 0xb2, 0xa9, 0xa0,
     0x47, 0x4e, 0x55, 0x5c, 0x63, 0x6a, 0x71, 0x78, 0x0f, 0x06, 0x1d, 0x14, 0x2b, 0x22, 0x39, 0x30,
     0x9a, 0x93, 0x88, 0x81, 0xbe, 0xb7, 0xac, 0xa5, 0xd2, 0xdb, 0xc0, 0xc9, 0xf6, 0xff, 0xe4, 0xed,
     0x0a, 0x03, 0x18, 0x11, 0x2e, 0x27, 0x3c, 0x35, 0x42, 0x4b, 0x50, 0x59, 0x66, 0x6f, 0x74, 0x7d,
     0xa1, 0xa8, 0xb3, 0xba, 0x85, 0x8c, 0x97, 0x9e, 0xe9, 0xe0, 0xfb, 0xf2, 0xcd, 0xc4, 0xdf, 0xd6,
     0x31, 0x38, 0x23, 0x2a, 0x15, 0x1c, 0x07, 0x0e, 0x79, 0x70, 0x6b, 0x62, 0x5d, 0x54, 0x4f, 0x46]"

definition x_time_b :: "u8 list" where
  "x_time_b = [
     0x00, 0x0b, 0x16, 0x1d, 0x2c, 0x27, 0x3a, 0x31, 0x58, 0x53, 0x4e, 0x45, 0x74, 0x7f, 0x62, 0x69,
     0xb0, 0xbb, 0xa6, 0xad, 0x9c, 0x97, 0x8a, 0x81, 0xe8, 0xe3, 0xfe, 0xf5, 0xc4, 0xcf, 0xd2, 0xd9,
     0x7b, 0x70, 0x6d, 0x66, 0x57, 0x5c, 0x41, 0x4a, 0x23, 0x28, 0x35, 0x3e, 0x0f, 0x04, 0x19, 0x12,
     0xcb, 0xc0, 0xdd, 0xd6, 0xe7, 0xec, 0xf1, 0xfa, 0x93, 0x98, 0x85, 0x8e, 0xbf, 0xb4, 0xa9, 0xa2,
     0xf6, 0xfd, 0xe0, 0xeb, 0xda, 0xd1, 0xcc, 0xc7, 0xae, 0xa5, 0xb8, 0xb3, 0x82, 0x89, 0x94, 0x9f,
     0x46, 0x4d, 0x50, 0x5b, 0x6a, 0x61, 0x7c, 0x77, 0x1e, 0x15, 0x08, 0x03, 0x32, 0x39, 0x24, 0x2f,
     0x8d, 0x86, 0x9b, 0x90, 0xa1, 0xaa, 0xb7, 0xbc, 0xd5, 0xde, 0xc3, 0xc8, 0xf9, 0xf2, 0xef, 0xe4,
     0x3d, 0x36, 0x2b, 0x20, 0x11, 0x1a, 0x07, 0x0c, 0x65, 0x6e, 0x73, 0x78, 0x49, 0x42, 0x5f, 0x54,
     0xf7, 0xfc, 0xe1, 0xea, 0xdb, 0xd0, 0xcd, 0xc6, 0xaf, 0xa4, 0xb9, 0xb2, 0x83, 0x88, 0x95, 0x9e,
     0x47, 0x4c, 0x51, 0x5a, 0x6b, 0x60, 0x7d, 0x76, 0x1f, 0x14, 0x09, 0x02, 0x33, 0x38, 0x25, 0x2e,
     0x8c, 0x87, 0x9a, 0x91, 0xa0, 0xab, 0xb6, 0xbd, 0xd4, 0xdf, 0xc2, 0xc9, 0xf8, 0xf3, 0xee, 0xe5,
     0x3c, 0x37, 0x2a, 0x21, 0x10, 0x1b, 0x06, 0x0d, 0x64, 0x6f, 0x72, 0x79, 0x48, 0x43, 0x5e, 0x55,
     0x01, 0x0a, 0x17, 0x1c, 0x2d, 0x26, 0x3b, 0x30, 0x59, 0x52, 0x4f, 0x44, 0x75, 0x7e, 0x63, 0x68,
     0xb1, 0xba, 0xa7, 0xac, 0x9d, 0x96, 0x8b, 0x80, 0xe9, 0xe2, 0xff, 0xf4, 0xc5, 0xce, 0xd3, 0xd8,
     0x7a, 0x71, 0x6c, 0x67, 0x56, 0x5d, 0x40, 0x4b, 0x22, 0x29, 0x34, 0x3f, 0x0e, 0x05, 0x18, 0x13,
     0xca, 0xc1, 0xdc, 0xd7, 0xe6, 0xed, 0xf0, 0xfb, 0x92, 0x99, 0x84, 0x8f, 0xbe, 0xb5, 0xa8, 0xa3]"

definition x_time_d :: "u8 list" where
  "x_time_d = [
     0x00, 0x0d, 0x1a, 0x17, 0x34, 0x39, 0x2e, 0x23, 0x68, 0x65, 0x72, 0x7f, 0x5c, 0x51, 0x46, 0x4b,
     0xd0, 0xdd, 0xca, 0xc7, 0xe4, 0xe9, 0xfe, 0xf3, 0xb8, 0xb5, 0xa2, 0xaf, 0x8c, 0x81, 0x96, 0x9b,
     0xbb, 0xb6, 0xa1, 0xac, 0x8f, 0x82, 0x95, 0x98, 0xd3, 0xde, 0xc9, 0xc4, 0xe7, 0xea, 0xfd, 0xf0,
     0x6b, 0x66, 0x71, 0x7c, 0x5f, 0x52, 0x45, 0x48, 0x03, 0x0e, 0x19, 0x14, 0x37, 0x3a, 0x2d, 0x20,
     0x6d, 0x60, 0x77, 0x7a, 0x59, 0x54, 0x43, 0x4e, 0x05, 0x08, 0x1f, 0x12, 0x31, 0x3c, 0x2b, 0x26,
     0xbd, 0xb0, 0xa7, 0xaa, 0x89, 0x84, 0x93, 0x9e, 0xd5, 0xd8, 0xcf, 0xc2, 0xe1, 0xec, 0xfb, 0xf6,
     0xd6, 0xdb, 0xcc, 0xc1, 0xe2, 0xef, 0xf8, 0xf5, 0xbe, 0xb3, 0xa4, 0xa9, 0x8a, 0x87, 0x90, 0x9d,
     0x06, 0x0b, 0x1c, 0x11, 0x32, 0x3f, 0x28, 0x25, 0x6e, 0x63, 0x74, 0x79, 0x5a, 0x57, 0x40, 0x4d,
     0xda, 0xd7, 0xc0, 0xcd, 0xee, 0xe3, 0xf4, 0xf9, 0xb2, 0xbf, 0xa8, 0xa5, 0x86, 0x8b, 0x9c, 0x91,
     0x0a, 0x07, 0x10, 0x1d, 0x3e, 0x33, 0x24, 0x29, 0x62, 0x6f, 0x78, 0x75, 0x56, 0x5b, 0x4c, 0x41,
     0x61, 0x6c, 0x7b, 0x76, 0x55, 0x58, 0x4f, 0x42, 0x09, 0x04, 0x13, 0x1e, 0x3d, 0x30, 0x27, 0x2a,
     0xb1, 0xbc, 0xab, 0xa6, 0x85, 0x88, 0x9f, 0x92, 0xd9, 0xd4, 0xc3, 0xce, 0xed, 0xe0, 0xf7, 0xfa,
     0xb7, 0xba, 0xad, 0xa0, 0x83, 0x8e, 0x99, 0x94, 0xdf, 0xd2, 0xc5, 0xc8, 0xeb, 0xe6, 0xf1, 0xfc,
     0x67, 0x6a, 0x7d, 0x70, 0x53, 0x5e, 0x49, 0x44, 0x0f, 0x02, 0x15, 0x18, 0x3b, 0x36, 0x21, 0x2c,
     0x0c, 0x01, 0x16, 0x1b, 0x38, 0x35, 0x22, 0x2f, 0x64, 0x69, 0x7e, 0x73, 0x50, 0x5d, 0x4a, 0x47,
     0xdc, 0xd1, 0xc6, 0xcb, 0xe8, 0xe5, 0xf2, 0xff, 0xb4, 0xb9, 0xae, 0xa3, 0x80, 0x8d, 0x9a, 0x97]"

definition x_time_e :: "u8 list" where
  "x_time_e = [
     0x00, 0x0e, 0x1c, 0x12, 0x38, 0x36, 0x24, 0x2a, 0x70, 0x7e, 0x6c, 0x62, 0x48, 0x46, 0x54, 0x5a,
     0xe0, 0xee, 0xfc, 0xf2, 0xd8, 0xd6, 0xc4, 0xca, 0x90, 0x9e, 0x8c, 0x82, 0xa8, 0xa6, 0xb4, 0xba,
     0xdb, 0xd5, 0xc7, 0xc9, 0xe3, 0xed, 0xff, 0xf1, 0xab, 0xa5, 0xb7, 0xb9, 0x93, 0x9d, 0x8f, 0x81,
     0x3b, 0x35, 0x27, 0x29, 0x03, 0x0d, 0x1f, 0x11, 0x4b, 0x45, 0x57, 0x59, 0x73, 0x7d, 0x6f, 0x61,
     0xad, 0xa3, 0xb1, 0xbf, 0x95, 0x9b, 0x89, 0x87, 0xdd, 0xd3, 0xc1, 0xcf, 0xe5, 0xeb, 0xf9, 0xf7,
     0x4d, 0x43, 0x51, 0x5f, 0x75, 0x7b, 0x69, 0x67, 0x3d, 0x33, 0x21, 0x2f, 0x05, 0x0b, 0x19, 0x17,
     0x76, 0x78, 0x6a, 0x64, 0x4e, 0x40, 0x52, 0x5c, 0x06, 0x08, 0x1a, 0x14, 0x3e, 0x30, 0x22, 0x2c,
     0x96, 0x98, 0x8a, 0x84, 0xae, 0xa0, 0xb2, 0xbc, 0xe6, 0xe8, 0xfa, 0xf4, 0xde, 0xd0, 0xc2, 0xcc,
     0x41, 0x4f, 0x5d, 0x53, 0x79, 0x77, 0x65, 0x6b, 0x31, 0x3f, 0x2d, 0x23, 0x09, 0x07, 0x15, 0x1b,
     0xa1, 0xaf, 0xbd, 0xb3, 0x99, 0x97, 0x85, 0x8b, 0xd1, 0xdf, 0xcd, 0xc3, 0xe9, 0xe7, 0xf5, 0xfb,
     0x9a, 0x94, 0x86, 0x88, 0xa2, 0xac, 0xbe, 0xb0, 0xea, 0xe4, 0xf6, 0xf8, 0xd2, 0xdc, 0xce, 0xc0,
     0x7a, 0x74, 0x66, 0x68, 0x42, 0x4c, 0x5e, 0x50, 0x0a, 0x04, 0x16, 0x18, 0x32, 0x3c, 0x2e, 0x20,
     0xec, 0xe2, 0xf0, 0xfe, 0xd4, 0xda, 0xc8, 0xc6, 0x9c, 0x92, 0x80, 0x8e, 0xa4, 0xaa, 0xb8, 0xb6,
     0x0c, 0x02, 0x10, 0x1e, 0x34, 0x3a, 0x28, 0x26, 0x7c, 0x72, 0x60, 0x6e, 0x44, 0x4a, 0x58, 0x56,
     0x37, 0x39, 0x2b, 0x25, 0x0f, 0x01, 0x13, 0x1d, 0x47, 0x49, 0x5b, 0x55, 0x7f, 0x71, 0x63, 0x6d,
     0xd7, 0xd9, 0xcb, 0xc5, 0xef, 0xe1, 0xf3, 0xfd, 0xa7, 0xa9, 0xbb, 0xb5, 0x9f, 0x91, 0x83, 0x8d]"

definition rcon :: "u8 list" where
  "rcon = [
     0x00, 0x01, 0x02, 0x04, 0x08, 0x10, 0x20, 0x40, 0x80, 0x1b, 0x36]"

section \<open>The block cipher\<close>

definition shift_rows :: "u8 list \<Rightarrow> u8 list" where
  "shift_rows state = (
     let state = state[0 := sbox ! unat (state ! 0)] in
     let state = state[4 := sbox ! unat (state ! 4)] in
     let state = state[8 := sbox ! unat (state ! 8)] in
     let state = state[12 := sbox ! unat (state ! 12)] in
     let tmp = sbox ! unat (state ! 1) in
     let state = state[1 := sbox ! unat (state ! 5)] in
     let state = state[5 := sbox ! unat (state ! 9)] in
     let state = state[9 := sbox ! unat (state ! 13)] in
     let state = state[13 := tmp] in
     let tmp = sbox ! unat (state ! 2) in
     let state = state[2 := sbox ! unat (state ! 10)] in
     let state = state[10 := tmp] in
     let tmp = sbox ! unat (state ! 6) in
     let state = state[6 := sbox ! unat (state ! 14)] in
     let state = state[14 := tmp] in
     let tmp = sbox ! unat (state ! 15) in
     let state = state[15 := sbox ! unat (state ! 11)] in
     let state = state[11 := sbox ! unat (state ! 7)] in
     let state = state[7 := sbox ! unat (state ! 3)] in
     let state = state[3 := tmp] in
     state)"

definition inv_shift_rows :: "u8 list \<Rightarrow> u8 list" where
  "inv_shift_rows state = (
     let state = state[0 := inv_sbox ! unat (state ! 0)] in
     let state = state[4 := inv_sbox ! unat (state ! 4)] in
     let state = state[8 := inv_sbox ! unat (state ! 8)] in
     let state = state[12 := inv_sbox ! unat (state ! 12)] in
     let tmp = inv_sbox ! unat (state ! 13) in
     let state = state[13 := inv_sbox ! unat (state ! 9)] in
     let state = state[9 := inv_sbox ! unat (state ! 5)] in
     let state = state[5 := inv_sbox ! unat (state ! 1)] in
     let state = state[1 := tmp] in
     let tmp = inv_sbox ! unat (state ! 2) in
     let state = state[2 := inv_sbox ! unat (state ! 10)] in
     let state = state[10 := tmp] in
     let tmp = inv_sbox ! unat (state ! 6) in
     let state = state[6 := inv_sbox ! unat (state ! 14)] in
     let state = state[14 := tmp] in
     let tmp = inv_sbox ! unat (state ! 3) in
     let state = state[3 := inv_sbox ! unat (state ! 7)] in
     let state = state[7 := inv_sbox ! unat (state ! 11)] in
     let state = state[11 := inv_sbox ! unat (state ! 15)] in
     let state = state[15 := tmp] in
     state)"

definition mix_sub_columns :: "u8 list \<Rightarrow> u8 list" where
  "mix_sub_columns state = (
     let tmp = replicate (4 * AES_STATECOLS) 0 in
     let tmp = tmp[0 := x2_sbox ! unat (state ! 0) XOR x3_sbox ! unat (state ! 5) XOR
       sbox ! unat (state ! 10) XOR sbox ! unat (state ! 15)] in
     let tmp = tmp[1 := sbox ! unat (state ! 0) XOR x2_sbox ! unat (state ! 5) XOR
       x3_sbox ! unat (state ! 10) XOR sbox ! unat (state ! 15)] in
     let tmp = tmp[2 := sbox ! unat (state ! 0) XOR sbox ! unat (state ! 5) XOR
       x2_sbox ! unat (state ! 10) XOR x3_sbox ! unat (state ! 15)] in
     let tmp = tmp[3 := x3_sbox ! unat (state ! 0) XOR sbox ! unat (state ! 5) XOR
       sbox ! unat (state ! 10) XOR x2_sbox ! unat (state ! 15)] in
     let tmp = tmp[4 := x2_sbox ! unat (state ! 4) XOR x3_sbox ! unat (state ! 9) XOR
       sbox ! unat (state ! 14) XOR sbox ! unat (state ! 3)] in
     let tmp = tmp[5 := sbox ! unat (state ! 4) XOR x2_sbox ! unat (state ! 9) XOR
       x3_sbox ! unat (state ! 14) XOR sbox ! unat (state ! 3)] in
     let tmp = tmp[6 := sbox ! unat (state ! 4) XOR sbox ! unat (state ! 9) XOR
       x2_sbox ! unat (state ! 14) XOR x3_sbox ! unat (state ! 3)] in
     let tmp = tmp[7 := x3_sbox ! unat (state ! 4) XOR sbox ! unat (state ! 9) XOR
       sbox ! unat (state ! 14) XOR x2_sbox ! unat (state ! 3)] in
     let tmp = tmp[8 := x2_sbox ! unat (state ! 8) XOR x3_sbox ! unat (state ! 13) XOR
       sbox ! unat (state ! 2) XOR sbox ! unat (state ! 7)] in
     let tmp = tmp[9 := sbox ! unat (state ! 8) XOR x2_sbox ! unat (state ! 13) XOR
       x3_sbox ! unat (state ! 2) XOR sbox ! unat (state ! 7)] in
     let tmp = tmp[10 := sbox ! unat (state ! 8) XOR sbox ! unat (state ! 13) XOR
       x2_sbox ! unat (state ! 2) XOR x3_sbox ! unat (state ! 7)] in
     let tmp = tmp[11 := x3_sbox ! unat (state ! 8) XOR sbox ! unat (state ! 13) XOR
       sbox ! unat (state ! 2) XOR x2_sbox ! unat (state ! 7)] in
     let tmp = tmp[12 := x2_sbox ! unat (state ! 12) XOR x3_sbox ! unat (state ! 1) XOR
       sbox ! unat (state ! 6) XOR sbox ! unat (state ! 11)] in
     let tmp = tmp[13 := sbox ! unat (state ! 12) XOR x2_sbox ! unat (state ! 1) XOR
       x3_sbox ! unat (state ! 6) XOR sbox ! unat (state ! 11)] in
     let tmp = tmp[14 := sbox ! unat (state ! 12) XOR sbox ! unat (state ! 1) XOR
       x2_sbox ! unat (state ! 6) XOR x3_sbox ! unat (state ! 11)] in
     let tmp = tmp[15 := x3_sbox ! unat (state ! 12) XOR sbox ! unat (state ! 1) XOR
       sbox ! unat (state ! 6) XOR x2_sbox ! unat (state ! 11)] in
     tmp)"

definition inv_mix_sub_columns :: "u8 list \<Rightarrow> u8 list" where
  "inv_mix_sub_columns state = (
     let tmp = replicate (4 * AES_STATECOLS) 0 in
     let tmp = tmp[0 := x_time_e ! unat (state ! 0) XOR x_time_b ! unat (state ! 1) XOR
       x_time_d ! unat (state ! 2) XOR x_time_9 ! unat (state ! 3)] in
     let tmp = tmp[5 := x_time_9 ! unat (state ! 0) XOR x_time_e ! unat (state ! 1) XOR
       x_time_b ! unat (state ! 2) XOR x_time_d ! unat (state ! 3)] in
     let tmp = tmp[10 := x_time_d ! unat (state ! 0) XOR x_time_9 ! unat (state ! 1) XOR
       x_time_e ! unat (state ! 2) XOR x_time_b ! unat (state ! 3)] in
     let tmp = tmp[15 := x_time_b ! unat (state ! 0) XOR x_time_d ! unat (state ! 1) XOR
       x_time_9 ! unat (state ! 2) XOR x_time_e ! unat (state ! 3)] in
     let tmp = tmp[4 := x_time_e ! unat (state ! 4) XOR x_time_b ! unat (state ! 5) XOR
       x_time_d ! unat (state ! 6) XOR x_time_9 ! unat (state ! 7)] in
     let tmp = tmp[9 := x_time_9 ! unat (state ! 4) XOR x_time_e ! unat (state ! 5) XOR
       x_time_b ! unat (state ! 6) XOR x_time_d ! unat (state ! 7)] in
     let tmp = tmp[14 := x_time_d ! unat (state ! 4) XOR x_time_9 ! unat (state ! 5) XOR
       x_time_e ! unat (state ! 6) XOR x_time_b ! unat (state ! 7)] in
     let tmp = tmp[3 := x_time_b ! unat (state ! 4) XOR x_time_d ! unat (state ! 5) XOR
       x_time_9 ! unat (state ! 6) XOR x_time_e ! unat (state ! 7)] in
     let tmp = tmp[8 := x_time_e ! unat (state ! 8) XOR x_time_b ! unat (state ! 9) XOR
       x_time_d ! unat (state ! 10) XOR x_time_9 ! unat (state ! 11)] in
     let tmp = tmp[13 := x_time_9 ! unat (state ! 8) XOR x_time_e ! unat (state ! 9) XOR
       x_time_b ! unat (state ! 10) XOR x_time_d ! unat (state ! 11)] in
     let tmp = tmp[2 := x_time_d ! unat (state ! 8) XOR x_time_9 ! unat (state ! 9) XOR
       x_time_e ! unat (state ! 10) XOR x_time_b ! unat (state ! 11)] in
     let tmp = tmp[7 := x_time_b ! unat (state ! 8) XOR x_time_d ! unat (state ! 9) XOR
       x_time_9 ! unat (state ! 10) XOR x_time_e ! unat (state ! 11)] in
     let tmp = tmp[12 := x_time_e ! unat (state ! 12) XOR x_time_b ! unat (state ! 13) XOR
       x_time_d ! unat (state ! 14) XOR x_time_9 ! unat (state ! 15)] in
     let tmp = tmp[1 := x_time_9 ! unat (state ! 12) XOR x_time_e ! unat (state ! 13) XOR
       x_time_b ! unat (state ! 14) XOR x_time_d ! unat (state ! 15)] in
     let tmp = tmp[6 := x_time_d ! unat (state ! 12) XOR x_time_9 ! unat (state ! 13) XOR
       x_time_e ! unat (state ! 14) XOR x_time_b ! unat (state ! 15)] in
     let tmp = tmp[11 := x_time_b ! unat (state ! 12) XOR x_time_d ! unat (state ! 13) XOR
       x_time_9 ! unat (state ! 14) XOR x_time_e ! unat (state ! 15)] in
     fold (\<lambda>i state. state[i := inv_sbox ! unat (tmp ! i)]) [0..<4 * AES_STATECOLS] state)"

text \<open>
  The words of a byte array, for the accesses through \<^verbatim>\<open>u32 *\<close>. The byte order does not
  matter, since the words are only combined by exclusive or.
\<close>

definition get_word :: "u8 list \<Rightarrow> nat \<Rightarrow> u32" where
  "get_word bs i = load32 (\<lambda>a. bs ! a) (4 * i)"

definition put_word :: "u8 list \<Rightarrow> nat \<Rightarrow> u32 \<Rightarrow> u8 list" where
  "put_word bs i w = bs[4 * i := byte32 w 0, 4 * i + 1 := byte32 w 1,
     4 * i + 2 := byte32 w 2, 4 * i + 3 := byte32 w 3]"

definition add_round_key :: "u8 list \<Rightarrow> u8 list \<Rightarrow> u8 list" where
  "add_round_key state key =
     fold (\<lambda>idx state. put_word state idx (get_word state idx XOR get_word key idx)) [0..<4] state"

text \<open>One round of the loop of \<^verbatim>\<open>aes_expand_key\<close>, at word \<open>idx\<close>.\<close>

definition expand_key_step :: "nat \<Rightarrow> u8 list \<Rightarrow> u8 list" where
  "expand_key_step idx expkey = (
     let tmp0 = expkey ! (4 * idx - 4);
         tmp1 = expkey ! (4 * idx - 3);
         tmp2 = expkey ! (4 * idx - 2);
         tmp3 = expkey ! (4 * idx - 1);
         (tmp0, tmp1, tmp2, tmp3) =
           (if idx mod AES_KEYCOLS = 0 then
              (let tmp4 = tmp3;
                   tmp3 = sbox ! unat tmp0;
                   tmp0 = sbox ! unat tmp1 XOR rcon ! (idx div AES_KEYCOLS);
                   tmp1 = sbox ! unat tmp2;
                   tmp2 = sbox ! unat tmp4
               in (tmp0, tmp1, tmp2, tmp3))
            else if AES_KEYCOLS > 6 \<and> idx mod AES_KEYCOLS = 4 then
              (sbox ! unat tmp0, sbox ! unat tmp1, sbox ! unat tmp2, sbox ! unat tmp3)
            else (tmp0, tmp1, tmp2, tmp3));
         expkey = expkey[4 * idx + 0 := expkey ! (4 * idx - 4 * AES_KEYCOLS + 0) XOR tmp0];
         expkey = expkey[4 * idx + 1 := expkey ! (4 * idx - 4 * AES_KEYCOLS + 1) XOR tmp1];
         expkey = expkey[4 * idx + 2 := expkey ! (4 * idx - 4 * AES_KEYCOLS + 2) XOR tmp2];
         expkey = expkey[4 * idx + 3 := expkey ! (4 * idx - 4 * AES_KEYCOLS + 3) XOR tmp3]
     in expkey)"

text \<open>\<open>expkey\<close> is the buffer as the caller passes it.\<close>

definition aes_expand_key :: "u8 list \<Rightarrow> u8 list \<Rightarrow> u8 list" where
  "aes_expand_key key expkey = (
     let expkey = take (AES_KEYCOLS * 4) key @ drop (AES_KEYCOLS * 4) expkey
     in fold expand_key_step [AES_KEYCOLS..<AES_STATECOLS * (AES_ROUNDS + 1)] expkey)"

definition encrypt_round :: "u8 list \<Rightarrow> nat \<Rightarrow> u8 list \<Rightarrow> u8 list" where
  "encrypt_round expkey rnd state = (
     let state = (if rnd < AES_ROUNDS then mix_sub_columns state else shift_rows state)
     in add_round_key state (drop (4 * (rnd * AES_STATECOLS)) expkey))"

definition aes_encrypt :: "u8 list \<Rightarrow> u8 list \<Rightarrow> u8 list" where
  "aes_encrypt inp expkey = (
     let state = take (AES_STATECOLS * 4) inp;
         state = add_round_key state expkey
     in fold (encrypt_round expkey) [1..<AES_ROUNDS + 1] state)"

definition decrypt_round :: "u8 list \<Rightarrow> nat \<Rightarrow> u8 list \<Rightarrow> u8 list" where
  "decrypt_round expkey rnd state = (
     let state = add_round_key state (drop (4 * (rnd * AES_STATECOLS)) expkey)
     in if rnd \<noteq> 0 then inv_mix_sub_columns state else state)"

definition aes_decrypt :: "u8 list \<Rightarrow> u8 list \<Rightarrow> u8 list" where
  "aes_decrypt inp expkey = (
     let state = take (AES_STATECOLS * 4) inp;
         state = add_round_key state (drop (4 * (AES_ROUNDS * AES_STATECOLS)) expkey);
         state = inv_shift_rows state
     in fold (decrypt_round expkey) (rev [0..<AES_ROUNDS]) state)"

section \<open>Cipher block chaining\<close>

definition aes_apply_cbc_chain_data :: "u8 list \<Rightarrow> u8 list \<Rightarrow> u8 list" where
  "aes_apply_cbc_chain_data cbc_chain_data src =
     map (\<lambda>i. src ! i XOR cbc_chain_data ! i) [0..<AES_KEY_LENGTH]"

fun aes_cbc_encrypt_loop :: "nat \<Rightarrow> nat \<Rightarrow> nat \<Rightarrow> nat \<Rightarrow> nat \<Rightarrow> ram \<Rightarrow> ram" where
  "aes_cbc_encrypt_loop key_exp cbc_chain_data src dst 0 m = m"
| "aes_cbc_encrypt_loop key_exp cbc_chain_data src dst (Suc n) m = (
     let tmp_data = aes_apply_cbc_chain_data (block m cbc_chain_data AES_KEY_LENGTH)
           (block m src AES_KEY_LENGTH);
         m = write_block m dst (aes_encrypt tmp_data (block m key_exp AES_EXPAND_KEY_LENGTH))
     in aes_cbc_encrypt_loop key_exp dst (src + AES_KEY_LENGTH) (dst + AES_KEY_LENGTH) n m)"

definition aes_cbc_encrypt_blocks :: "nat \<Rightarrow> nat \<Rightarrow> nat \<Rightarrow> nat \<Rightarrow> nat \<Rightarrow> ram \<Rightarrow> ram" where
  "aes_cbc_encrypt_blocks key_exp iv src dst num_aes_blocks m =
     aes_cbc_encrypt_loop key_exp iv src dst num_aes_blocks m"

fun aes_cbc_decrypt_loop :: "nat \<Rightarrow> u8 list \<Rightarrow> nat \<Rightarrow> nat \<Rightarrow> nat \<Rightarrow> ram \<Rightarrow> ram" where
  "aes_cbc_decrypt_loop key_exp cbc_chain_data src dst 0 m = m"
| "aes_cbc_decrypt_loop key_exp cbc_chain_data src dst (Suc n) m = (
     let tmp_block = block m src AES_KEY_LENGTH;
         tmp_data = aes_decrypt (block m src AES_KEY_LENGTH) (block m key_exp AES_EXPAND_KEY_LENGTH);
         m = write_block m dst (aes_apply_cbc_chain_data cbc_chain_data tmp_data)
     in aes_cbc_decrypt_loop key_exp tmp_block (src + AES_KEY_LENGTH) (dst + AES_KEY_LENGTH) n m)"

definition aes_cbc_decrypt_blocks :: "nat \<Rightarrow> nat \<Rightarrow> nat \<Rightarrow> nat \<Rightarrow> nat \<Rightarrow> ram \<Rightarrow> ram" where
  "aes_cbc_decrypt_blocks key_exp iv src dst num_aes_blocks m =
     aes_cbc_decrypt_loop key_exp (block m iv AES_KEY_LENGTH) src dst num_aes_blocks m"

section \<open>The cipher of FIPS 197\<close>

definition xtime :: "u8 \<Rightarrow> u8" where
  "xtime x = (if bit x 7 then push_bit 1 x XOR 0x1b else push_bit 1 x)"

text \<open>Multiplication in the field of 256 elements, by the bits of the first factor.\<close>

primrec gmul_bits :: "nat \<Rightarrow> u8 \<Rightarrow> u8 \<Rightarrow> u8" where
  "gmul_bits 0 a b = 0"
| "gmul_bits (Suc n) a b = gmul_bits n a b XOR (if bit a n then (xtime ^^ n) b else 0)"

definition gmul :: "u8 \<Rightarrow> u8 \<Rightarrow> u8" where "gmul a b = gmul_bits 8 a b"

text \<open>The inverse, 0 being mapped to itself.\<close>

definition ginv :: "u8 \<Rightarrow> u8" where "ginv x = (if x = 0 then 0 else THE y. gmul x y = 1)"

definition rotl8 :: "nat \<Rightarrow> u8 \<Rightarrow> u8" where "rotl8 k b = push_bit k b OR drop_bit (8 - k) b"

definition affine :: "u8 \<Rightarrow> u8" where
  "affine b = b XOR rotl8 1 b XOR rotl8 2 b XOR rotl8 3 b XOR rotl8 4 b XOR 0x63"

definition SubByte :: "u8 \<Rightarrow> u8" where "SubByte x = affine (ginv x)"

definition ShiftRows :: "u8 list \<Rightarrow> u8 list" where
  "ShiftRows s = map (\<lambda>i. s ! ((i + 4 * (i mod 4)) mod 16)) [0..<16]"

definition mix_byte :: "u8 list \<Rightarrow> nat \<Rightarrow> nat \<Rightarrow> u8" where
  "mix_byte s c r = gmul 2 (s ! (4 * c + r)) XOR gmul 3 (s ! (4 * c + (r + 1) mod 4)) XOR
     s ! (4 * c + (r + 2) mod 4) XOR s ! (4 * c + (r + 3) mod 4)"

definition MixColumns :: "u8 list \<Rightarrow> u8 list" where
  "MixColumns s = map (\<lambda>i. mix_byte s (i div 4) (i mod 4)) [0..<16]"

definition AddRoundKey :: "u8 list \<Rightarrow> nat \<Rightarrow> u8 list \<Rightarrow> u8 list" where
  "AddRoundKey w r s = map (\<lambda>i. s ! i XOR w ! (16 * r + i)) [0..<16]"

definition Cipher :: "u8 list \<Rightarrow> u8 list \<Rightarrow> u8 list" where
  "Cipher w s = AddRoundKey w 10 (ShiftRows (map SubByte (
     fold (\<lambda>r s. AddRoundKey w r (MixColumns (ShiftRows (map SubByte s)))) [1..<10]
       (AddRoundKey w 0 s))))"

text \<open>The key schedule: word \<open>i\<close> of the expanded key of \<open>key\<close>.\<close>

definition Rcon :: "nat \<Rightarrow> u8" where "Rcon j = (xtime ^^ (j - 1)) 1"

fun key_word :: "u8 list \<Rightarrow> nat \<Rightarrow> u8 list" where
  "key_word key i =
     (if i < 4 then take 4 (drop (4 * i) key)
      else let temp = key_word key (i - 1);
               temp = (if i mod 4 = 0 then map2 (XOR) (map SubByte (rotate1 temp)) [Rcon (i div 4), 0, 0, 0] else temp)
           in map2 (XOR) (key_word key (i - 4)) temp)"

definition KeyExpansion :: "u8 list \<Rightarrow> u8 list" where
  "KeyExpansion key = concat (map (key_word key) [0..<44])"

declare key_word.simps [simp del]

section \<open>The field and the tables\<close>

lemma xtime_double: "xtime x = (if bit x 7 then 2 * (x AND 0x7F) XOR 0x1b else 2 * x)"
proof -
  have m: "bit (0x7F :: u8) n \<longleftrightarrow> n < 7" for n
    using bit_mask_iff[where 'a = u8, of 7 n] by (auto simp: mask_eq_exp_minus_1)
  have "push_bit 1 (x AND 0x7F) = push_bit 1 x"
    by (intro bit_word_eqI) (simp only: bit_push_bit_iff bit_and_iff possible_bit_word m, auto)
  then show ?thesis by (simp add: xtime_def push_bit_eq_mult mult.commute)
qed

lemma bit_xtime: "bit (xtime x) n \<longleftrightarrow> (0 < n \<and> n < 8 \<and> bit x (n - 1)) \<noteq> (bit x 7 \<and> n \<in> {0, 1, 3, 4})"
proof -
  have "bit (push_bit 1 x) n \<longleftrightarrow> 0 < n \<and> n < 8 \<and> bit x (n - 1)"
    by (simp only: bit_push_bit_iff possible_bit_word) auto
  moreover have "bit (0x1b :: u8) n \<longleftrightarrow> n \<in> {0, 1, 3, 4}"
  proof (cases "n < 8")
    case True
    then have "n = 0 \<or> n = 1 \<or> n = 2 \<or> n = 3 \<or> n = 4 \<or> n = 5 \<or> n = 6 \<or> n = 7" by auto
    then show ?thesis by auto
  qed (auto dest: bit_imp_le_length)
  ultimately show ?thesis by (simp only: xtime_def bit_xor_iff split: if_split) auto
qed

lemma lin_xtime: "lin xtime"
  unfolding lin_def by (intro allI bit_word_eqI) (auto simp: bit_xtime bit_simps)

lemmas xtime_xor = lin_xor[OF lin_xtime]

lemma gmul_8: "gmul a b =
    (if bit a 0 then b else 0) XOR (if bit a 1 then xtime b else 0) XOR
    (if bit a 2 then xtime (xtime b) else 0) XOR (if bit a 3 then xtime (xtime (xtime b)) else 0) XOR
    (if bit a 4 then xtime (xtime (xtime (xtime b))) else 0) XOR
    (if bit a 5 then xtime (xtime (xtime (xtime (xtime b)))) else 0) XOR
    (if bit a 6 then xtime (xtime (xtime (xtime (xtime (xtime b))))) else 0) XOR
    (if bit a 7 then xtime (xtime (xtime (xtime (xtime (xtime (xtime b)))))) else 0)"
  by (simp add: gmul_def numeral_eq_Suc xor.assoc cong: if_cong)

lemma gmul_consts:
  "gmul 2 x = xtime x" "gmul 3 x = x XOR xtime x"
  "gmul 9 x = x XOR xtime (xtime (xtime x))"
  "gmul 0xb x = x XOR xtime x XOR xtime (xtime (xtime x))"
  "gmul 0xd x = x XOR xtime (xtime x) XOR xtime (xtime (xtime x))"
  "gmul 0xe x = xtime x XOR xtime (xtime x) XOR xtime (xtime (xtime x))"
  by (simp_all add: gmul_8 ac_simps)

lemma lin_gmul: "lin (gmul c)"
proof -
  have "lin (gmul_bits n c)" for n
    by (induction n) (auto simp: lin_def lin_xor[OF lin_funpow[OF lin_xtime]] ac_simps)
  then show ?thesis by (simp add: gmul_def[abs_def])
qed

lemma table_nth:
  assumes "map (\<lambda>n. f (of_nat n)) [0..<256] = t"
  shows "t ! unat (x :: u8) = f x"
proof -
  have "unat x < 2 ^ LENGTH(8)" by (rule unsigned_less)
  then show ?thesis by (simp add: assms[symmetric])
qed

lemma lin_table:
  assumes "lin f" and "t = doubled [f 1, f 2, f 4, f 8, f 16, f 32, f 64, f 128]"
  shows "t ! unat (x :: u8) = f x"
  using assms by (intro table_nth) (simp add: lin_doubled_8)

lemma x_time_gmul:
  "x_time_9 ! unat x = gmul 9 x" "x_time_b ! unat x = gmul 0xb x"
  "x_time_d ! unat x = gmul 0xd x" "x_time_e ! unat x = gmul 0xe x"
  by (rule lin_table[OF lin_gmul];
    simp add: gmul_consts xtime_double x_time_9_def x_time_b_def x_time_d_def x_time_e_def doubled_def)+

lemma x2_sbox_xtime: "x2_sbox = map xtime sbox"
  by (simp add: x2_sbox_def sbox_def xtime_double)

lemma x3_sbox_xtime: "x3_sbox = map (\<lambda>x. x XOR xtime x) sbox"
  by (simp add: x3_sbox_def sbox_def xtime_double)

lemma length_sbox [simp]: "length sbox = 256" "length inv_sbox = 256"
  by (simp_all add: sbox_def inv_sbox_def)
text \<open>All bytes in order.\<close>

definition all_bytes :: "u8 list" where "all_bytes = map of_nat [0..<256]"

lemma all_bytes_list: "all_bytes = [
   0x00, 0x01, 0x02, 0x03, 0x04, 0x05, 0x06, 0x07, 0x08, 0x09, 0x0a, 0x0b, 0x0c, 0x0d, 0x0e, 0x0f,
   0x10, 0x11, 0x12, 0x13, 0x14, 0x15, 0x16, 0x17, 0x18, 0x19, 0x1a, 0x1b, 0x1c, 0x1d, 0x1e, 0x1f,
   0x20, 0x21, 0x22, 0x23, 0x24, 0x25, 0x26, 0x27, 0x28, 0x29, 0x2a, 0x2b, 0x2c, 0x2d, 0x2e, 0x2f,
   0x30, 0x31, 0x32, 0x33, 0x34, 0x35, 0x36, 0x37, 0x38, 0x39, 0x3a, 0x3b, 0x3c, 0x3d, 0x3e, 0x3f,
   0x40, 0x41, 0x42, 0x43, 0x44, 0x45, 0x46, 0x47, 0x48, 0x49, 0x4a, 0x4b, 0x4c, 0x4d, 0x4e, 0x4f,
   0x50, 0x51, 0x52, 0x53, 0x54, 0x55, 0x56, 0x57, 0x58, 0x59, 0x5a, 0x5b, 0x5c, 0x5d, 0x5e, 0x5f,
   0x60, 0x61, 0x62, 0x63, 0x64, 0x65, 0x66, 0x67, 0x68, 0x69, 0x6a, 0x6b, 0x6c, 0x6d, 0x6e, 0x6f,
   0x70, 0x71, 0x72, 0x73, 0x74, 0x75, 0x76, 0x77, 0x78, 0x79, 0x7a, 0x7b, 0x7c, 0x7d, 0x7e, 0x7f,
   0x80, 0x81, 0x82, 0x83, 0x84, 0x85, 0x86, 0x87, 0x88, 0x89, 0x8a, 0x8b, 0x8c, 0x8d, 0x8e, 0x8f,
   0x90, 0x91, 0x92, 0x93, 0x94, 0x95, 0x96, 0x97, 0x98, 0x99, 0x9a, 0x9b, 0x9c, 0x9d, 0x9e, 0x9f,
   0xa0, 0xa1, 0xa2, 0xa3, 0xa4, 0xa5, 0xa6, 0xa7, 0xa8, 0xa9, 0xaa, 0xab, 0xac, 0xad, 0xae, 0xaf,
   0xb0, 0xb1, 0xb2, 0xb3, 0xb4, 0xb5, 0xb6, 0xb7, 0xb8, 0xb9, 0xba, 0xbb, 0xbc, 0xbd, 0xbe, 0xbf,
   0xc0, 0xc1, 0xc2, 0xc3, 0xc4, 0xc5, 0xc6, 0xc7, 0xc8, 0xc9, 0xca, 0xcb, 0xcc, 0xcd, 0xce, 0xcf,
   0xd0, 0xd1, 0xd2, 0xd3, 0xd4, 0xd5, 0xd6, 0xd7, 0xd8, 0xd9, 0xda, 0xdb, 0xdc, 0xdd, 0xde, 0xdf,
   0xe0, 0xe1, 0xe2, 0xe3, 0xe4, 0xe5, 0xe6, 0xe7, 0xe8, 0xe9, 0xea, 0xeb, 0xec, 0xed, 0xee, 0xef,
   0xf0, 0xf1, 0xf2, 0xf3, 0xf4, 0xf5, 0xf6, 0xf7, 0xf8, 0xf9, 0xfa, 0xfb, 0xfc, 0xfd, 0xfe, 0xff]"
  by (simp add: all_bytes_def upt_rec)

lemma all_bytes_table: "map f all_bytes = t \<Longrightarrow> t ! unat x = f x"
  by (rule table_nth) (simp add: all_bytes_def comp_def)

text \<open>Two linear maps are equal when they agree on the powers of two.\<close>

lemma lin_basis:
  fixes f g :: "u8 \<Rightarrow> u8"
  assumes "lin f" and "lin g"
    and "f 1 = g 1" and "f 2 = g 2" and "f 4 = g 4" and "f 8 = g 8"
    and "f 16 = g 16" and "f 32 = g 32" and "f 64 = g 64" and "f 128 = g 128"
  shows "f x = g x"
  using lin_table[OF assms(1) refl, of x] lin_table[OF assms(2) refl, of x] by (simp add: assms(3-))

lemma lin_xors: "lin f \<Longrightarrow> lin g \<Longrightarrow> lin (\<lambda>x. f x XOR g x)"
  by (auto simp: lin_def ac_simps)

lemma xtime_basis:
  "xtime 1 = 2" "xtime 2 = 4" "xtime 4 = 8" "xtime 8 = 16" "xtime 16 = 32" "xtime 32 = 64"
  "xtime 64 = 128" "xtime 128 = 0x1b" "xtime 0x1b = 0x36" "xtime 0x36 = 0x6c" "xtime 0x6c = 0xd8"
  "xtime 0xd8 = 0xab" "xtime 0xab = 0x4d" "xtime 0x4d = 0x9a" "xtime 0x9a = 0x2f"
  by (simp_all add: xtime_double)

lemma lin_gmul_left: "lin (\<lambda>a. gmul a c)"
proof -
  have "lin (\<lambda>a. gmul_bits n a c)" for n
    by (induction n) (auto simp: lin_def bit_xor_iff ac_simps)
  then show ?thesis by (simp add: gmul_def)
qed

lemma gmul_basis:
  "gmul 1 c = c" "gmul 2 c = xtime c" "gmul 4 c = xtime (xtime c)" "gmul 8 c = xtime (xtime (xtime c))"
  "gmul 16 c = xtime (xtime (xtime (xtime c)))" "gmul 32 c = xtime (xtime (xtime (xtime (xtime c))))"
  "gmul 64 c = xtime (xtime (xtime (xtime (xtime (xtime c)))))"
  "gmul 128 c = xtime (xtime (xtime (xtime (xtime (xtime (xtime c))))))"
  "gmul 0x1b c = c XOR xtime c XOR xtime (xtime (xtime c)) XOR xtime (xtime (xtime (xtime c)))"
  by (simp_all add: gmul_8)

lemma xtime_reduces:
  "c XOR xtime c XOR xtime (xtime (xtime c)) XOR xtime (xtime (xtime (xtime c))) =
    xtime (xtime (xtime (xtime (xtime (xtime (xtime (xtime c)))))))"
proof -
  have "lin (\<lambda>c. c XOR xtime c XOR xtime (xtime (xtime c)) XOR xtime (xtime (xtime (xtime c))))"
    "lin (\<lambda>c. xtime (xtime (xtime (xtime (xtime (xtime (xtime (xtime c))))))))"
    by (simp_all add: lin_def xtime_xor ac_simps)
  then show ?thesis by (rule lin_basis) (simp_all add: xtime_basis)
qed

lemma gmul_xtime_left: "gmul (xtime b) c = xtime (gmul b c)"
  by (rule lin_basis[OF lin_comp[OF lin_gmul_left lin_xtime] lin_comp[OF lin_xtime lin_gmul_left]])
    (simp_all add: xtime_basis gmul_basis xtime_reduces)

lemma gmul_xtime_right: "gmul b (xtime c) = xtime (gmul b c)"
  by (rule lin_basis[OF lin_gmul_left lin_comp[OF lin_xtime lin_gmul_left]])
    (simp_all add: gmul_basis)

lemma gmul_1_right: "gmul b 1 = b"
  by (rule lin_basis[OF lin_gmul_left, where g = "\<lambda>b. b"])
    (simp_all add: gmul_basis xtime_basis lin_def)

lemma gmul_assoc: "gmul (gmul a b) c = gmul a (gmul b c)"
  by (rule lin_basis[OF lin_comp[OF lin_gmul_left lin_gmul_left] lin_gmul_left])
    (simp_all add: gmul_basis gmul_xtime_left)

lemma gmul_right_basis:
  "gmul b 2 = xtime b" "gmul b 4 = xtime (xtime b)" "gmul b 8 = xtime (xtime (xtime b))"
  "gmul b 16 = xtime (xtime (xtime (xtime b)))" "gmul b 32 = xtime (xtime (xtime (xtime (xtime b))))"
  "gmul b 64 = xtime (xtime (xtime (xtime (xtime (xtime b)))))"
  "gmul b 128 = xtime (xtime (xtime (xtime (xtime (xtime (xtime b))))))"
  using gmul_xtime_right[of b 1] gmul_xtime_right[of b 2] gmul_xtime_right[of b 4]
    gmul_xtime_right[of b 8] gmul_xtime_right[of b 16] gmul_xtime_right[of b 32]
    gmul_xtime_right[of b 64]
  by (simp_all add: xtime_basis gmul_1_right)

lemma gmul_comm: "gmul a b = gmul b a"
  by (rule lin_basis[OF lin_gmul_left lin_gmul])
    (simp_all add: gmul_basis gmul_right_basis gmul_1_right)

lemma ginv_eq:
  assumes "gmul x y = 1"
  shows "ginv x = y"
proof -
  have "z = y" if "gmul x z = 1" for z
  proof -
    have "gmul z (gmul x y) = gmul (gmul x z) y" by (metis gmul_assoc gmul_comm)
    then show ?thesis using assms that by (simp add: gmul_1_right gmul_basis)
  qed
  with assms have "(THE y. gmul x y = 1) = y" by blast
  moreover have "x \<noteq> 0" using assms by (auto simp: gmul_8)
  ultimately show ?thesis by (simp add: ginv_def)
qed

definition inverses :: "u8 list" where
  "inverses = [
     0x01, 0x8d, 0xf6, 0xcb, 0x52, 0x7b, 0xd1, 0xe8, 0x4f, 0x29, 0xc0, 0xb0, 0xe1, 0xe5, 0xc7, 0x74,
     0xb4, 0xaa, 0x4b, 0x99, 0x2b, 0x60, 0x5f, 0x58, 0x3f, 0xfd, 0xcc, 0xff, 0x40, 0xee, 0xb2, 0x3a,
     0x6e, 0x5a, 0xf1, 0x55, 0x4d, 0xa8, 0xc9, 0xc1, 0x0a, 0x98, 0x15, 0x30, 0x44, 0xa2, 0xc2, 0x2c,
     0x45, 0x92, 0x6c, 0xf3, 0x39, 0x66, 0x42, 0xf2, 0x35, 0x20, 0x6f, 0x77, 0xbb, 0x59, 0x19, 0x1d,
     0xfe, 0x37, 0x67, 0x2d, 0x31, 0xf5, 0x69, 0xa7, 0x64, 0xab, 0x13, 0x54, 0x25, 0xe9, 0x09, 0xed,
     0x5c, 0x05, 0xca, 0x4c, 0x24, 0x87, 0xbf, 0x18, 0x3e, 0x22, 0xf0, 0x51, 0xec, 0x61, 0x17, 0x16,
     0x5e, 0xaf, 0xd3, 0x49, 0xa6, 0x36, 0x43, 0xf4, 0x47, 0x91, 0xdf, 0x33, 0x93, 0x21, 0x3b, 0x79,
     0xb7, 0x97, 0x85, 0x10, 0xb5, 0xba, 0x3c, 0xb6, 0x70, 0xd0, 0x06, 0xa1, 0xfa, 0x81, 0x82, 0x83,
     0x7e, 0x7f, 0x80, 0x96, 0x73, 0xbe, 0x56, 0x9b, 0x9e, 0x95, 0xd9, 0xf7, 0x02, 0xb9, 0xa4, 0xde,
     0x6a, 0x32, 0x6d, 0xd8, 0x8a, 0x84, 0x72, 0x2a, 0x14, 0x9f, 0x88, 0xf9, 0xdc, 0x89, 0x9a, 0xfb,
     0x7c, 0x2e, 0xc3, 0x8f, 0xb8, 0x65, 0x48, 0x26, 0xc8, 0x12, 0x4a, 0xce, 0xe7, 0xd2, 0x62, 0x0c,
     0xe0, 0x1f, 0xef, 0x11, 0x75, 0x78, 0x71, 0xa5, 0x8e, 0x76, 0x3d, 0xbd, 0xbc, 0x86, 0x57, 0x0b,
     0x28, 0x2f, 0xa3, 0xda, 0xd4, 0xe4, 0x0f, 0xa9, 0x27, 0x53, 0x04, 0x1b, 0xfc, 0xac, 0xe6, 0x7a,
     0x07, 0xae, 0x63, 0xc5, 0xdb, 0xe2, 0xea, 0x94, 0x8b, 0xc4, 0xd5, 0x9d, 0xf8, 0x90, 0x6b, 0xb1,
     0x0d, 0xd6, 0xeb, 0xc6, 0x0e, 0xcf, 0xad, 0x08, 0x4e, 0xd7, 0xe3, 0x5d, 0x50, 0x1e, 0xb3, 0x5b,
     0x23, 0x38, 0x34, 0x68, 0x46, 0x03, 0x8c, 0xdd, 0x9c, 0x7d, 0xa0, 0xcd, 0x1a, 0x41, 0x1c]"

lemma gmul_horner: "gmul a b =
    (if bit a 0 then b else 0) XOR xtime ((if bit a 1 then b else 0) XOR
      xtime ((if bit a 2 then b else 0) XOR xtime ((if bit a 3 then b else 0) XOR
      xtime ((if bit a 4 then b else 0) XOR xtime ((if bit a 5 then b else 0) XOR
      xtime ((if bit a 6 then b else 0) XOR xtime (if bit a 7 then b else 0)))))))"
proof -
  have "xtime (if c then x else 0) = (if c then xtime x else 0)" for c x by (simp add: xtime_double)
  then show ?thesis by (simp add: gmul_8 xtime_xor ac_simps)
qed

fun gprod :: "u8 \<times> u8 \<Rightarrow> u8" where "gprod (x, y) = gmul x y"

lemma inverses_ok: "map gprod (zip (tl all_bytes) inverses) = map (\<lambda>_. 1) inverses"
  unfolding all_bytes_list inverses_def by (simp add: gmul_horner xtime_double)

lemma SubByte_table: "map SubByte all_bytes = sbox"
proof -
  have l: "length inverses = 255" "length all_bytes = 256" by (simp_all add: inverses_def all_bytes_def)
  have "map ginv (tl all_bytes) = inverses"
  proof (rule nth_equalityI)
    fix i assume "i < length (map ginv (tl all_bytes))"
    then have i: "i < 255" using l by simp
    then have "gmul (tl all_bytes ! i) (inverses ! i) = 1"
      using l arg_cong[OF inverses_ok, of "\<lambda>xs. xs ! i"] by simp
    then show "map ginv (tl all_bytes) ! i = inverses ! i" using i l by (simp add: ginv_eq)
  qed (simp add: l)
  moreover have "all_bytes = 0 # tl all_bytes" by (simp add: all_bytes_list)
  moreover have "map SubByte xs = map affine (map ginv xs)" for xs by (simp add: SubByte_def)
  ultimately have "map SubByte all_bytes = map affine (0 # inverses)"
    by (metis (no_types) ginv_def list.simps(9))
  also have "\<dots> = sbox" unfolding inverses_def sbox_def by (simp add: affine_def rotl8_def)
  finally show ?thesis .
qed

lemmas sbox_SubByte = all_bytes_table[OF SubByte_table]

lemma inv_sbox_table: "map (\<lambda>y. inv_sbox ! unat y) sbox = all_bytes"
  unfolding all_bytes_list sbox_def by (simp add: inv_sbox_def)

lemma inv_sbox_sbox [simp]: "inv_sbox ! unat (sbox ! unat x) = x"
proof -
  have n: "unat x < 2 ^ LENGTH(8)" by (rule unsigned_less)
  then have "map (\<lambda>y. inv_sbox ! unat y) sbox ! unat x = inv_sbox ! unat (sbox ! unat x)" by simp
  also have "map (\<lambda>y. inv_sbox ! unat y) sbox ! unat x = x"
    unfolding inv_sbox_table using n by (simp add: all_bytes_def)
  finally show ?thesis by simp
qed

section \<open>The rounds\<close>

lemma x_sbox:
  "x2_sbox ! unat (x :: u8) = gmul 2 (sbox ! unat x)" "x3_sbox ! unat x = gmul 3 (sbox ! unat x)"
proof -
  have "unat x < 2 ^ LENGTH(8)" by (rule unsigned_less)
  then have "unat x < length sbox" by simp
  then show "x2_sbox ! unat x = gmul 2 (sbox ! unat x)" "x3_sbox ! unat x = gmul 3 (sbox ! unat x)"
    unfolding x2_sbox_xtime x3_sbox_xtime gmul_consts by simp_all
qed

lemma state_cases:
  assumes "length s = 16"
  obtains s0 s1 s2 s3 s4 s5 s6 s7 s8 s9 s10 s11 s12 s13 s14 s15 where
    "s = [s0, s1, s2, s3, s4, s5, s6, s7, s8, s9, s10, s11, s12, s13, s14, s15]"
proof -
  have "s = map (\<lambda>i. s ! i) [0..<16]" using assms map_nth[of s] by simp
  then show thesis unfolding upt_16 list.map by (rule that)
qed

lemma shift_rows_list:
  "shift_rows [s0, s1, s2, s3, s4, s5, s6, s7, s8, s9, s10, s11, s12, s13, s14, s15] = map (\<lambda>x. sbox ! unat x)
    [s0, s5, s10, s15, s4, s9, s14, s3, s8, s13, s2, s7, s12, s1, s6, s11]"
  by (simp add: shift_rows_def Let_def numeral_eq_Suc cong: let_weak_cong)

lemma inv_shift_rows_list:
  "inv_shift_rows [s0, s1, s2, s3, s4, s5, s6, s7, s8, s9, s10, s11, s12, s13, s14, s15] = map (\<lambda>x. inv_sbox ! unat x)
    [s0, s13, s10, s7, s4, s1, s14, s11, s8, s5, s2, s15, s12, s9, s6, s3]"
  by (simp add: inv_shift_rows_def Let_def numeral_eq_Suc cong: let_weak_cong)

definition mix_col :: "u8 \<Rightarrow> u8 \<Rightarrow> u8 \<Rightarrow> u8 \<Rightarrow> u8 list" where
  "mix_col a b c d =
     [gmul 2 a XOR gmul 3 b XOR c XOR d, a XOR gmul 2 b XOR gmul 3 c XOR d,
      a XOR b XOR gmul 2 c XOR gmul 3 d, gmul 3 a XOR b XOR c XOR gmul 2 d]"

primrec un_mix :: "nat \<Rightarrow> u8 \<Rightarrow> u8 \<Rightarrow> u8 \<Rightarrow> u8 \<Rightarrow> u8" where
  "un_mix 0 a b c d = gmul 0xe a XOR gmul 0xb b XOR gmul 0xd c XOR gmul 9 d"
| "un_mix (Suc n) a b c d = un_mix n b c d a"

lemma un_mix_rows:
  "un_mix 1 a b c d = gmul 9 a XOR gmul 0xe b XOR gmul 0xb c XOR gmul 0xd d"
  "un_mix 2 a b c d = gmul 0xd a XOR gmul 9 b XOR gmul 0xe c XOR gmul 0xb d"
  "un_mix 3 a b c d = gmul 0xb a XOR gmul 0xd b XOR gmul 9 c XOR gmul 0xe d"
  by (simp_all add: numeral_eq_Suc ac_simps)

lemma mix_sub_columns_list:
  "mix_sub_columns [s0, s1, s2, s3, s4, s5, s6, s7, s8, s9, s10, s11, s12, s13, s14, s15] =
    mix_col (sbox ! unat s0) (sbox ! unat s5) (sbox ! unat s10) (sbox ! unat s15) @
    mix_col (sbox ! unat s4) (sbox ! unat s9) (sbox ! unat s14) (sbox ! unat s3) @
    mix_col (sbox ! unat s8) (sbox ! unat s13) (sbox ! unat s2) (sbox ! unat s7) @
    mix_col (sbox ! unat s12) (sbox ! unat s1) (sbox ! unat s6) (sbox ! unat s11)"
  unfolding mix_col_def x_sbox[symmetric]
  by (simp add: mix_sub_columns_def AES_STATECOLS_def Let_def numeral_eq_Suc cong: let_weak_cong)

lemma inv_mix_sub_columns_list:
  "inv_mix_sub_columns [t0, t1, t2, t3, t4, t5, t6, t7, t8, t9, t10, t11, t12, t13, t14, t15] = map (\<lambda>x. inv_sbox ! unat x)
    [un_mix 0 t0 t1 t2 t3,
     un_mix 1 t12 t13 t14 t15,
     un_mix 2 t8 t9 t10 t11,
     un_mix 3 t4 t5 t6 t7,
     un_mix 0 t4 t5 t6 t7,
     un_mix 1 t0 t1 t2 t3,
     un_mix 2 t12 t13 t14 t15,
     un_mix 3 t8 t9 t10 t11,
     un_mix 0 t8 t9 t10 t11,
     un_mix 1 t4 t5 t6 t7,
     un_mix 2 t0 t1 t2 t3,
     un_mix 3 t12 t13 t14 t15,
     un_mix 0 t12 t13 t14 t15,
     un_mix 1 t8 t9 t10 t11,
     un_mix 2 t4 t5 t6 t7,
     un_mix 3 t0 t1 t2 t3]"
proof -
  have "fold (\<lambda>i s. s[i := inv_sbox ! unat (tmp ! i)]) [0..<16] [t0, t1, t2, t3, t4, t5, t6, t7, t8, t9, t10, t11, t12, t13, t14, t15]
      = map (\<lambda>i. inv_sbox ! unat (tmp ! i)) [0..<16]" for tmp
    unfolding upt_16 by (simp add: numeral_eq_Suc)
  then show ?thesis
    unfolding inv_mix_sub_columns_def AES_STATECOLS_def un_mix_rows un_mix.simps(1)[folded One_nat_def] x_time_gmul[symmetric]
    by (simp add: Let_def upt_16 numeral_eq_Suc cong: let_weak_cong)
qed

text \<open>The matrix of the decryption inverts that of the encryption.\<close>

lemma un_mix_mix:
  fixes a b c d :: u8
  defines "m0 \<equiv> gmul 2 a XOR gmul 3 b XOR c XOR d" and "m1 \<equiv> a XOR gmul 2 b XOR gmul 3 c XOR d"
    and "m2 \<equiv> a XOR b XOR gmul 2 c XOR gmul 3 d" and "m3 \<equiv> gmul 3 a XOR b XOR c XOR gmul 2 d"
  shows "un_mix 0 m0 m1 m2 m3 = a"
proof -
  have x: "x XOR (x XOR y) = y" for x y :: u8 by (simp add: xor.assoc[symmetric])
  show ?thesis unfolding m0_def m1_def m2_def m3_def un_mix.simps gmul_consts xtime_xor
    by (simp add: x ac_simps)
qed

lemma un_mix_rows_mix:
  fixes a b c d :: u8
  defines "m0 \<equiv> gmul 2 a XOR gmul 3 b XOR c XOR d" and "m1 \<equiv> a XOR gmul 2 b XOR gmul 3 c XOR d"
    and "m2 \<equiv> a XOR b XOR gmul 2 c XOR gmul 3 d" and "m3 \<equiv> gmul 3 a XOR b XOR c XOR gmul 2 d"
  shows "un_mix 1 m0 m1 m2 m3 = b" "un_mix 2 m0 m1 m2 m3 = c" "un_mix 3 m0 m1 m2 m3 = d"
  using un_mix_mix[of b c d a] un_mix_mix[of c d a b] un_mix_mix[of d a b c]
  unfolding m0_def m1_def m2_def m3_def by (simp_all add: numeral_eq_Suc ac_simps)

lemma inv_mix_sub_columns_inverse [simp]: "length s = 16 \<Longrightarrow> inv_mix_sub_columns (mix_sub_columns s) = s"
  by (erule state_cases)
    (simp add: mix_sub_columns_list mix_col_def inv_mix_sub_columns_list un_mix_mix un_mix_rows_mix
      del: un_mix.simps One_nat_def)

lemma inv_shift_rows_inverse [simp]: "length s = 16 \<Longrightarrow> inv_shift_rows (shift_rows s) = s"
  by (erule state_cases) (simp add: shift_rows_list inv_shift_rows_list)

lemma length_mix_sub_columns [simp]: "length s = 16 \<Longrightarrow> length (mix_sub_columns s) = 16"
  by (erule state_cases) (simp add: mix_sub_columns_list mix_col_def)

lemma length_shift_rows [simp]: "length s = 16 \<Longrightarrow> length (shift_rows s) = 16"
  by (erule state_cases) (simp add: shift_rows_list)

lemma shift_rows_spec: "length s = 16 \<Longrightarrow> shift_rows s = ShiftRows (map SubByte s)"
  by (erule state_cases) (simp add: shift_rows_list ShiftRows_def upt_16 sbox_SubByte)

lemma mix_sub_columns_spec: "length s = 16 \<Longrightarrow> mix_sub_columns s = MixColumns (ShiftRows (map SubByte s))"
  by (erule state_cases)
    (simp add: mix_sub_columns_list mix_col_def MixColumns_def ShiftRows_def mix_byte_def upt_16
      sbox_SubByte ac_simps)

lemma length_spec_steps [simp]: "length (MixColumns s) = 16" "length (ShiftRows s) = 16"
  by (simp_all add: MixColumns_def ShiftRows_def)

lemma byte32_xor: "byte32 (a XOR b) i = byte32 a i XOR byte32 b i"
  by (rule bit_word_eqI) (auto simp: byte32_def bit_simps)

lemma byte32_get_word: "i < 4 \<Longrightarrow> byte32 (get_word bs j) i = bs ! (4 * j + i)"
  by (simp add: get_word_def byte32_load32)

lemma add_round_key_eq:
  assumes "length s = 16"
  shows "add_round_key s k = map (\<lambda>i. s ! i XOR k ! i) [0..<16]"
proof -
  have "[0..<4] = [0, 1, 2, 3 :: nat]" by (simp add: upt_rec)
  then show ?thesis using assms
    by (elim state_cases) (simp add: add_round_key_def put_word_def byte32_xor byte32_get_word upt_16 numeral_2_eq_2)
qed

lemma length_add_round_key [simp]: "length s = 16 \<Longrightarrow> length (add_round_key s k) = 16"
  by (simp add: add_round_key_eq)

lemma add_round_key_twice [simp]: "length s = 16 \<Longrightarrow> add_round_key (add_round_key s k) k = s"
  by (rule nth_equalityI) (simp_all add: add_round_key_eq xor.assoc)

section \<open>Encryption and decryption\<close>

lemma length_inv_shift_rows [simp]: "length s = 16 \<Longrightarrow> length (inv_shift_rows s) = 16"
  by (erule state_cases) (simp add: inv_shift_rows_list)

lemma length_inv_mix_sub_columns [simp]: "length s = 16 \<Longrightarrow> length (inv_mix_sub_columns s) = 16"
  by (erule state_cases) (simp add: inv_mix_sub_columns_list)

lemma length_decrypt_rounds [simp]: "length s = 16 \<Longrightarrow> length (fold (decrypt_round k) rs s) = 16"
  by (induction rs arbitrary: s) (simp_all add: decrypt_round_def Let_def)

lemma length_aes_decrypt [simp]: "16 \<le> length p \<Longrightarrow> length (aes_decrypt p k) = 16"
  by (simp add: aes_decrypt_def AES_STATECOLS_def)

lemma length_encrypt_round [simp]: "length s = 16 \<Longrightarrow> length (encrypt_round k r s) = 16"
  by (simp add: encrypt_round_def)

lemma length_encrypt_rounds [simp]: "length s = 16 \<Longrightarrow> length (fold (encrypt_round k) rs s) = 16"
  by (induction rs arbitrary: s) simp_all

lemma length_aes_encrypt [simp]: "16 \<le> length p \<Longrightarrow> length (aes_encrypt p k) = 16"
  by (simp add: aes_encrypt_def AES_STATECOLS_def)

lemma decrypt_rounds:
  assumes "length s = 16" and "n < 10"
  shows "fold (decrypt_round k) (rev [0..<Suc n]) (fold (encrypt_round k) [1..<Suc n] (add_round_key s k)) = s"
  using assms(2)
proof (induction n)
  case 0
  then show ?case using assms(1) by (simp add: decrypt_round_def)
next
  case (Suc n)
  let ?s = "fold (encrypt_round k) [1..<Suc n] (add_round_key s k)"
  have "length ?s = 16" using assms(1) by simp
  then have "decrypt_round k (Suc n) (encrypt_round k (Suc n) ?s) = ?s"
    using Suc.prems by (simp add: decrypt_round_def encrypt_round_def AES_ROUNDS_def del: upt_Suc)
  then show ?case using Suc by simp
qed

lemma AddRoundKey_eq:
  "length s = 16 \<Longrightarrow> 16 * r + 16 \<le> length w \<Longrightarrow> add_round_key s (drop (16 * r) w) = AddRoundKey w r s"
  by (simp add: add_round_key_eq AddRoundKey_def)

lemma encrypt_round_spec:
  assumes "length s = 16" and "length w = 176" and "1 \<le> r" and "r < 10"
  shows "encrypt_round w r s = AddRoundKey w r (MixColumns (ShiftRows (map SubByte s)))"
  using assms AddRoundKey_eq[of "mix_sub_columns s" r w]
  by (simp add: encrypt_round_def AES_ROUNDS_def AES_STATECOLS_def mix_sub_columns_spec mult.commute)

lemma encrypt_rounds_spec:
  "length s = 16 \<Longrightarrow> length w = 176 \<Longrightarrow> set rs \<subseteq> {1..<10} \<Longrightarrow>
    fold (encrypt_round w) rs s = fold (\<lambda>r s. AddRoundKey w r (MixColumns (ShiftRows (map SubByte s)))) rs s"
proof (induction rs arbitrary: s)
  case (Cons r rs)
  then have "length (encrypt_round w r s) = 16" "encrypt_round w r s = AddRoundKey w r (MixColumns (ShiftRows (map SubByte s)))"
    by (simp, intro encrypt_round_spec) auto
  then show ?case using Cons by simp
qed simp

lemma aes_encrypt_last:
  assumes "length p = 16"
  shows "aes_encrypt p w = add_round_key (shift_rows (fold (encrypt_round w) [1..<10] (add_round_key p w))) (drop 160 w)"
proof -
  have "[1..<AES_ROUNDS + 1] = [1..<10] @ [10]" by (simp add: AES_ROUNDS_def upt_rec)
  then show ?thesis
    using assms by (simp add: aes_encrypt_def AES_STATECOLS_def encrypt_round_def AES_ROUNDS_def)
qed

lemma aes_encrypt_Cipher:
  assumes "length p = 16" and "length w = 176"
  shows "aes_encrypt p w = Cipher w p"
proof -
  let ?s = "fold (encrypt_round w) [1..<10] (add_round_key p w)"
  have s: "length ?s = 16" using assms by simp
  have "aes_encrypt p w = AddRoundKey w 10 (ShiftRows (map SubByte ?s))"
    unfolding aes_encrypt_last[OF assms(1)]
    using s assms AddRoundKey_eq[of "shift_rows ?s" 10 w] shift_rows_spec[OF s] by (simp only: length_shift_rows) simp
  moreover have "add_round_key p w = AddRoundKey w 0 p" using assms AddRoundKey_eq[of p 0 w] by simp
  moreover have "?s = fold (\<lambda>r s. AddRoundKey w r (MixColumns (ShiftRows (map SubByte s)))) [1..<10] (add_round_key p w)"
    using assms by (intro encrypt_rounds_spec) auto
  ultimately show ?thesis by (simp only: Cipher_def)
qed

lemma aes_decrypt_encrypt:
  assumes "length p = 16"
  shows "aes_decrypt (aes_encrypt p k) k = p"
proof -
  let ?s = "fold (encrypt_round k) [1..<10] (add_round_key p k)"
  have s: "length ?s = 16" using assms by simp
  then have "aes_decrypt (aes_encrypt p k) k = fold (decrypt_round k) (rev [0..<10]) ?s"
    unfolding aes_encrypt_last[OF assms] aes_decrypt_def AES_STATECOLS_def AES_ROUNDS_def by (simp del: upt_rec_numeral)
  also have "\<dots> = p" using decrypt_rounds[OF assms, of 9 k] by (simp del: upt_Suc upt_rec_numeral)
  finally show ?thesis .
qed


section \<open>The key schedule\<close>

text \<open>The first \<open>n\<close> words of the buffer hold the key schedule.\<close>

definition expanded :: "u8 list \<Rightarrow> nat \<Rightarrow> u8 list \<Rightarrow> bool" where
  "expanded key n w \<longleftrightarrow> length w = 176 \<and>
     (\<forall>i < n. take 4 (drop (4 * i) w) = key_word key i)"

lemma word_of_bytes:
  assumes "4 * i + 4 \<le> length w"
  shows "take 4 (drop (4 * i) w) = [w ! (4 * i), w ! (4 * i + 1), w ! (4 * i + 2), w ! (4 * i + 3)]"
  using assms by (intro nth_equalityI) (auto simp: less_Suc_eq numeral_eq_Suc)

lemma key_word_0: "i < 4 \<Longrightarrow> key_word key i = take 4 (drop (4 * i) key)"
  by (subst key_word.simps) simp

lemma key_word_step:
  "4 \<le> i \<Longrightarrow> key_word key i = map2 (XOR) (key_word key (i - 4))
     (if i mod 4 = 0 then map2 (XOR) (map SubByte (rotate1 (key_word key (i - 1)))) [Rcon (i div 4), 0, 0, 0]
      else key_word key (i - 1))"
  by (subst key_word.simps) (simp add: Let_def)

lemma rcon_Rcon: "1 \<le> j \<Longrightarrow> j \<le> 10 \<Longrightarrow> rcon ! j = Rcon j"
proof -
  assume "1 \<le> j" "j \<le> 10"
  then have "j = 1 \<or> j = 2 \<or> j = 3 \<or> j = 4 \<or> j = 5 \<or> j = 6 \<or> j = 7 \<or> j = 8 \<or> j = 9 \<or> j = 10" by presburger
  then show ?thesis by (auto simp: rcon_def Rcon_def xtime_basis numeral_eq_Suc)
qed

definition put_key :: "nat \<Rightarrow> u8 list \<Rightarrow> u8 \<times> u8 \<times> u8 \<times> u8 \<Rightarrow> u8 list" where
  "put_key i w = (\<lambda>(a, b, c, d).
     w[4 * i := w ! (4 * i - 16) XOR a, 4 * i + 1 := w ! (4 * i - 16 + 1) XOR b,
       4 * i + 2 := w ! (4 * i - 16 + 2) XOR c, 4 * i + 3 := w ! (4 * i - 16 + 3) XOR d])"

lemma put_key_eq:
  assumes "4 \<le> i"
  shows "(let e = w[4 * i + 0 := w ! (4 * i - 4 * 4 + 0) XOR a];
              e = e[4 * i + 1 := e ! (4 * i - 4 * 4 + 1) XOR b];
              e = e[4 * i + 2 := e ! (4 * i - 4 * 4 + 2) XOR c];
              e = e[4 * i + 3 := e ! (4 * i - 4 * 4 + 3) XOR d] in e) = put_key i w (a, b, c, d)"
proof -
  have "4 * i + j \<noteq> 4 * i - 16 + k" "4 * i \<noteq> 4 * i - 16 + k" if "k < 4" for k j using assms that by auto
  from this[of 1] this[of 2] this[of 3] show ?thesis by (simp add: Let_def put_key_def)
qed

lemma expand_key_step_eq:
  assumes "4 \<le> i"
  shows "expand_key_step i w = put_key i w (if i mod 4 = 0
      then (SubByte (w ! (4 * i - 3)) XOR rcon ! (i div 4), SubByte (w ! (4 * i - 2)),
        SubByte (w ! (4 * i - 1)), SubByte (w ! (4 * i - 4)))
      else (w ! (4 * i - 4), w ! (4 * i - 3), w ! (4 * i - 2), w ! (4 * i - 1)))"
proof (cases "i mod 4 = 0")
  case True
  show ?thesis unfolding expand_key_step_def AES_KEYCOLS_def if_P[OF True] sbox_SubByte
    by (subst put_key_eq[OF assms, symmetric]) (simp only: Let_def split)
next
  case False
  have "\<not> ((4 :: nat) > 6 \<and> i mod 4 = 4)" by simp
  then show ?thesis unfolding expand_key_step_def AES_KEYCOLS_def if_not_P[OF False]
    by (subst put_key_eq[OF assms, symmetric]) (simp only: Let_def split if_False)
qed

lemma expand_key_step_frame:
  "4 \<le> i \<Longrightarrow> j < 4 * i \<Longrightarrow> expand_key_step i w ! j = w ! j"
  "4 \<le> i \<Longrightarrow> length (expand_key_step i w) = length w"
  by (simp_all add: expand_key_step_eq put_key_def split: prod.split)

lemma expand_key_step_word:
  assumes w: "length w = 176" and i: "4 \<le> i" "i < 44"
    and p: "take 4 (drop (4 * (i - 1)) w) = key_word key (i - 1)"
    and q: "take 4 (drop (4 * (i - 4)) w) = key_word key (i - 4)"
  shows "take 4 (drop (4 * i) (expand_key_step i w)) = key_word key i"
proof -
  have ix: "4 * (i - 1) = 4 * i - 4" "4 * i - 4 + 1 = 4 * i - 3" "4 * i - 4 + 2 = 4 * i - 2" "4 * i - 4 + 3 = 4 * i - 1"
    "4 * (i - 4) = 4 * i - 16" using i by auto
  have p': "key_word key (i - 1) = [w ! (4 * i - 4), w ! (4 * i - 3), w ! (4 * i - 2), w ! (4 * i - 1)]"
    using word_of_bytes[of "i - 1" w] i w p ix by simp
  have q': "key_word key (i - 4) = [w ! (4 * i - 16), w ! (4 * i - 16 + 1), w ! (4 * i - 16 + 2), w ! (4 * i - 16 + 3)]"
    using word_of_bytes[of "i - 4" w] i w q ix by simp
  have r: "i mod 4 = 0 \<Longrightarrow> rcon ! (i div 4) = Rcon (i div 4)" using i by (intro rcon_Rcon) auto
  have "take 4 (drop (4 * i) (expand_key_step i w)) = [expand_key_step i w ! (4 * i), expand_key_step i w ! (4 * i + 1),
      expand_key_step i w ! (4 * i + 2), expand_key_step i w ! (4 * i + 3)]"
    using i w by (intro word_of_bytes) (simp add: expand_key_step_frame)
  also have "\<dots> = key_word key i"
    unfolding key_word_step[OF i(1)] p' q' expand_key_step_eq[OF i(1)]
    using i w r by (cases "i mod 4 = 0") (simp_all add: put_key_def)
  finally show ?thesis .
qed

lemma expand_key_step_expanded:
  assumes "expanded key i w" and "4 \<le> i" and "i < 44"
  shows "expanded key (Suc i) (expand_key_step i w)"
proof -
  have w: "length w = 176" using assms(1) by (simp add: expanded_def)
  have "take 4 (drop (4 * j) (expand_key_step i w)) = key_word key j" if "j < Suc i" for j
  proof (cases "j = i")
    case True
    then show ?thesis using assms w expand_key_step_word[of w i key] by (simp add: expanded_def)
  next
    case False
    with that have j: "j < i" by simp
    have "take 4 (drop (4 * j) (expand_key_step i w)) = take 4 (drop (4 * j) w)"
      using j w by (intro nth_equalityI) (auto simp: expand_key_step_frame assms(2))
    then show ?thesis using assms(1) j by (simp add: expanded_def)
  qed
  then show ?thesis using w assms(2) by (simp add: expanded_def expand_key_step_frame)
qed

lemma aes_expand_key_KeyExpansion:
  assumes "length key = 16" and "length buf = 176"
  shows "aes_expand_key key buf = KeyExpansion key" and "length (KeyExpansion key) = 176"
proof -
  let ?b = "take 16 key @ drop 16 buf"
  have s: "expanded key (4 + n) (fold expand_key_step [4..<4 + n] ?b)" if "n \<le> 40" for n
    using that
  proof (induction n)
    case 0
    have "take 4 (drop (4 * i) ?b) = key_word key i" if "i < 4" for i
      using assms that by (simp add: key_word_0)
    then show ?case using assms by (simp add: expanded_def)
  next
    case (Suc n)
    have "[4..<4 + Suc n] = [4..<4 + n] @ [4 + n]" unfolding add_Suc_right by (rule upt_Suc_append) simp
    moreover have "expanded key (4 + Suc n) (expand_key_step (4 + n) (fold expand_key_step [4..<4 + n] ?b))"
      using Suc expand_key_step_expanded[of key "4 + n"] by simp
    ultimately show ?case by (simp only: fold_append fold_simps comp_def)
  qed
  let ?w = "aes_expand_key key buf"
  have "AES_KEYCOLS = 4" "AES_KEYCOLS * 4 = 16" "AES_STATECOLS * (AES_ROUNDS + 1) = 4 + 40"
    by (simp_all add: AES_KEYCOLS_def AES_STATECOLS_def AES_ROUNDS_def)
  then have "?w = fold expand_key_step [4..<4 + 40] ?b" by (simp only: aes_expand_key_def Let_def)
  with s[of 40] have e: "expanded key 44 ?w" by simp
  have "take (4 * n) ?w = concat (map (key_word key) [0..<n])" if "n \<le> 44" for n
    using that
  proof (induction n)
    case (Suc n)
    have "take (4 * Suc n) ?w = take (4 * n) ?w @ take 4 (drop (4 * n) ?w)"
      using take_add[of "4 * n" 4 ?w] by (simp add: add.commute)
    then show ?case using Suc e by (simp add: expanded_def)
  qed simp
  from this[of 44] have k: "KeyExpansion key = ?w" using e by (simp add: expanded_def KeyExpansion_def)
  then show "?w = KeyExpansion key" by simp
  show "length (KeyExpansion key) = 176" unfolding k using e by (simp add: expanded_def)
qed


section \<open>Chaining over any block cipher\<close>

fun cbc_enc :: "(u8 list \<Rightarrow> u8 list) \<Rightarrow> u8 list \<Rightarrow> u8 list list \<Rightarrow> u8 list list" where
  "cbc_enc E iv [] = []"
| "cbc_enc E iv (p # ps) = (let c = E (map2 (XOR) p iv) in c # cbc_enc E c ps)"

fun cbc_dec :: "(u8 list \<Rightarrow> u8 list) \<Rightarrow> u8 list \<Rightarrow> u8 list list \<Rightarrow> u8 list list" where
  "cbc_dec D iv [] = []"
| "cbc_dec D iv (c # cs) = map2 (XOR) (D c) iv # cbc_dec D c cs"

lemma map2_xor_twice:
  "length p = length (iv :: u8 list) \<Longrightarrow> map2 (XOR) (map2 (XOR) p iv) iv = p"
  by (rule nth_equalityI) (simp_all add: xor.assoc)

locale block_cipher =
  fixes encr decr :: "u8 list \<Rightarrow> u8 list \<Rightarrow> u8 list"
  assumes decr_encr: "length p = 16 \<Longrightarrow> decr (encr p k) k = p"
    and length_encr: "length p = 16 \<Longrightarrow> length (encr p k) = 16"
begin

lemma cbc_dec_enc:
  "length iv = 16 \<Longrightarrow> \<forall>p \<in> set ps. length p = 16 \<Longrightarrow>
    cbc_dec (\<lambda>b. decr b k) iv (cbc_enc (\<lambda>b. encr b k) iv ps) = ps"
  by (induction ps arbitrary: iv) (simp_all add: Let_def decr_encr length_encr map2_xor_twice)

lemma encr_inj: "length p = 16 \<Longrightarrow> length q = 16 \<Longrightarrow> encr p k = encr q k \<Longrightarrow> p = q"
  using decr_encr by metis

end

interpretation aes: block_cipher aes_encrypt aes_decrypt
  by unfold_locales (simp_all add: aes_decrypt_encrypt)

section \<open>Chaining in memory\<close>

definition chunks :: "ram \<Rightarrow> nat \<Rightarrow> nat \<Rightarrow> u8 list list" where
  "chunks m a n = map (\<lambda>i. block m (a + 16 * i) 16) [0..<n]"

lemma chunks_Suc: "chunks m a (Suc n) = block m a 16 # chunks m (a + 16) n"
  by (simp add: chunks_def upt_conv_Cons map_Suc_upt[symmetric] comp_def algebra_simps del: upt_Suc)

lemma chunks_length: "\<forall>p \<in> set (chunks m a n). length p = 16"
  by (simp add: chunks_def)

lemma concat_chunks: "concat (chunks m a n) = block m a (16 * n)"
proof (induction n arbitrary: a)
  case (Suc n)
  have "block m a (16 + 16 * n) = block m a 16 @ block m (a + 16) (16 * n)" by (rule block_add)
  then show ?case using Suc by (simp add: chunks_Suc)
qed (simp add: chunks_def)

lemma apply_chain: "length a = 16 \<Longrightarrow> length b = 16 \<Longrightarrow> aes_apply_cbc_chain_data a b = map2 (XOR) b a"
  by (rule nth_equalityI) (simp_all add: aes_apply_cbc_chain_data_def AES_KEY_LENGTH_def)

lemma chunks_write_apart: "apart a (length bs) b (16 * n) \<Longrightarrow> chunks (write_block m a bs) b n = chunks m b n"
  unfolding chunks_def by (rule map_cong[OF refl], rule block_write_apart) (auto simp: apart_def)

lemma aes_cbc_encrypt_loop_refines:
  assumes "apart k 176 dst (16 * n)" and "dst \<le> src \<or> src + 16 * n \<le> dst"
  shows "chunks (aes_cbc_encrypt_loop k iv src dst n m) dst n =
      cbc_enc (\<lambda>b. aes_encrypt b (block m k 176)) (block m iv 16) (chunks m src n) \<and>
    (\<forall>x. x < dst \<or> dst + 16 * n \<le> x \<longrightarrow> aes_cbc_encrypt_loop k iv src dst n m x = m x)"
  using assms
proof (induction n arbitrary: iv src dst m)
  case 0
  then show ?case by (simp add: chunks_def)
next
  case (Suc n)
  let ?E = "\<lambda>b. aes_encrypt b (block m k 176)"
  define c where "c = ?E (map2 (XOR) (block m src 16) (block m iv 16))"
  define m' where "m' = write_block m dst c"
  have c: "length c = 16" by (simp add: c_def)
  have step: "aes_cbc_encrypt_loop k iv src dst (Suc n) m = aes_cbc_encrypt_loop k dst (src + 16) (dst + 16) n m'"
    by (simp add: AES_KEY_LENGTH_def AES_EXPAND_KEY_LENGTH_def AES_STATECOLS_def AES_ROUNDS_def
        apply_chain c_def m'_def)
  have kk: "block m' k 176 = block m k 176"
    using Suc.prems(1) c unfolding m'_def by (intro block_write_apart) (auto simp: apart_def)
  have ss: "chunks m' (src + 16) n = chunks m (src + 16) n"
    using Suc.prems(2) c unfolding m'_def by (intro chunks_write_apart) (auto simp: apart_def)
  have cc: "block m' dst 16 = c" using c by (simp add: m'_def)
  let ?r = "aes_cbc_encrypt_loop k dst (src + 16) (dst + 16) n m'"
  have ih: "chunks ?r (dst + 16) n = cbc_enc ?E c (chunks m (src + 16) n)"
    "\<And>x. x < dst + 16 \<or> dst + 16 + 16 * n \<le> x \<Longrightarrow> ?r x = m' x"
    using Suc.IH[of "dst + 16" "src + 16" dst m'] Suc.prems(1,2) by (auto simp: kk ss cc apart_def)
  have "block ?r dst 16 = c" using ih(2) cc block_frame[of dst 16 ?r m'] by simp
  then have "chunks ?r dst (Suc n) = cbc_enc ?E (block m iv 16) (chunks m src (Suc n))"
    by (simp add: chunks_Suc ih(1) Let_def flip: c_def)
  moreover have "?r x = m x" if "x < dst \<or> dst + 16 * Suc n \<le> x" for x
    using ih(2)[of x] that c by (auto simp: m'_def write_block_def)
  ultimately show ?case unfolding step by blast
qed

lemma aes_cbc_decrypt_loop_refines:
  assumes "apart k 176 dst (16 * n)" and "dst \<le> src \<or> src + 16 * n \<le> dst" and "length iv = 16"
  shows "chunks (aes_cbc_decrypt_loop k iv src dst n m) dst n =
      cbc_dec (\<lambda>b. aes_decrypt b (block m k 176)) iv (chunks m src n) \<and>
    (\<forall>x. x < dst \<or> dst + 16 * n \<le> x \<longrightarrow> aes_cbc_decrypt_loop k iv src dst n m x = m x)"
  using assms
proof (induction n arbitrary: iv src dst m)
  case 0
  then show ?case by (simp add: chunks_def)
next
  case (Suc n)
  let ?D = "\<lambda>b. aes_decrypt b (block m k 176)"
  define p where "p = map2 (XOR) (?D (block m src 16)) iv"
  define m' where "m' = write_block m dst p"
  have d: "length (?D (block m src 16)) = 16" by simp
  then have p: "length p = 16" using Suc.prems(3) by (simp add: p_def)
  have step: "aes_cbc_decrypt_loop k iv src dst (Suc n) m =
      aes_cbc_decrypt_loop k (block m src 16) (src + 16) (dst + 16) n m'"
    using d Suc.prems(3) by (simp add: AES_KEY_LENGTH_def AES_EXPAND_KEY_LENGTH_def AES_STATECOLS_def
        AES_ROUNDS_def apply_chain p_def m'_def)
  have kk: "block m' k 176 = block m k 176"
    using Suc.prems(1) p unfolding m'_def by (intro block_write_apart) (auto simp: apart_def)
  have ss: "chunks m' (src + 16) n = chunks m (src + 16) n"
    using Suc.prems(2) p unfolding m'_def by (intro chunks_write_apart) (auto simp: apart_def)
  let ?r = "aes_cbc_decrypt_loop k (block m src 16) (src + 16) (dst + 16) n m'"
  have ih: "chunks ?r (dst + 16) n = cbc_dec ?D (block m src 16) (chunks m (src + 16) n)"
    "\<And>x. x < dst + 16 \<or> dst + 16 + 16 * n \<le> x \<Longrightarrow> ?r x = m' x"
    using Suc.IH[of "dst + 16" "src + 16" "block m src 16" m'] Suc.prems(1,2) by (auto simp: kk ss apart_def)
  have "block ?r dst 16 = p" using ih(2) p block_frame[of dst 16 ?r m'] by (simp add: m'_def)
  then have "chunks ?r dst (Suc n) = cbc_dec ?D iv (chunks m src (Suc n))"
    by (simp add: chunks_Suc ih(1) p_def)
  moreover have "?r x = m x" if "x < dst \<or> dst + 16 * Suc n \<le> x" for x
    using ih(2)[of x] that p by (auto simp: m'_def write_block_def)
  ultimately show ?case unfolding step by blast
qed


text \<open>
  C33. C90: On 16-byte blocks the code computes the AES-128 of FIPS 197. The key schedule it writes, whatever
  the buffer held before, is the FIPS key expansion, and the table-driven encryption is the FIPS cipher
  with the substitution box given by inversion in the field of 256 elements.
\<close>

theorem aes_is_fips197:
  assumes "length key = 16" and "length buf = AES_EXPAND_KEY_LENGTH" and "length p = 16"
  shows "aes_encrypt p (aes_expand_key key buf) = Cipher (KeyExpansion key) p"
proof -
  have "length buf = 176"
    using assms(2) by (simp add: AES_EXPAND_KEY_LENGTH_def AES_STATECOLS_def AES_ROUNDS_def)
  then show ?thesis
    using assms aes_expand_key_KeyExpansion[of key buf] aes_encrypt_Cipher[of p "KeyExpansion key"] by simp
qed

theorem aes_is_fips197_witness:
  "aes_encrypt (replicate 16 0) (aes_expand_key (replicate 16 0xff) (replicate 176 7)) =
    Cipher (KeyExpansion (replicate 16 0xff)) (replicate 16 0)"
  by (rule aes_is_fips197) (simp_all add: AES_EXPAND_KEY_LENGTH_def AES_STATECOLS_def AES_ROUNDS_def)

text \<open>
  C34. C91: Decrypting what the chained encryption wrote gives back the plaintext, for any number of blocks.
  Both may work in place: a destination may be the source or lie below it, so that no block is
  overwritten before it is read. The expanded key must not lie in an area that is written, and the
  initialisation vector must survive the encryption.
\<close>

theorem aes_cbc_roundtrip:
  assumes "apart key_exp 176 dst (16 * n)" and "apart iv 16 dst (16 * n)"
    and "dst \<le> src \<or> src + 16 * n \<le> dst"
    and "apart key_exp 176 out (16 * n)" and "out \<le> dst \<or> dst + 16 * n \<le> out"
  shows "block (aes_cbc_decrypt_blocks key_exp iv dst out n (aes_cbc_encrypt_blocks key_exp iv src dst n m)) out (16 * n) =
    block m src (16 * n)"
proof -
  let ?e = "aes_cbc_encrypt_blocks key_exp iv src dst n m"
  have e: "chunks ?e dst n = cbc_enc (\<lambda>b. aes_encrypt b (block m key_exp 176)) (block m iv 16) (chunks m src n)"
    "\<And>x. x < dst \<or> dst + 16 * n \<le> x \<Longrightarrow> ?e x = m x"
    using aes_cbc_encrypt_loop_refines[OF assms(1,3), of iv m] by (auto simp: aes_cbc_encrypt_blocks_def)
  have "block ?e key_exp 176 = block m key_exp 176" "block ?e iv 16 = block m iv 16"
    using assms(1,2) by (intro block_frame e(2); auto simp: apart_def)+
  then have "chunks (aes_cbc_decrypt_blocks key_exp iv dst out n ?e) out n =
      cbc_dec (\<lambda>b. aes_decrypt b (block m key_exp 176)) (block m iv 16) (chunks ?e dst n)"
    using aes_cbc_decrypt_loop_refines[OF assms(4,5), of "block ?e iv 16" ?e]
    by (simp add: aes_cbc_decrypt_blocks_def AES_KEY_LENGTH_def)
  also have "\<dots> = chunks m src n"
    unfolding e(1) by (rule aes.cbc_dec_enc) (simp_all add: chunks_length)
  finally show ?thesis by (metis concat_chunks)
qed

theorem aes_cbc_roundtrip_witness:
  "block (aes_cbc_decrypt_blocks 0x1000 0x1200 0x2000 0x1ff8 4
      (aes_cbc_encrypt_blocks 0x1000 0x1200 0x2000 0x2000 4 of_nat)) 0x1ff8 64 = block of_nat 0x2000 64"
  using aes_cbc_roundtrip[of "0x1000" "0x2000" 4 "0x1200" "0x2000" "0x1ff8" of_nat] by (simp add: apart_def)

end
