(* ===== verification/Words.thy ===== *)
theory Words
  imports Prelude
begin

unbundle bit_operations_syntax

text \<open>
  Words that are written as images of natural numbers: shifts, masks, casts and comparisons
  become division, remainder and comparison of the numbers.
\<close>

lemma drop_bit_nat_word:
  assumes "c < 2 ^ LENGTH('a)"
  shows "drop_bit k (of_nat c :: 'a::len word) = of_nat (c div 2 ^ k)"
proof -
  have "unat (drop_bit k (of_nat c :: 'a word)) = c div 2 ^ k"
    unfolding unat_drop_bit_eq using assms by (simp add: drop_bit_eq_div unat_of_nat take_bit_nat_eq_self)
  then show ?thesis by (metis of_nat_unat ucast_id)
qed

lemma and_mask_nat: "(of_nat c :: 'a::len word) AND mask n = of_nat (c mod 2 ^ n)"
proof -
  have "(of_nat c :: 'a word) AND mask n = take_bit n (of_nat c)" by (rule take_bit_eq_mask[symmetric])
  also have "\<dots> = of_nat (c mod 2 ^ n)" unfolding take_bit_of_nat unfolding take_bit_eq_mod ..
  finally show ?thesis .
qed

lemma and_low_nat:
  "(of_nat c :: 'a::len word) AND 0x3FF = of_nat (c mod 1024)" "(of_nat c :: 'a::len word) AND 0x3F = of_nat (c mod 64)"
  "(of_nat c :: 'a::len word) AND 0x1F = of_nat (c mod 32)" "(of_nat c :: 'a::len word) AND 0xF = of_nat (c mod 16)"
  "(of_nat c :: 'a::len word) AND 7 = of_nat (c mod 8)"
  using and_mask_nat[where 'a = 'a, of c 10] and_mask_nat[where 'a = 'a, of c 6] and_mask_nat[where 'a = 'a, of c 5]
    and_mask_nat[where 'a = 'a, of c 4] and_mask_nat[where 'a = 'a, of c 3]
  by (simp_all add: mask_eq_exp_minus_1)

lemma or_nat:
  assumes "a < 2 ^ k"
  shows "(of_nat (b * 2 ^ k) :: 'a::len word) OR of_nat a = of_nat (b * 2 ^ k + a)"
proof -
  have "take_bit k a = a" using assms by (simp add: take_bit_nat_eq_self)
  then have low: "bit a i \<Longrightarrow> i < k" for i by (metis bit_take_bit_iff)
  have "push_bit k b AND a = 0" by (intro bit_eqI) (auto simp: bit_simps dest!: low)
  then have "b * 2 ^ k + a = push_bit k b OR a" by (simp add: disjunctive_add_eq_or flip: push_bit_eq_mult)
  moreover have "(of_nat (push_bit k b OR a) :: 'a word) = of_nat (push_bit k b) OR of_nat a"
    by (rule bit_word_eqI) (auto simp: bit_simps)
  ultimately show ?thesis by (simp add: push_bit_eq_mult)
qed

lemma ucast_nat: "LENGTH('b) \<le> LENGTH('a) \<Longrightarrow> (ucast (of_nat c :: 'a::len word) :: 'b::len word) = of_nat c"
  by (rule bit_word_eqI) (auto simp: bit_simps)

lemma ucast_u8_nat: "c < 256 \<Longrightarrow> (ucast (of_nat c :: u8) :: u32) = of_nat c"
  "c < 65536 \<Longrightarrow> (ucast (of_nat c :: u16) :: u32) = of_nat c"
  by (simp_all add: unsigned_of_nat take_bit_nat_eq_self)

lemma u32_nat_le: "c < 2 ^ 32 \<Longrightarrow> (of_nat c :: u32) \<le> numeral k \<longleftrightarrow> c \<le> unat (numeral k :: u32)"
  "c < 2 ^ 32 \<Longrightarrow> numeral k \<le> (of_nat c :: u32) \<longleftrightarrow> unat (numeral k :: u32) \<le> c"
  "c < 2 ^ 32 \<Longrightarrow> (of_nat c :: u32) < numeral k \<longleftrightarrow> c < unat (numeral k :: u32)"
  by (simp_all add: word_le_nat_alt word_less_nat_alt unat_of_nat take_bit_nat_eq_self)

lemma u32_nat_0: "c < 2 ^ 32 \<Longrightarrow> (of_nat c :: u32) = 0 \<longleftrightarrow> c = 0"
  using word_of_nat_eq_small[where 'a = 32, of c 0] by simp

lemma u8_nat_le: "c < 256 \<Longrightarrow> (of_nat c :: u8) \<le> numeral k \<longleftrightarrow> c \<le> unat (numeral k :: u8)"
  by (simp_all add: word_le_nat_alt unat_of_nat take_bit_nat_eq_self)

end
