(* ===== verification/Charset.thy ===== *)
theory Charset
  imports Cstring Words
begin

unbundle bit_operations_syntax

text \<open>
  The UTF-8 and UTF-16 conversions of \<^verbatim>\<open>common_uboot/lib/charset.c\<close> and the conversion of
  bytes to hexadecimal digits and back of \<^verbatim>\<open>include/hexdump.h\<close>. The reference are the
  encodings of Unicode scalar values of RFC 3629 and RFC 2781.

  A conversion returns the list of the units that it writes from \<^verbatim>\<open>dest\<close> on, so the pointer it
  returns is \<^verbatim>\<open>dest\<close> plus the length of the list. The destination is taken not to overlap the source.
\<close>

section \<open>UTF-16 strings\<close>

definition load16 :: "ram \<Rightarrow> nat \<Rightarrow> u16" where
  "load16 m a = ucast (m a) OR push_bit 8 (ucast (m (a + 1)))"

definition store16 :: "ram \<Rightarrow> nat \<Rightarrow> u16 \<Rightarrow> ram" where
  "store16 m a w = m(a := ucast w, a + 1 := ucast (drop_bit 8 w))"

definition MAX_UTF8_PER_UTF16 :: nat where "MAX_UTF8_PER_UTF16 = 3"

partial_function (option) utf16_strlen_loop :: "ram \<Rightarrow> nat \<Rightarrow> nat \<Rightarrow> nat option" where
  "utf16_strlen_loop m inp i = (if load16 m (inp + 2 * i) \<noteq> 0 then utf16_strlen_loop m inp (i + 1) else Some i)"

definition utf16_strlen :: "ram \<Rightarrow> nat \<Rightarrow> nat option" where
  "utf16_strlen m inp = utf16_strlen_loop m inp 0"

fun utf16_strnlen_loop :: "ram \<Rightarrow> nat \<Rightarrow> nat \<Rightarrow> nat \<Rightarrow> nat" where
  "utf16_strnlen_loop m inp i 0 = i"
| "utf16_strnlen_loop m inp i (Suc count) =
    (if load16 m (inp + 2 * i) \<noteq> 0 then utf16_strnlen_loop m inp (i + 1) count else i)"

definition utf16_strnlen :: "ram \<Rightarrow> nat \<Rightarrow> nat \<Rightarrow> nat" where
  "utf16_strnlen m inp count = utf16_strnlen_loop m inp 0 count"

partial_function (option) utf16_strcpy_loop :: "ram \<Rightarrow> nat \<Rightarrow> nat \<Rightarrow> ram option" where
  "utf16_strcpy_loop m dest src =
    (if load16 m src \<noteq> 0 then utf16_strcpy_loop (store16 m dest (load16 m src)) (dest + 2) (src + 2)
     else Some (store16 m dest (load16 m src)))"

definition utf16_strcpy :: "ram \<Rightarrow> nat \<Rightarrow> nat \<Rightarrow> (ram \<times> nat) option" where
  "utf16_strcpy m dest src = map_option (\<lambda>m. (m, dest)) (utf16_strcpy_loop m dest src)"

text \<open>\<open>malloc\<close> is the allocator, which returns \<^const>\<open>NULL\<close> when it has no memory.\<close>

definition utf16_strdup :: "(nat \<Rightarrow> nat) \<Rightarrow> ram \<Rightarrow> nat \<Rightarrow> (ram \<times> nat) option" where
  "utf16_strdup malloc m s =
    (if s = NULL then Some (m, NULL)
     else case utf16_strlen m s of
       None \<Rightarrow> None
     | Some n \<Rightarrow>
         (let new = malloc ((n + 1) * 2)
          in if new = NULL then Some (m, NULL)
             else map_option (\<lambda>(m, _). (m, new)) (utf16_strcpy m new s)))"

section \<open>UTF-16 to UTF-8\<close>

text \<open>The loop, at the source pointer, with the remaining count and \<^verbatim>\<open>code_high\<close>.\<close>

fun utf16_to_utf8_loop :: "ram \<Rightarrow> nat \<Rightarrow> nat \<Rightarrow> u32 \<Rightarrow> u8 list" where
  "utf16_to_utf8_loop m src 0 code_high = []"
| "utf16_to_utf8_loop m src (Suc n) code_high = (
     let code = ucast (load16 m src) :: u32
     in if code_high \<noteq> 0 then
          (if code \<ge> 0xDC00 \<and> code \<le> 0xDFFF then
             (let code = push_bit 10 (code_high - 0xD800) + (code - 0xDC00) + 0x10000
              in [ucast (drop_bit 18 code OR 0xF0), ucast ((drop_bit 12 code AND 0x3F) OR 0x80),
                  ucast ((drop_bit 6 code AND 0x3F) OR 0x80), ucast ((code AND 0x3F) OR 0x80)] @
                 utf16_to_utf8_loop m (src + 2) n 0)
           else 0x3F # utf16_to_utf8_loop m src n 0)
        else if code \<le> 0x007F then ucast code # utf16_to_utf8_loop m (src + 2) n 0
        else if code \<le> 0x07FF then
          [ucast (drop_bit 6 code OR 0xC0), ucast ((code AND 0x3F) OR 0x80)] @
          utf16_to_utf8_loop m (src + 2) n 0
        else if code \<ge> 0xD800 \<and> code \<le> 0xDBFF then utf16_to_utf8_loop m (src + 2) n code
        else if code \<ge> 0xDC00 \<and> code \<le> 0xDFFF then 0x3F # utf16_to_utf8_loop m (src + 2) n 0
        else if code < 0x10000 then
          [ucast (drop_bit 12 code OR 0xE0), ucast ((drop_bit 6 code AND 0x3F) OR 0x80),
           ucast ((code AND 0x3F) OR 0x80)] @
          utf16_to_utf8_loop m (src + 2) n 0
        else
          [ucast (drop_bit 18 code OR 0xF0), ucast ((drop_bit 12 code AND 0x3F) OR 0x80),
           ucast ((drop_bit 6 code AND 0x3F) OR 0x80), ucast ((code AND 0x3F) OR 0x80)] @
          utf16_to_utf8_loop m (src + 2) n 0)"

definition utf16_to_utf8 :: "ram \<Rightarrow> nat \<Rightarrow> nat \<Rightarrow> u8 list" where
  "utf16_to_utf8 m src n = utf16_to_utf8_loop m src n 0"

section \<open>UTF-8 to UTF-16\<close>

text \<open>
  The loop over the extension bytes: from the source pointer, the remaining count, the number of
  extension bytes left and the code so far, to the new source pointer, count and code.
\<close>

fun utf8_extension :: "ram \<Rightarrow> nat \<Rightarrow> nat \<Rightarrow> nat \<Rightarrow> u32 \<Rightarrow> nat \<times> nat \<times> u32" where
  "utf8_extension m src n 0 code = (src, n, code)"
| "utf8_extension m src 0 (Suc extension_bytes) code = (src, 0, code)"
| "utf8_extension m src (Suc n) (Suc extension_bytes) code =
     (if m src AND 0xc0 = 0x80
      then utf8_extension m (src + 1) n extension_bytes (push_bit 6 code OR ucast (m src AND 0x3f))
      else (src + 1, n, 0x3F))"

text \<open>The first byte: source pointer, remaining count, code and number of extension bytes.\<close>

definition utf8_first :: "ram \<Rightarrow> nat \<Rightarrow> nat \<Rightarrow> nat \<times> nat \<times> u32 \<times> nat" where
  "utf8_first m src n =
     (if m src \<le> 0x7f then
        (let code = ucast (m src); n = (if code = 0 then 0 else n) in (src + 1, n, code, 0))
      else if m src \<le> 0xbf then (src, n, 0x3F, 0)
      else if m src \<le> 0xdf then (src + 1, n, ucast (m src AND 0x1f), 1)
      else if m src \<le> 0xef then (src + 1, n, ucast (m src AND 0x0f), 2)
      else if m src \<le> 0xf7 then (src + 1, n, ucast (m src AND 0x07), 3)
      else (src, n, 0x3F, 0))"

lemma utf8_extension_le: "utf8_extension m src n e code = (src', n', code') \<Longrightarrow> n' \<le> n"
proof (induction m src n e code rule: utf8_extension.induct)
  case (3 m src n e code)
  then show ?case by (auto split: if_splits dest: "3.IH"(1))
qed auto

lemma utf8_first_le: "utf8_first m src n = (src', n', code, e) \<Longrightarrow> n' \<le> n"
  by (auto simp: utf8_first_def Let_def split: if_splits)

function utf8_to_utf16 :: "ram \<Rightarrow> nat \<Rightarrow> nat \<Rightarrow> u16 list" where
  "utf8_to_utf16 m src n =
     (if n = 0 then []
      else case utf8_first m src (n - 1) of (src, n, code, extension_bytes) \<Rightarrow>
           case utf8_extension m src n extension_bytes code of (src, n, code) \<Rightarrow>
             (if code < 0x10000 then [ucast code]
              else [ucast (drop_bit 10 code + 0xd7c0), ucast ((code AND 0x3ff) OR 0xdc00)]) @
             utf8_to_utf16 m src n)"
  by pat_completeness auto
termination
  by (relation "measure (\<lambda>(m, src, n). n)")
    (auto dest!: utf8_first_le[OF sym] utf8_extension_le[OF sym])

declare utf8_to_utf16.simps [simp del]

section \<open>Hexadecimal digits\<close>

definition hex_asc :: "u8 list" where
  "hex_asc = [48, 49, 50, 51, 52, 53, 54, 55, 56, 57, 97, 98, 99, 100, 101, 102]"

definition hex_asc_lo :: "u8 \<Rightarrow> u8" where "hex_asc_lo x = hex_asc ! unat (x AND 0x0f)"
definition hex_asc_hi :: "u8 \<Rightarrow> u8" where "hex_asc_hi x = hex_asc ! unat (drop_bit 4 (x AND 0xf0))"

definition hex_byte_pack :: "u8 \<Rightarrow> u8 list" where
  "hex_byte_pack byte = [hex_asc_hi byte, hex_asc_lo byte]"

definition hex_to_bin :: "u8 \<Rightarrow> int" where
  "hex_to_bin ch =
     (if ch \<ge> 48 \<and> ch \<le> 57 then uint ch - 48
      else let ch = tolower ch
           in if ch \<ge> 97 \<and> ch \<le> 102 then uint ch - 97 + 10 else -1)"

text \<open>The bytes written and the return value.\<close>

fun hex2bin :: "u8 list \<Rightarrow> nat \<Rightarrow> u8 list \<times> int" where
  "hex2bin src 0 = ([], 0)"
| "hex2bin src (Suc count) =
     (let hi = hex_to_bin (src ! 0); lo = hex_to_bin (src ! 1)
      in if hi < 0 \<or> lo < 0 then ([], -1)
         else apfst (Cons (word_of_int (push_bit 4 hi OR lo))) (hex2bin (drop 2 src) count))"

fun bin2hex :: "u8 list \<Rightarrow> nat \<Rightarrow> u8 list" where
  "bin2hex src 0 = []"
| "bin2hex src (Suc count) = hex_byte_pack (hd src) @ bin2hex (tl src) count"

section \<open>Unicode\<close>

text \<open>The encodings of a scalar value.\<close>

definition scalar :: "nat \<Rightarrow> bool" where
  "scalar c \<longleftrightarrow> c < 0xD800 \<or> 0xDFFF < c \<and> c < 0x110000"

definition utf8_bytes :: "nat \<Rightarrow> u8 list" where
  "utf8_bytes c = map of_nat
     (if c < 0x80 then [c]
      else if c < 0x800 then [0xC0 + c div 64, 0x80 + c mod 64]
      else if c < 0x10000 then [0xE0 + c div 4096, 0x80 + c div 64 mod 64, 0x80 + c mod 64]
      else [0xF0 + c div 262144, 0x80 + c div 4096 mod 64, 0x80 + c div 64 mod 64, 0x80 + c mod 64])"

definition utf16_units :: "nat \<Rightarrow> u16 list" where
  "utf16_units c = map of_nat
     (if c < 0x10000 then [c] else [0xD800 + (c - 0x10000) div 1024, 0xDC00 + (c - 0x10000) mod 1024])"

definition units16 :: "ram \<Rightarrow> nat \<Rightarrow> nat \<Rightarrow> u16 list" where
  "units16 m a n = map (\<lambda>i. load16 m (a + 2 * i)) [0..<n]"

section \<open>Conversion lemmas\<close>

lemma units16_Suc: "units16 m a (Suc n) = load16 m a # units16 m (a + 2) n"
  by (simp add: units16_def upt_conv_Cons map_Suc_upt[symmetric] comp_def algebra_simps del: upt_Suc)

lemma or_lead:
  "x < 64 \<Longrightarrow> ucast ((of_nat x :: u32) OR 0xC0) = (of_nat (0xC0 + x) :: u8)"
  "x < 64 \<Longrightarrow> ucast ((of_nat x :: u32) OR 0x80) = (of_nat (0x80 + x) :: u8)"
  "x < 32 \<Longrightarrow> ucast ((of_nat x :: u32) OR 0xE0) = (of_nat (0xE0 + x) :: u8)"
  "x < 16 \<Longrightarrow> ucast ((of_nat x :: u32) OR 0xF0) = (of_nat (0xF0 + x) :: u8)"
  using or_nat[where 'a = 32, of x 6 3] or_nat[where 'a = 32, of x 6 2] or_nat[where 'a = 32, of x 5 7]
    or_nat[where 'a = 32, of x 4 15]
    ucast_nat[where 'a = 32 and 'b = 8, of "0xC0 + x"] ucast_nat[where 'a = 32 and 'b = 8, of "0x80 + x"]
    ucast_nat[where 'a = 32 and 'b = 8, of "0xE0 + x"] ucast_nat[where 'a = 32 and 'b = 8, of "0xF0 + x"]
  by (simp_all add: or.commute)

lemmas utf8_simps = ucast_u8_nat ucast_nat u32_nat_le drop_bit_nat_word and_low_nat or_lead

lemma utf16_to_utf8_basic:
  assumes "load16 m a = of_nat c" and "c < 0x10000" and "scalar c"
  shows "utf16_to_utf8_loop m a (Suc n) 0 = utf8_bytes c @ utf16_to_utf8_loop m (a + 2) n 0"
  using assms by (auto simp: utf8_simps Let_def utf8_bytes_def scalar_def simp del: of_nat_add)

lemma utf16_to_utf8_pair:
  assumes "load16 m a = of_nat (0xD800 + (c - 0x10000) div 1024)"
    and "load16 m (a + 2) = of_nat (0xDC00 + (c - 0x10000) mod 1024)"
    and "0x10000 \<le> c" and "c < 0x110000"
  shows "utf16_to_utf8_loop m a (Suc (Suc n)) 0 = utf8_bytes c @ utf16_to_utf8_loop m (a + 4) n 0"
proof -
  define h where "h = (c - 0x10000) div 1024"
  define l where "l = (c - 0x10000) mod 1024"
  have c: "c = 1024 * h + l + 0x10000" "h < 1024" "l < 1024"
    using assms(3,4) unfolding h_def l_def by auto
  have hi: "ucast (load16 m a) = (of_nat (0xD800 + h) :: u32)" "ucast (load16 m (a + 2)) = (of_nat (0xDC00 + l) :: u32)"
    using assms(1,2) c by (simp_all only: flip: h_def l_def, simp_all add: ucast_u8_nat del: of_nat_add)
  have code: "push_bit 10 ((of_nat (0xD800 + h) :: u32) - 0xD800) + (of_nat (0xDC00 + l) - 0xDC00) + 0x10000 = of_nat c"
    unfolding c(1) by (simp add: push_bit_eq_mult)
  have nz: "(of_nat (0xD800 + h) :: u32) \<noteq> 0" using c u32_nat_0[of "0xD800 + h"] by simp
  have "utf16_to_utf8_loop m a (Suc (Suc n)) 0 = utf16_to_utf8_loop m (a + 2) (Suc n) (of_nat (0xD800 + h))"
    using c by (simp add: hi Let_def u32_nat_le del: of_nat_add)
  also have "\<dots> = utf8_bytes c @ utf16_to_utf8_loop m (a + 4) n 0"
  proof -
    have r: "(of_nat (0xDC00 + l) :: u32) \<ge> 0xDC00 \<and> (of_nat (0xDC00 + l) :: u32) \<le> 0xDFFF"
      using c(3) by (simp add: u32_nat_le del: of_nat_add)
    have e: "a + 2 + 2 = a + 4" by simp
    show ?thesis
      unfolding utf16_to_utf8_loop.simps Let_def hi(2) if_P[OF nz] if_P[OF r] code e
      using assms(3,4) by (simp add: utf8_simps utf8_bytes_def del: of_nat_add)
  qed
  finally show ?thesis .
qed

lemma extension_byte:
  assumes "y < 64"
  shows "(of_nat (0x80 + y) :: u8) AND 0xc0 = 0x80"
    and "push_bit 6 (of_nat k :: u32) OR ucast ((of_nat (0x80 + y) :: u8) AND 0x3f) = of_nat (64 * k + y)"
proof -
  have "(of_nat y :: u8) AND 0xC0 = of_nat (y mod 64) AND 0xC0" using assms by simp
  also have "\<dots> = of_nat y AND (0x3F AND 0xC0)" unfolding and_low_nat(2)[symmetric] by (rule and.assoc)
  finally have y: "(of_nat y :: u8) AND 0xC0 = 0" by simp
  have "(of_nat (0x80 + y) :: u8) = 0x80 OR of_nat y" using or_nat[where 'a = 8, of y 6 2] assms by simp
  then show "(of_nat (0x80 + y) :: u8) AND 0xc0 = 0x80" using y by (simp add: bit.conj_disj_distrib2)
  have "(of_nat (0x80 + y) :: u8) AND 0x3f = of_nat y"
    unfolding and_low_nat using assms by (simp add: mod_add_eq[of 128 64, symmetric])
  then show "push_bit 6 (of_nat k :: u32) OR ucast ((of_nat (0x80 + y) :: u8) AND 0x3f) = of_nat (64 * k + y)"
    using or_nat[where 'a = 32, of y 6 k] assms by (simp add: ucast_u8_nat push_bit_eq_mult mult.commute)
qed

lemma utf8_extension_Suc:
  "m src = of_nat (0x80 + y) \<Longrightarrow> y < 64 \<Longrightarrow>
    utf8_extension m src (Suc n) (Suc e) (of_nat k) = utf8_extension m (src + 1) n e (of_nat (64 * k + y))"
  by (simp only: utf8_extension.simps extension_byte) simp

lemma lead_mods:
  "x < 32 \<Longrightarrow> (192 + x) mod 32 = (x :: nat)" "x < 16 \<Longrightarrow> (224 + x) mod 16 = (x :: nat)"
  "x < 8 \<Longrightarrow> (240 + x) mod 8 = (x :: nat)"
  using mod_mult_self3[of 6 32 x] mod_mult_self3[of 14 16 x] mod_mult_self3[of 30 8 x] by simp_all

lemma lead_byte:
  "x < 128 \<Longrightarrow> x \<noteq> 0 \<Longrightarrow> m src = of_nat x \<Longrightarrow> utf8_first m src n = (src + 1, n, of_nat x, 0)"
  "x < 32 \<Longrightarrow> m src = of_nat (0xC0 + x) \<Longrightarrow> utf8_first m src n = (src + 1, n, of_nat x, 1)"
  "x < 16 \<Longrightarrow> m src = of_nat (0xE0 + x) \<Longrightarrow> utf8_first m src n = (src + 1, n, of_nat x, 2)"
  "x < 8 \<Longrightarrow> m src = of_nat (0xF0 + x) \<Longrightarrow> utf8_first m src n = (src + 1, n, of_nat x, 3)"
  by (simp_all add: utf8_first_def u8_nat_le and_low_nat ucast_u8_nat Let_def u32_nat_0 lead_mods
      del: of_nat_add)


lemma surrogates:
  assumes "0x10000 \<le> c" and "c < 0x110000"
  shows "ucast (drop_bit 10 (of_nat c :: u32) + 0xd7c0) = (of_nat (0xD800 + (c - 0x10000) div 1024) :: u16)"
    and "ucast (((of_nat c :: u32) AND 0x3ff) OR 0xdc00) = (of_nat (0xDC00 + (c - 0x10000) mod 1024) :: u16)"
proof -
  define d where "d = c - 0x10000"
  have d: "c = d + 64 * 1024" using assms(1) by (simp add: d_def)
  have "drop_bit 10 (of_nat c :: u32) + 0xd7c0 = of_nat (c div 1024 + 0xd7c0)"
    using assms(2) by (simp add: drop_bit_nat_word)
  moreover have "c div 1024 + 0xd7c0 = 0xD800 + d div 1024" unfolding d by simp
  ultimately show "ucast (drop_bit 10 (of_nat c :: u32) + 0xd7c0) = (of_nat (0xD800 + (c - 0x10000) div 1024) :: u16)"
    by (simp add: ucast_nat flip: d_def del: of_nat_add)
  have "c mod 1024 = d mod 1024" unfolding d by (rule mod_mult_self1)
  then have "((of_nat c :: u32) AND 0x3ff) OR 0xdc00 = of_nat (0xDC00 + d mod 1024)"
    using or_nat[where 'a = 32, of "d mod 1024" 10 55] by (simp add: and_low_nat or.commute)
  then show "ucast (((of_nat c :: u32) AND 0x3ff) OR 0xdc00) = (of_nat (0xDC00 + (c - 0x10000) mod 1024) :: u16)"
    by (simp add: ucast_nat flip: d_def del: of_nat_add)
qed

text \<open>Decoding the bytes of one scalar value gives its units.\<close>

lemma utf8_decode_one:
  assumes "scalar c" and "c \<noteq> 0" and "block m a (length (utf8_bytes c)) = utf8_bytes c"
  shows "utf8_to_utf16 m a (length (utf8_bytes c) + n) = utf16_units c @ utf8_to_utf16 m (a + length (utf8_bytes c)) n"
proof -
  have m: "m (a + i) = utf8_bytes c ! i" if "i < length (utf8_bytes c)" for i
    using that nth_block[of i "length (utf8_bytes c)" m a] assms(3) by simp
  consider "c < 0x80" | "0x80 \<le> c" "c < 0x800" | "0x800 \<le> c" "c < 0x10000" | "0x10000 \<le> c" "c < 0x110000"
    using assms(1) by (force simp: scalar_def)
  then show ?thesis
  proof cases
    case 1
    then have "m a = of_nat c" using m[of 0] by (simp add: utf8_bytes_def)
    then show ?thesis using 1 assms(2)
      by (subst utf8_to_utf16.simps) (simp add: utf8_bytes_def utf16_units_def lead_byte u32_nat_le ucast_nat)
  next
    case 2
    have b: "m a = of_nat (0xC0 + c div 64)" "m (a + 1) = of_nat (0x80 + c mod 64)"
      using m[of 0] m[of 1] 2 by (simp_all add: utf8_bytes_def)
    have f: "utf8_first m a (Suc n) = (a + 1, Suc n, of_nat (c div 64), 1)" using b(1) 2 by (intro lead_byte) auto
    have "utf8_extension m (a + 1) (Suc n) 1 (of_nat (c div 64)) = (a + 2, n, of_nat c)"
      using utf8_extension_Suc[of m "a + 1" "c mod 64" n 0 "c div 64"] b(2) by simp
    then show ?thesis using 2 f
      by (subst utf8_to_utf16.simps) (simp add: utf8_bytes_def utf16_units_def u32_nat_le ucast_nat del: utf8_extension.simps)
  next
    case 3
    have b: "m a = of_nat (0xE0 + c div 4096)" "m (a + 1) = of_nat (0x80 + c div 64 mod 64)"
      "m (a + 1 + 1) = of_nat (0x80 + c mod 64)"
      using m[of 0] m[of 1] m[of 2] 3 by (simp_all add: utf8_bytes_def)
    have f: "utf8_first m a (Suc (Suc n)) = (a + 1, Suc (Suc n), of_nat (c div 4096), Suc (Suc 0))"
      using b(1) 3 lead_byte(3)[of "c div 4096" m a "Suc (Suc n)"] by (simp add: numeral_2_eq_2)
    have c: "64 * (c div 4096) + c div 64 mod 64 = c div 64" by (simp add: div_mult2_eq[of c 64 64, simplified])
    have "utf8_extension m (a + 1) (Suc (Suc n)) (Suc (Suc 0)) (of_nat (c div 4096)) = (Suc (Suc (Suc a)), n, of_nat c)"
      using b utf8_extension_Suc[of m "a + 1" "c div 64 mod 64" "Suc n" "Suc 0" "c div 4096"]
        utf8_extension_Suc[of m "a + 1 + 1" "c mod 64" n 0 "c div 64"] by (simp add: c)
    then show ?thesis using 3 f
      by (subst utf8_to_utf16.simps) (simp add: utf8_bytes_def utf16_units_def u32_nat_le ucast_nat del: utf8_extension.simps)
  next
    case 4
    have b: "m a = of_nat (0xF0 + c div 262144)" "m (a + 1) = of_nat (0x80 + c div 4096 mod 64)"
      "m (a + 1 + 1) = of_nat (0x80 + c div 64 mod 64)" "m (a + 1 + 1 + 1) = of_nat (0x80 + c mod 64)"
      using m[of 0] m[of 1] m[of 2] m[of "Suc (Suc (Suc 0))"] 4 by (simp_all add: utf8_bytes_def)
    have f: "utf8_first m a (Suc (Suc (Suc n))) = (a + 1, Suc (Suc (Suc n)), of_nat (c div 262144), Suc (Suc (Suc 0)))"
      using b(1) 4 lead_byte(4)[of "c div 262144" m a "Suc (Suc (Suc n))"] by (simp add: numeral_3_eq_3)
    have c: "64 * (c div 262144) + c div 4096 mod 64 = c div 4096" "64 * (c div 4096) + c div 64 mod 64 = c div 64"
      by (simp_all add: div_mult2_eq[of c 64 64, simplified] div_mult2_eq[of c 4096 64, simplified])
    have "utf8_extension m (a + 1) (Suc (Suc (Suc n))) (Suc (Suc (Suc 0))) (of_nat (c div 262144)) = (Suc (Suc (Suc (Suc a))), n, of_nat c)"
      using b utf8_extension_Suc[of m "a + 1" "c div 4096 mod 64" "Suc (Suc n)" "Suc (Suc 0)" "c div 262144"]
        utf8_extension_Suc[of m "a + 1 + 1" "c div 64 mod 64" "Suc n" "Suc 0" "c div 4096"]
        utf8_extension_Suc[of m "a + 1 + 1 + 1" "c mod 64" n 0 "c div 64"] by (simp add: c)
    then show ?thesis using 4 f surrogates[of c]
      by (subst utf8_to_utf16.simps) (simp add: utf8_bytes_def utf16_units_def u32_nat_le del: of_nat_add utf8_extension.simps)
  qed
qed


lemma length_utf16_units: "length (utf16_units c) = (if c < 0x10000 then 1 else 2)"
  by (simp add: utf16_units_def)

lemma units16_append: "units16 m a (n + k) = units16 m a n @ units16 m (a + 2 * n) k"
proof (induction n arbitrary: a)
  case (Suc n)
  then show ?case using Suc.IH[of "a + 2"] by (simp add: units16_Suc add.assoc)
qed (simp add: units16_def)

lemma length_units16 [simp]: "length (units16 m a n) = n"
  by (simp add: units16_def)

lemma utf16_encode_one:
  assumes "scalar c" and "units16 m a (length (utf16_units c)) = utf16_units c"
  shows "utf16_to_utf8_loop m a (length (utf16_units c) + n) 0 =
    utf8_bytes c @ utf16_to_utf8_loop m (a + 2 * length (utf16_units c)) n 0"
proof (cases "c < 0x10000")
  case True
  then have "load16 m a = of_nat c" using assms(2) by (simp add: utf16_units_def units16_Suc)
  with True assms(1) utf16_to_utf8_basic[of m a c n] show ?thesis by (simp add: length_utf16_units)
next
  case False
  then have "load16 m a = of_nat (0xD800 + (c - 0x10000) div 1024)"
    "load16 m (a + 2) = of_nat (0xDC00 + (c - 0x10000) mod 1024)"
    using assms(2) by (simp_all add: utf16_units_def units16_Suc numeral_2_eq_2)
  with False assms(1) utf16_to_utf8_pair[of m a c n] show ?thesis
    by (simp add: length_utf16_units scalar_def del: utf16_to_utf8_loop.simps)
qed

lemma utf16_encode_all:
  "\<forall>c \<in> set cs. scalar c \<Longrightarrow> u = concat (map utf16_units cs) \<Longrightarrow> units16 m a (length u) = u \<Longrightarrow>
    utf16_to_utf8_loop m a (length u) 0 = concat (map utf8_bytes cs)"
proof (induction cs arbitrary: a u)
  case (Cons c cs)
  let ?v = "concat (map utf16_units cs)"
  have u: "u = utf16_units c @ ?v" using Cons.prems by simp
  have "units16 m a (length (utf16_units c)) = utf16_units c"
    "units16 m (a + 2 * length (utf16_units c)) (length ?v) = ?v"
    using Cons.prems(3) unfolding u length_append units16_append by simp_all
  then show ?case
    using Cons utf16_encode_one[of c m a "length ?v"] by (simp del: utf16_to_utf8_loop.simps)
qed simp

lemma utf8_decode_all:
  "\<forall>c \<in> set cs. scalar c \<and> c \<noteq> 0 \<Longrightarrow> b = concat (map utf8_bytes cs) \<Longrightarrow> block m a (length b) = b \<Longrightarrow>
    utf8_to_utf16 m a (length b) = concat (map utf16_units cs)"
proof (induction cs arbitrary: a b)
  case Nil
  then show ?case by (simp add: utf8_to_utf16.simps)
next
  case (Cons c cs)
  let ?v = "concat (map utf8_bytes cs)"
  have b: "b = utf8_bytes c @ ?v" using Cons.prems by simp
  have "block m a (length (utf8_bytes c)) = utf8_bytes c"
    "block m (a + length (utf8_bytes c)) (length ?v) = ?v"
    using Cons.prems(3) unfolding b length_append block_add by simp_all
  then show ?case using Cons utf8_decode_one[of c m a "length ?v"] by simp
qed

lemma utf16_to_utf8_loop_bound:
  "length (utf16_to_utf8_loop m src n h) \<le> 3 * n + (if h = 0 then 0 else 3)"
proof (induction n arbitrary: src h)
  case (Suc n)
  have s: "length (utf16_to_utf8_loop m a n 0) \<le> 3 * n" for a using Suc.IH[of a 0] by simp
  have g: "length (utf16_to_utf8_loop m a n g) \<le> 3 + 3 * n" for a g using Suc.IH[of a g] by (simp split: if_splits)
  have c: "(ucast (load16 m src) :: u32) < 0x10000"
  proof -
    have "unat (load16 m src) < 2 ^ LENGTH(16)" by (rule unsigned_less)
    then have "(of_nat (unat (load16 m src)) :: u32) < 0x10000"
      by (subst u32_nat_le(3)) simp_all
    then show ?thesis by simp
  qed
  show ?case
    unfolding utf16_to_utf8_loop.simps Let_def using c s[of src] s[of "src + 2"] g[of "src + 2" "ucast (load16 m src)"]
    by (simp del: utf16_to_utf8_loop.simps)
qed simp

lemma hex_to_bin_digits: "map hex_to_bin hex_asc = map int [0..<16]"
  by (simp add: hex_asc_def hex_to_bin_def tolower_def isupper_iff upt_rec)

lemma hex_to_bin_digit: "i < 16 \<Longrightarrow> hex_to_bin (hex_asc ! i) = int i"
proof -
  assume "i < 16"
  moreover have "length hex_asc = 16" by (simp add: hex_asc_def)
  ultimately show ?thesis
    using arg_cong[OF hex_to_bin_digits, of "\<lambda>xs. xs ! i"] by (simp del: upt_rec_numeral)
qed

lemma hex_asc_digits:
  "hex_asc_lo b = hex_asc ! (unat b mod 16)" "hex_asc_hi b = hex_asc ! (unat b div 16)"
proof -
  have k: "unat b < 2 ^ LENGTH(8)" by (rule unsigned_less)
  then have d: "unat b div 16 < 16" by simp
  have b: "b = of_nat (unat b)" by simp
  have "b AND 0x0f = of_nat (unat b mod 16)" by (subst b) (rule and_low_nat)
  then show "hex_asc_lo b = hex_asc ! (unat b mod 16)"
    by (simp add: hex_asc_lo_def unat_of_nat take_bit_nat_eq_self)
  have "drop_bit 4 (b AND 0xf0) = drop_bit 4 b AND 0xf" by (simp add: drop_bit_and)
  also have "drop_bit 4 b = of_nat (unat b div 16)" using drop_bit_nat_word[where 'a = 8, of "unat b" 4] k by simp
  finally show "hex_asc_hi b = hex_asc ! (unat b div 16)"
    unfolding hex_asc_hi_def and_low_nat using d by (simp add: unat_of_nat take_bit_nat_eq_self)
qed

lemma hex_nibbles: "word_of_int (push_bit 4 (int (unat b div 16)) OR int (unat b mod 16)) = (b :: u8)"
proof -
  have "word_of_int (push_bit 4 (int (unat b div 16)) OR int (unat b mod 16)) =
      (word_of_int (push_bit 4 (int (unat b div 16))) OR word_of_int (int (unat b mod 16)) :: u8)"
    by (rule bit_word_eqI) (simp add: bit_simps)
  also have "\<dots> = of_nat (unat b div 16 * 2 ^ 4 + unat b mod 16)"
    using or_nat[where 'a = 8, of "unat b mod 16" 4 "unat b div 16"] by (simp add: push_bit_eq_mult)
  also have "unat b div 16 * 2 ^ 4 + unat b mod 16 = unat b" by simp
  finally show ?thesis by simp
qed

lemma hex2bin_bin2hex: "hex2bin (bin2hex xs (length xs)) (length xs) = (xs, 0)"
proof (induction xs)
  case (Cons x xs)
  have "unat x < 2 ^ LENGTH(8)" by (rule unsigned_less)
  then have "unat x div 16 < 16" by simp
  then show ?case using Cons
    by (simp add: hex_byte_pack_def hex_asc_digits hex_to_bin_digit hex_nibbles)
qed simp

section \<open>Properties\<close>

text \<open>
  C35. C92: For a UTF-16 string of Unicode scalar values other than NUL, the conversion to UTF-8 gives the
  bytes that RFC 3629 prescribes, and converting these back gives the original string.
\<close>

theorem utf16_utf8_roundtrip:
  assumes "\<forall>c \<in> set cs. scalar c \<and> c \<noteq> 0" and "u = concat (map utf16_units cs)"
    and "units16 m src (length u) = u"
    and "block m' dest (length (utf16_to_utf8 m src (length u))) = utf16_to_utf8 m src (length u)"
  shows "utf16_to_utf8 m src (length u) = concat (map utf8_bytes cs) \<and>
    utf8_to_utf16 m' dest (length (utf16_to_utf8 m src (length u))) = u"
proof -
  have "utf16_to_utf8 m src (length u) = concat (map utf8_bytes cs)"
    using assms utf16_encode_all[of cs u m src] by (simp add: utf16_to_utf8_def)
  then show ?thesis using assms utf8_decode_all[of cs _ m' dest] by simp
qed

definition sample16 :: ram where "sample16 a = [0xAC, 0x20, 0x3D, 0xD8, 0x00, 0xDE] ! a"

definition sample8 :: ram where "sample8 a = [0xE2, 0x82, 0xAC, 0xF0, 0x9F, 0x98, 0x80] ! a"

theorem utf16_utf8_roundtrip_witness:
  "utf16_to_utf8 sample16 0 3 = [0xE2, 0x82, 0xAC, 0xF0, 0x9F, 0x98, 0x80] \<and>
    utf8_to_utf16 sample8 0 7 = [0x20AC, 0xD83D, 0xDE00]"
proof -
  let ?u = "[0x20AC, 0xD83D, 0xDE00 :: u16]"
  have s: "\<forall>c \<in> set [0x20AC, 0x1F600]. scalar c \<and> c \<noteq> 0" by (simp add: scalar_def)
  then have s': "\<forall>c \<in> set [0x20AC, 0x1F600]. scalar c" by simp
  have u: "?u = concat (map utf16_units [0x20AC, 0x1F600])" by (simp add: utf16_units_def)
  have m: "units16 sample16 0 (length ?u) = ?u"
    by (simp add: units16_def load16_def sample16_def)
  have e: "utf16_to_utf8 sample16 0 (length ?u) = [0xE2, 0x82, 0xAC, 0xF0, 0x9F, 0x98, 0x80]"
    unfolding utf16_to_utf8_def utf16_encode_all[OF s' u m] by (simp add: utf8_bytes_def)
  have b: "block sample8 0 (length (utf16_to_utf8 sample16 0 (length ?u))) = utf16_to_utf8 sample16 0 (length ?u)"
    unfolding e by (simp add: block_def sample8_def upt_rec)
  have l: "length ?u = 3" "length [0xE2, 0x82, 0xAC, 0xF0, 0x9F, 0x98, 0x80 :: u8] = 7" by simp_all
  have "utf8_to_utf16 sample8 0 7 = ?u" using utf16_utf8_roundtrip[OF s u m b] unfolding e unfolding l by (rule conjunct2)
  then show ?thesis using e unfolding l by blast
qed

text \<open>
  C36. C93: Whatever the input, also when it is not well-formed, the conversion to UTF-8 writes at most three
  bytes for each unit it is given, the size that callers allot.
\<close>

theorem utf16_to_utf8_fits: "length (utf16_to_utf8 m src n) \<le> MAX_UTF8_PER_UTF16 * n"
  using utf16_to_utf8_loop_bound[of m src n 0] by (simp add: utf16_to_utf8_def MAX_UTF8_PER_UTF16_def)

end
