(* ===== verification/Number.thy ===== *)
theory Number
  imports Charset
begin

unbundle bit_operations_syntax

text \<open>
  Printing and reading numbers: the decimal conversion and \<^verbatim>\<open>number\<close> of
  \<^verbatim>\<open>common_uboot/lib/vsprintf.c\<close> and the functions of \<^verbatim>\<open>common_uboot/lib/strto.c\<close>. The
  reference is positional notation.

  A function that fills a local buffer returns the list of the characters it puts there.
  \<^verbatim>\<open>unsigned long\<close> has 32 bits.
\<close>

section \<open>Decimal digits, least significant first\<close>

definition put_dec_trunc :: "u32 \<Rightarrow> u8 list" where
  "put_dec_trunc q = (
     let d1 = drop_bit 4 q AND 0xf;
         d2 = drop_bit 8 q AND 0xf;
         d3 = drop_bit 12 q;
         d0 = 6 * (d3 + d2 + d1) + (q AND 0xf);
         q = drop_bit 11 (d0 * 0xcd);
         d0 = d0 - 10 * q;
         d1 = q + 9 * d3 + 5 * d2 + d1
     in ucast (d0 + 48) #
       (if d1 \<noteq> 0 then
          (let q = drop_bit 11 (d1 * 0xcd);
               d1 = d1 - 10 * q;
               d2 = q + 2 * d2
           in ucast (d1 + 48) #
             (if d2 \<noteq> 0 \<or> d3 \<noteq> 0 then
                (let q = drop_bit 7 (d2 * 0xd);
                     d2 = d2 - 10 * q;
                     d3 = q + 4 * d3
                 in ucast (d2 + 48) #
                   (if d3 \<noteq> 0 then
                      (let q = drop_bit 11 (d3 * 0xcd);
                           d3 = d3 - 10 * q
                       in ucast (d3 + 48) # (if q \<noteq> 0 then [ucast (q + 48)] else []))
                    else []))
              else []))
        else []))"

definition put_dec_full :: "u32 \<Rightarrow> u8 list" where
  "put_dec_full q = (
     let d1 = drop_bit 4 q AND 0xf;
         d2 = drop_bit 8 q AND 0xf;
         d3 = drop_bit 12 q;
         d0 = 6 * (d3 + d2 + d1) + (q AND 0xf);
         q0 = drop_bit 11 (d0 * 0xcd);
         d0 = d0 - 10 * q0;
         d1 = q0 + 9 * d3 + 5 * d2 + d1;
         q1 = drop_bit 11 (d1 * 0xcd);
         d1 = d1 - 10 * q1;
         d2 = q1 + 2 * d2;
         q2 = drop_bit 7 (d2 * 0xd);
         d2 = d2 - 10 * q2;
         d3 = q2 + 4 * d3;
         q3 = drop_bit 11 (d3 * 0xcd);
         d3 = d3 - 10 * q3
     in [ucast (d0 + 48), ucast (d1 + 48), ucast (d2 + 48), ucast (d3 + 48), ucast (q3 + 48)])"

function put_dec :: "u64 \<Rightarrow> u8 list" where
  "put_dec num =
     (if num < 100000 then put_dec_trunc (ucast num)
      else put_dec_full (ucast (num mod 100000)) @ put_dec (num div 100000))"
  by pat_completeness auto
termination
proof (relation "measure unat")
  fix num :: u64 assume "\<not> num < 100000"
  then have "100000 \<le> unat num" by (simp add: word_less_nat_alt)
  then show "(num div 100000, num) \<in> measure unat" by (simp add: unat_div_distrib)
qed simp

declare put_dec.simps [simp del]

section \<open>Output with a limit\<close>

type_synonym sink = "ram \<times> nat"

definition ADDCH :: "nat \<Rightarrow> u8 \<Rightarrow> sink \<Rightarrow> sink" where
  "ADDCH lim ch = (\<lambda>(m, str). (if str < lim then m(str := ch) else m, str + 1))"

definition ZEROPAD :: int where "ZEROPAD = 1"
definition SIGN :: int where "SIGN = 2"
definition PLUS :: int where "PLUS = 4"
definition SPACE :: int where "SPACE = 8"
definition LEFT :: int where "LEFT = 16"
definition SMALL :: int where "SMALL = 32"
definition SPECIAL :: int where "SPECIAL = 64"

definition digits :: "u8 list" where
  "digits = [48, 49, 50, 51, 52, 53, 54, 55, 56, 57, 65, 66, 67, 68, 69, 70]"

text \<open>The loop for the bases 8 and 16.\<close>

function put_pow2 :: "int \<Rightarrow> u8 \<Rightarrow> u64 \<Rightarrow> u8 list" where
  "put_pow2 base locase num = (
     let msk = base - 1;
         shift = (if base = 16 then 4 else 3);
         num' = drop_bit shift num
     in (digits ! unat (ucast num AND word_of_int msk :: u8) OR locase) #
        (if num' \<noteq> 0 then put_pow2 base locase num' else []))"
  by pat_completeness auto
termination
proof (relation "measure (\<lambda>(_, _, num). unat num)")
  fix base :: int and locase :: u8 and num num' :: u64 and msk :: int and shift :: nat
  assume d: "shift = (if base = 16 then 4 else 3)" "num' = drop_bit shift num" "num' \<noteq> 0"
  then have "num \<noteq> 0" "0 < shift" by (auto split: if_splits)
  then have "unat num div 2 ^ shift < unat num" by (intro div_less_dividend one_less_power) (simp_all add: unat_gt_0)
  then show "((base, locase, num'), base, locase, num) \<in> measure (\<lambda>(_, _, num). unat num)"
    unfolding d(2) by (simp add: unat_drop_bit_eq) (simp add: drop_bit_eq_div)
qed simp

declare put_pow2.simps [simp del]

text \<open>The padding loops \<^verbatim>\<open>while (--size >= 0) ADDCH(buf, c)\<close>, with the new \<^verbatim>\<open>size\<close>.\<close>

function pad_size :: "nat \<Rightarrow> u8 \<Rightarrow> int \<Rightarrow> sink \<Rightarrow> int \<times> sink" where
  "pad_size lim c sz st = (let sz = sz - 1 in if sz \<ge> 0 then pad_size lim c sz (ADDCH lim c st) else (sz, st))"
  by pat_completeness auto
termination by (relation "measure (\<lambda>(_, _, sz, _). nat sz)") auto

declare pad_size.simps [simp del]

text \<open>The loop \<^verbatim>\<open>while (i <= --precision) ADDCH(buf, '0')\<close>.\<close>

function pad_precision :: "nat \<Rightarrow> int \<Rightarrow> int \<Rightarrow> sink \<Rightarrow> sink" where
  "pad_precision lim i precision st =
     (let precision = precision - 1 in if i \<le> precision then pad_precision lim i precision (ADDCH lim 48 st) else st)"
  by pat_completeness auto
termination by (relation "measure (\<lambda>(_, i, precision, _). nat (precision - i))") auto

declare pad_precision.simps [simp del]

text \<open>The loop \<^verbatim>\<open>while (--i >= 0) ADDCH(buf, tmp[i])\<close>.\<close>

fun put_tmp :: "nat \<Rightarrow> u8 list \<Rightarrow> nat \<Rightarrow> sink \<Rightarrow> sink" where
  "put_tmp lim tmp 0 st = st"
| "put_tmp lim tmp (Suc i) st = put_tmp lim tmp i (ADDCH lim (tmp ! i) st)"

definition number :: "nat \<Rightarrow> u64 \<Rightarrow> int \<Rightarrow> int \<Rightarrow> int \<Rightarrow> int \<Rightarrow> sink \<Rightarrow> sink" where
  "number lim num base sz precision type st = (
     let need_pfx = (type AND SPECIAL \<noteq> 0 \<and> base \<noteq> 10);
         locase = word_of_int (type AND SMALL) :: u8;
         type = (if type AND LEFT \<noteq> 0 then type AND NOT ZEROPAD else type);
         (sign, num, sz) =
           (if type AND SIGN \<noteq> 0 then
              (if sint num < 0 then (45, - num, sz - 1)
               else if type AND PLUS \<noteq> 0 then (43, num, sz - 1)
               else if type AND SPACE \<noteq> 0 then (32, num, sz - 1)
               else (0, num, sz))
            else (0 :: u8, num, sz));
         sz = (if need_pfx then (if base = 16 then sz - 1 - 1 else sz - 1) else sz);
         tmp = (if num = 0 then [48]
                else if base \<noteq> 10 then put_pow2 base locase num
                else put_dec num);
         i = int (length tmp);
         precision = (if i > precision then i else precision);
         sz = sz - precision;
         (sz, st) = (if type AND (ZEROPAD + LEFT) = 0 then pad_size lim 32 sz st else (sz, st));
         st = (if sign \<noteq> 0 then ADDCH lim sign st else st);
         st = (if need_pfx then
                 (let st = ADDCH lim 48 st
                  in if base = 16 then ADDCH lim (88 OR locase) st else st)
               else st);
         (sz, st) =
           (if type AND LEFT = 0
            then pad_size lim (if type AND ZEROPAD \<noteq> 0 then 48 else 32) sz st
            else (sz, st));
         st = pad_precision lim i precision st;
         st = put_tmp lim tmp (length tmp) st;
         (sz, st) = pad_size lim 32 sz st
     in st)"

section \<open>Positional notation\<close>

fun rdigits :: "nat \<Rightarrow> nat \<Rightarrow> nat list" where
  "rdigits b n = (if n < b \<or> b < 2 then [n] else n mod b # rdigits b (n div b))"

declare rdigits.simps [simp del]

lemma rdigits_step: "2 \<le> b \<Longrightarrow> rdigits b n = n mod b # (if n div b = 0 then [] else rdigits b (n div b))"
  by (subst rdigits.simps) (auto simp: div_eq_0_iff)

lemma rdigits_value: "2 \<le> b \<Longrightarrow> horner_sum (\<lambda>d. d) b (rdigits b n) = n"
proof (induction b n rule: rdigits.induct)
  case (1 b n)
  show ?case
  proof (cases "n < b")
    case True
    then show ?thesis by (simp add: rdigits.simps)
  next
    case False
    then have "horner_sum (\<lambda>d. d) b (rdigits b (n div b)) = n div b" using 1 by simp
    then show ?thesis using False "1.prems" by (subst rdigits.simps) simp
  qed
qed

lemma rdigits_less: "2 \<le> b \<Longrightarrow> d \<in> set (rdigits b n) \<Longrightarrow> d < b"
proof (induction b n rule: rdigits.induct)
  case (1 b n)
  then show ?case by (subst (asm) rdigits.simps) (auto split: if_splits)
qed

lemma rdigits_not_Nil [simp]: "rdigits b n \<noteq> []"
  by (subst rdigits.simps) simp

section \<open>The decimal conversion is positional notation\<close>

lemma div_10_205:
  assumes "x < 1020"
  shows "x * 205 div 2048 = x div (10 :: nat)"
proof -
  define k r where "k = x div 10" and "r = x mod 10"
  have "x = 10 * k + r" "r < 10" unfolding k_def r_def by simp_all
  then have "x * 205 = 2 * k + 205 * r + k * 2048" "2 * k + 205 * r < 2048" using assms by auto
  then show ?thesis by (simp add: k_def)
qed

lemma div_10_13:
  assumes "x < 64"
  shows "x * 13 div 128 = x div (10 :: nat)"
proof -
  define k r where "k = x div 10" and "r = x mod 10"
  have x: "x = 10 * k + r" "r < 10" unfolding k_def r_def by simp_all
  then have "k = 6 \<or> k \<le> 5" using assms by auto
  then have "2 * k + 13 * r < 128" using x assms by auto
  moreover have "x * 13 = 2 * k + 13 * r + k * 128" using x by simp
  ultimately show ?thesis by (simp add: k_def)
qed

lemma dec_quot:
  "x < 1020 \<Longrightarrow> drop_bit 11 (of_nat x * 0xcd :: u32) = of_nat (x div 10)"
  "x < 64 \<Longrightarrow> drop_bit 7 (of_nat x * 0xd :: u32) = of_nat (x div 10)"
  using drop_bit_nat_word[where 'a = 32, of "x * 205" 11] drop_bit_nat_word[where 'a = 32, of "x * 13" 7]
    div_10_205[of x] div_10_13[of x] by simp_all

lemma dec_rem: "(of_nat x :: u32) - 10 * of_nat (x div 10) = of_nat (x mod 10)"
proof -
  have "(of_nat x :: u32) = of_nat (10 * (x div 10) + x mod 10)" by simp
  then show ?thesis by (simp only: of_nat_add of_nat_mult) simp
qed

definition dec_char :: "nat \<Rightarrow> u8" where "dec_char d = of_nat (48 + d)"

lemma dec_char_word: "ucast ((of_nat d :: u32) + 48) = dec_char d"
  using ucast_nat[where 'a = 32 and 'b = 8, of "48 + d"] by (simp add: dec_char_def add.commute)

text \<open>The intermediate values of the conversion of \<open>n\<close>.\<close>

lemma dec_parts:
  fixes n :: nat
  assumes "n < 100000"
  defines "e0 \<equiv> n mod 16" and "e1 \<equiv> n div 16 mod 16" and "e2 \<equiv> n div 256 mod 16" and "e3 \<equiv> n div 4096"
  defines "a0 \<equiv> 6 * (e3 + e2 + e1) + e0"
  defines "a1 \<equiv> a0 div 10 + 9 * e3 + 5 * e2 + e1"
  defines "a2 \<equiv> a1 div 10 + 2 * e2"
  defines "a3 \<equiv> a2 div 10 + 4 * e3"
  shows "a0 < 1020" "a1 < 1020" "a2 < 64" "a3 < 1020"
    and "a0 mod 10 = n mod 10" and "a1 mod 10 = n div 10 mod 10" and "a2 mod 10 = n div 100 mod 10"
    and "a3 = n div 1000" and "a1 = 0 \<longleftrightarrow> n div 10 = 0" and "a2 = 0 \<and> e3 = 0 \<longleftrightarrow> n div 100 = 0"
proof -
  have e: "e0 < 16" "e1 < 16" "e2 < 16" unfolding e0_def e1_def e2_def by simp_all
  have e3: "e3 < 25" using assms(1) unfolding e3_def by simp
  have n: "n = 4096 * e3 + 256 * e2 + 16 * e1 + e0"
  proof -
    have "n div 16 = 16 * (n div 256) + e1" "n div 256 = 16 * e3 + e2"
      unfolding e1_def e2_def e3_def
      using div_mult2_eq[of n 16 16] div_mult2_eq[of n 256 16] by simp_all
    moreover have "n = 16 * (n div 16) + e0" by (simp add: e0_def)
    ultimately show ?thesis by simp
  qed
  show "a0 < 1020" using e e3 unfolding a0_def by simp
  have b0: "a0 div 10 < 34" using e e3 unfolding a0_def by simp
  then show "a1 < 1020" using e e3 unfolding a1_def by simp
  have b1: "a1 div 10 < 34" using e e3 b0 unfolding a1_def by simp
  then show "a2 < 64" using e unfolding a2_def by simp
  have b2: "a2 div 10 < 7" using e b1 unfolding a2_def by simp
  then show "a3 < 1020" using e3 unfolding a3_def by simp
  have n0: "n = 10 * (409 * e3 + 25 * e2 + e1) + a0" using n unfolding a0_def by simp
  have q: "x = 10 * k + a \<Longrightarrow> a mod 10 = x mod 10" "x = 10 * k + a \<Longrightarrow> x div 10 = k + a div 10" for x k a :: nat
    using mod_mult_self4[of 10 k a] div_mult_self4[of 10 k a] by simp_all
  show "a0 mod 10 = n mod 10" by (rule q(1)[OF n0])
  have n1: "n div 10 = 10 * (40 * e3 + 2 * e2) + a1" unfolding q(2)[OF n0] a1_def by simp
  show "a1 mod 10 = n div 10 mod 10" by (rule q(1)[OF n1])
  have n2: "n div 100 = 10 * (4 * e3) + a2"
    using q(2)[OF n1] div_mult2_eq[of n 10 10] unfolding a2_def by simp
  show "a2 mod 10 = n div 100 mod 10" by (rule q(1)[OF n2])
  show "a3 = n div 1000" using q(2)[OF n2] div_mult2_eq[of n 100 10] unfolding a3_def by simp
  show "a1 = 0 \<longleftrightarrow> n div 10 = 0" unfolding n1 unfolding a1_def by auto
  show "a2 = 0 \<and> e3 = 0 \<longleftrightarrow> n div 100 = 0" unfolding n2 by auto
qed

lemma put_dec_digits:
  assumes "n < 100000"
  shows "put_dec_trunc (of_nat n) = map dec_char (rdigits 10 n)"
    and "put_dec_full (of_nat n) =
      map dec_char [n mod 10, n div 10 mod 10, n div 100 mod 10, n div 1000 mod 10, n div 10000]"
proof -
  define e0 e1 e2 e3 where e: "e0 = n mod 16" "e1 = n div 16 mod 16" "e2 = n div 256 mod 16" "e3 = n div 4096"
  define a0 where "a0 = 6 * (e3 + e2 + e1) + e0"
  define a1 where "a1 = a0 div 10 + 9 * e3 + 5 * e2 + e1"
  define a2 where "a2 = a1 div 10 + 2 * e2"
  define a3 where "a3 = a2 div 10 + 4 * e3"
  note p = dec_parts[OF assms, folded e, folded a0_def, folded a1_def, folded a2_def, folded a3_def]
  have w: "drop_bit 4 (of_nat n :: u32) AND 0xf = of_nat e1" "drop_bit 8 (of_nat n :: u32) AND 0xf = of_nat e2"
    "drop_bit 12 (of_nat n :: u32) = of_nat e3" "(of_nat n :: u32) AND 0xf = of_nat e0"
    using assms by (simp_all add: drop_bit_nat_word and_low_nat e)
  have a: "6 * (of_nat e3 + of_nat e2 + of_nat e1) + of_nat e0 = (of_nat a0 :: u32)"
    "of_nat (a0 div 10) + 9 * of_nat e3 + 5 * of_nat e2 + of_nat e1 = (of_nat a1 :: u32)"
    "of_nat (a1 div 10) + 2 * of_nat e2 = (of_nat a2 :: u32)"
    "of_nat (a2 div 10) + 4 * of_nat e3 = (of_nat a3 :: u32)"
    unfolding a0_def a1_def a2_def a3_def by simp_all
  have z: "((of_nat a1 :: u32) = 0) = (n div 10 = 0)" "((of_nat a3 :: u32) = 0) = (n div 1000 = 0)"
    "((of_nat (a3 div 10) :: u32) = 0) = (n div 10000 = 0)"
    using p(2,4,8,9) div_mult2_eq[of n 1000 10] u32_nat_0[of a1] u32_nat_0[of a3] u32_nat_0[of "a3 div 10"] by simp_all
  have "e3 < 25" using assms unfolding e(4) by simp
  then have z2: "((of_nat a2 :: u32) = 0 \<and> (of_nat e3 :: u32) = 0) = (n div 100 = 0)"
    using p(3,10) u32_nat_0[of a2] u32_nat_0[of e3] by simp
  have c: "a3 div 10 = n div 10000" using p(8) div_mult2_eq[of n 1000 10] by simp
  have m: "a0 mod 10 = n mod 10" "a1 mod 10 = n div 10 mod 10" "a2 mod 10 = n div 100 mod 10" "a3 mod 10 = n div 1000 mod 10"
    using p by simp_all
  have "put_dec_trunc (of_nat n) = dec_char (n mod 10) #
     (if \<not> n div 10 = 0 then dec_char (n div 10 mod 10) #
        (if \<not> n div 100 = 0 then dec_char (n div 100 mod 10) #
           (if \<not> n div 1000 = 0 then dec_char (n div 1000 mod 10) #
              (if \<not> n div 10000 = 0 then [dec_char (a3 div 10)] else []) else []) else []) else [])"
    by (simp only: put_dec_trunc_def Let_def w a dec_quot(1)[OF p(1)] dec_quot(1)[OF p(2)]
      dec_quot(2)[OF p(3)] dec_quot(1)[OF p(4)] dec_rem dec_char_word z z2 m de_Morgan_conj[symmetric] cong: let_weak_cong)
  also have "\<dots> = map dec_char (rdigits 10 n)"
    using assms unfolding c by (simp add: rdigits_step div_mult2_eq[symmetric])
  finally show "put_dec_trunc (of_nat n) = map dec_char (rdigits 10 n)" .
  have "put_dec_full (of_nat n) = [dec_char (n mod 10), dec_char (n div 10 mod 10), dec_char (n div 100 mod 10),
      dec_char (n div 1000 mod 10), dec_char (a3 div 10)]"
    by (simp only: put_dec_full_def Let_def w a dec_quot(1)[OF p(1)] dec_quot(1)[OF p(2)]
      dec_quot(2)[OF p(3)] dec_quot(1)[OF p(4)] dec_rem dec_char_word m cong: let_weak_cong)
  then show "put_dec_full (of_nat n) =
      map dec_char [n mod 10, n div 10 mod 10, n div 100 mod 10, n div 1000 mod 10, n div 10000]"
    unfolding c by simp
qed

lemma rdigits_10_5:
  assumes "100000 \<le> n"
  shows "rdigits 10 n = [n mod 10, n div 10 mod 10, n div 100 mod 10, n div 1000 mod 10, n div 10000 mod 10] @
    rdigits 10 (n div 100000)"
proof -
  have d: "n div 10 div 10 = n div 100" "n div 100 div 10 = n div 1000" "n div 1000 div 10 = n div 10000"
    "n div 10000 div 10 = n div 100000" by (simp_all flip: div_mult2_eq)
  have s: "rdigits 10 k = k mod 10 # rdigits 10 (k div 10)" if "10 \<le> k" for k
    using that by (subst rdigits.simps) simp
  have "10 \<le> n" "10 \<le> n div 10" "10 \<le> n div 100" "10 \<le> n div 1000" "10 \<le> n div 10000"
    using assms by (simp_all add: less_eq_div_iff_mult_less_eq)
  from this[THEN s] show ?thesis by (simp only: d append.simps)
qed

lemma mod_div: "0 < a \<Longrightarrow> k = a * b \<Longrightarrow> n mod k div a = n div a mod (b :: nat)"
  by (simp add: mod_mult2_eq)

lemma mod_div_digit: "0 < a \<Longrightarrow> k = a * b \<Longrightarrow> 10 dvd b \<Longrightarrow> n mod k div a mod 10 = n div a mod (10 :: nat)"
  by (simp add: mod_div mod_mod_cancel)

lemma put_dec_rdigits: "put_dec num = map dec_char (rdigits 10 (unat num))"
proof (induction num rule: put_dec.induct)
  case (1 num)
  define n where "n = unat num"
  have n: "num = of_nat n" "n < 2 ^ 64" unfolding n_def using unsigned_less[of num, where ?'a = nat] by simp_all
  show ?case
  proof (cases "num < 100000")
    case True
    then have "n < 100000" unfolding n_def by (simp add: word_less_nat_alt)
    moreover have "ucast num = (of_nat n :: u32)" unfolding n(1) by (simp add: ucast_nat)
    ultimately have "put_dec_trunc (ucast num) = map dec_char (rdigits 10 (unat num))"
      using put_dec_digits(1)[of n] by (simp only: n_def)
    then show ?thesis using True by (subst put_dec.simps) simp
  next
    case False
    then have b: "100000 \<le> n" unfolding n_def by (simp add: word_less_nat_alt)
    let ?r = "n mod 100000"
    have "unat (num mod 100000) = ?r" by (simp add: n_def unat_mod_distrib)
    moreover have "num mod 100000 = of_nat (unat (num mod 100000))" by simp
    ultimately have "num mod 100000 = of_nat ?r" by (simp only:)
    then have r: "ucast (num mod 100000) = (of_nat ?r :: u32)" by (simp add: ucast_nat)
    have d: "?r mod 10 = n mod 10" "?r div 10 mod 10 = n div 10 mod 10" "?r div 100 mod 10 = n div 100 mod 10"
      "?r div 1000 mod 10 = n div 1000 mod 10" "?r div 10000 = n div 10000 mod 10"
      by (rule mod_mod_cancel mod_div_digit[where b = 10000] mod_div_digit[where b = 1000]
          mod_div_digit[where b = 100] mod_div[where b = 10]; simp)+
    have q: "unat (num div 100000) = n div 100000" by (simp add: n_def unat_div_distrib)
    have "put_dec num = put_dec_full (of_nat ?r) @ put_dec (num div 100000)"
      unfolding put_dec.simps[of num] if_not_P[OF False] r ..
    also have "put_dec (num div 100000) = map dec_char (rdigits 10 (n div 100000))"
      using "1.IH"[OF False] by (simp only: q)
    also have "put_dec_full (of_nat ?r) =
        map dec_char [n mod 10, n div 10 mod 10, n div 100 mod 10, n div 1000 mod 10, n div 10000 mod 10]"
      using put_dec_digits(2)[of ?r] by (simp only: d mod_less_divisor zero_less_numeral)
    finally show ?thesis unfolding n_def[symmetric] rdigits_10_5[OF b] map_append .
  qed
qed

section \<open>Printed numbers\<close>

definition num_char :: "u8 \<Rightarrow> nat \<Rightarrow> u8" where "num_char locase d = digits ! d OR locase"

lemma digit_index: "base = 8 \<or> base = 16 \<Longrightarrow> unat (ucast num AND word_of_int (base - 1) :: u8) = unat (num :: u64) mod nat base"
proof -
  define n where "n = unat num"
  have n: "ucast num = (of_nat n :: u8)" using ucast_nat[where 'a = 64 and 'b = 8, of n] by (simp add: n_def)
  assume "base = 8 \<or> base = 16"
  then have "(of_nat n AND word_of_int (base - 1) :: u8) = of_nat (n mod nat base)" "n mod nat base < 2 ^ 8"
    by (auto simp: and_low_nat intro: order.strict_trans[OF mod_less_divisor])
  then show ?thesis unfolding n by (simp add: unat_of_nat take_bit_nat_eq_self flip: n_def)
qed

lemma put_pow2_rdigits:
  "base = 8 \<or> base = 16 \<Longrightarrow> put_pow2 base locase num = map (num_char locase) (rdigits (nat base) (unat num))"
proof (induction base locase num rule: put_pow2.induct)
  case (1 base locase num)
  define shift where "shift = (if base = 16 then 4 else 3 :: nat)"
  have b: "nat base = 2 ^ shift" "2 \<le> nat base" using "1.prems" by (auto simp: shift_def)
  have u: "unat (drop_bit shift num) = unat num div nat base"
    unfolding b(1) by (simp add: unat_drop_bit_eq) (simp add: drop_bit_eq_div)
  then have z: "drop_bit shift num = 0 \<longleftrightarrow> unat num div nat base = 0" by (metis unat_eq_zero)
  show ?case
    unfolding put_pow2.simps[of base locase num] rdigits_step[OF b(2), of "unat num"]
    using "1.IH"[OF refl shift_def refl] "1.prems" z u digit_index[OF "1.prems", of num]
    by (simp add: Let_def num_char_def flip: shift_def)
qed

text \<open>What \<^verbatim>\<open>number\<close> prints: the fields of the text.\<close>

definition num_sign :: "u64 \<Rightarrow> int \<Rightarrow> u8 list" where
  "num_sign num type =
     (if \<not> bit type 1 then []
      else if sint num < 0 then [45] else if bit type 2 then [43] else if bit type 3 then [32] else [])"

definition num_abs :: "u64 \<Rightarrow> int \<Rightarrow> nat" where
  "num_abs num type = (if bit type 1 \<and> sint num < 0 then nat (- sint num) else unat num)"

definition num_locase :: "int \<Rightarrow> u8" where
  "num_locase type = (if bit type 5 then 0x20 else 0)"

definition num_prefix :: "int \<Rightarrow> int \<Rightarrow> u8 list" where
  "num_prefix base type =
     (if \<not> bit type 6 \<or> base = 10 then [] else if base = 16 then [48, 88 OR num_locase type] else [48])"

definition num_digits :: "u64 \<Rightarrow> int \<Rightarrow> int \<Rightarrow> u8 list" where
  "num_digits num base type =
     rev (map (if base = 10 then dec_char else num_char (num_locase type)) (rdigits (nat base) (num_abs num type)))"

definition number_text :: "u64 \<Rightarrow> int \<Rightarrow> int \<Rightarrow> int \<Rightarrow> int \<Rightarrow> u8 list" where
  "number_text num base sz precision type = (
     let ds = num_digits num base type;
         zs = replicate (nat precision - length ds) 48 @ ds;
         pre = num_sign num type @ num_prefix base type;
         n = nat (sz - int (length pre + length zs))
     in if bit type 4 then pre @ zs @ replicate n 32
        else if bit type 0 then pre @ replicate n 48 @ zs
        else replicate n 32 @ pre @ zs)"

definition put_chars :: "nat \<Rightarrow> u8 list \<Rightarrow> sink \<Rightarrow> sink" where
  "put_chars lim cs st = fold (ADDCH lim) cs st"

lemma put_chars_Nil [simp]: "put_chars lim [] st = st"
  by (simp add: put_chars_def)

lemma put_chars_append: "put_chars lim (cs @ ds) st = put_chars lim ds (put_chars lim cs st)"
  by (simp add: put_chars_def)

lemma put_chars_Cons [simp]: "put_chars lim (c # cs) st = put_chars lim cs (ADDCH lim c st)"
  by (simp add: put_chars_def)

lemma put_chars_eq:
  "put_chars lim cs (m, str) =
    (\<lambda>x. if str \<le> x \<and> x < str + length cs \<and> x < lim then cs ! (x - str) else m x, str + length cs)"
proof (induction cs arbitrary: m str)
  case Nil
  then show ?case by (auto simp: fun_eq_iff)
next
  case (Cons c cs)
  have "put_chars lim (c # cs) (m, str) = put_chars lim cs (if str < lim then m(str := c) else m, str + 1)"
    by (simp add: ADDCH_def)
  then show ?case unfolding Cons.IH by (auto simp: fun_eq_iff nth_Cons' split: if_splits)
qed

lemma pad_size_put: "pad_size lim c sz st = (sz - 1 - max 0 sz, put_chars lim (replicate (nat sz) c) st)"
proof (induction lim c sz st rule: pad_size.induct)
  case (1 lim c sz st)
  show ?case
  proof (cases "sz - 1 \<ge> 0")
    case True
    then have "nat sz = Suc (nat (sz - 1))" by simp
    with True "1.IH"[OF refl True] show ?thesis unfolding pad_size.simps[of lim c sz st] by simp
  next
    case False
    then show ?thesis unfolding pad_size.simps[of lim c sz st] by (simp add: Let_def)
  qed
qed

lemma pad_precision_put:
  "pad_precision lim i precision st = put_chars lim (replicate (nat (precision - i)) 48) st"
proof (induction lim i precision st rule: pad_precision.induct)
  case (1 lim i precision st)
  show ?case
  proof (cases "i \<le> precision - 1")
    case True
    then have "nat (precision - i) = Suc (nat (precision - 1 - i))" by simp
    with True "1.IH"[OF refl True] show ?thesis unfolding pad_precision.simps[of lim i precision st] by simp
  next
    case False
    then show ?thesis unfolding pad_precision.simps[of lim i precision st] by (simp add: Let_def)
  qed
qed

lemma put_tmp_put: "i \<le> length tmp \<Longrightarrow> put_tmp lim tmp i st = put_chars lim (rev (take i tmp)) st"
  by (induction i arbitrary: st) (simp_all add: take_Suc_conv_app_nth)

lemma flag_bits:
  "type AND SPECIAL \<noteq> 0 \<longleftrightarrow> bit type 6" "type AND LEFT \<noteq> 0 \<longleftrightarrow> bit type 4" "type AND SIGN \<noteq> 0 \<longleftrightarrow> bit type 1"
  "type AND PLUS \<noteq> 0 \<longleftrightarrow> bit type 2" "type AND SPACE \<noteq> 0 \<longleftrightarrow> bit type 3" "type AND ZEROPAD \<noteq> 0 \<longleftrightarrow> bit type 0"
  "type AND LEFT = 0 \<longleftrightarrow> \<not> bit type 4"
  "type AND (ZEROPAD + LEFT) = 0 \<longleftrightarrow> \<not> bit type 0 \<and> \<not> bit type 4"
  "word_of_int (type AND SMALL) = num_locase type"
proof -
  have b: "type AND 2 ^ n = (if bit type n then 2 ^ n else 0)" for n
    by (rule bit_eqI) (auto simp: bit_simps)
  show "type AND SPECIAL \<noteq> 0 \<longleftrightarrow> bit type 6" "type AND LEFT \<noteq> 0 \<longleftrightarrow> bit type 4" "type AND SIGN \<noteq> 0 \<longleftrightarrow> bit type 1"
    "type AND PLUS \<noteq> 0 \<longleftrightarrow> bit type 2" "type AND SPACE \<noteq> 0 \<longleftrightarrow> bit type 3" "type AND ZEROPAD \<noteq> 0 \<longleftrightarrow> bit type 0"
    "type AND LEFT = 0 \<longleftrightarrow> \<not> bit type 4" "word_of_int (type AND SMALL) = num_locase type"
    using b[of 6] b[of 5] b[of 4] b[of 3] b[of 2] b[of 1] b[of 0]
    by (simp_all add: SPECIAL_def LEFT_def SIGN_def PLUS_def SPACE_def ZEROPAD_def SMALL_def num_locase_def)
  have "type AND 17 = (type AND 2 ^ 0) OR (type AND 2 ^ 4)"
    using bit.conj_disj_distrib[of type 1 16] by simp
  then show "type AND (ZEROPAD + LEFT) = 0 \<longleftrightarrow> \<not> bit type 0 \<and> \<not> bit type 4"
    unfolding b by (simp add: ZEROPAD_def LEFT_def)
qed

lemma unat_minus_neg: "sint num < 0 \<Longrightarrow> unat (- num) = nat (- sint (num :: u64))"
proof -
  assume n: "sint num < 0"
  have "- num = word_of_int (- sint num)" by simp
  then have "uint (- num) = take_bit LENGTH(64) (- sint num)" by (simp only: uint_word_of_int_eq)
  moreover have "- sint num < 2 ^ 64" using sint_ge[of num] by simp
  ultimately have "uint (- num) = - sint num" using n by (simp add: take_bit_int_eq_self)
  then show ?thesis by (metis unat_eq_nat_uint)
qed

lemma num_tmp:
  assumes "base = 8 \<or> base = 10 \<or> base = 16"
  shows "(if num = 0 then [48] else if base \<noteq> 10 then put_pow2 base (num_locase type) num else put_dec num) =
    map (if base = 10 then dec_char else num_char (num_locase type)) (rdigits (nat base) (unat num))"
proof (cases "num = 0")
  case True
  then show ?thesis using assms
    by (auto simp: rdigits.simps dec_char_def num_char_def num_locase_def digits_def)
next
  case False
  then show ?thesis using assms by (auto simp: put_pow2_rdigits put_dec_rdigits)
qed

lemma bit_clear_zeropad: "bit (type AND NOT ZEROPAD) n \<longleftrightarrow> bit type n \<and> n \<noteq> 0"
  by (auto simp: bit_simps ZEROPAD_def)

lemma number_put:
  assumes "base = 8 \<or> base = 10 \<or> base = 16"
  shows "number lim num base sz precision type st = put_chars lim (number_text num base sz precision type) st"
proof -
  define neg where "neg \<longleftrightarrow> bit type 1 \<and> sint num < 0"
  define num' where "num' = (if neg then - num else num)"
  have num': "unat num' = num_abs num type" by (auto simp: num'_def neg_def num_abs_def unat_minus_neg)
  define ds where "ds = num_digits num base type"
  have tmp: "(if num' = 0 then [48] else if base \<noteq> 10 then put_pow2 base (num_locase type) num' else put_dec num') = rev ds"
    unfolding num_tmp[OF assms] num' ds_def num_digits_def by simp
  define T where "T = (if bit type 4 then type AND NOT ZEROPAD else type)"
  have T: "bit T 1 = bit type 1" "bit T 2 = bit type 2" "bit T 3 = bit type 3" "bit T 4 = bit type 4"
    "bit T 0 = (bit type 0 \<and> \<not> bit type 4)"
    by (simp_all add: T_def bit_clear_zeropad)
  define sg where "sg = num_sign num type"
  define pf where "pf = num_prefix base type"
  define s where "s = (if sg = [] then 0 else hd sg)"
  have sign: "(if bit type 1 then (if sint num < 0 then (45, - num, sz - 1) else if bit type 2 then (43, num, sz - 1)
        else if bit type 3 then (32, num, sz - 1) else (0, num, sz)) else (0, num, sz)) =
      (s, num', sz - int (length sg))"
    by (simp add: s_def num'_def neg_def sg_def num_sign_def)
  have put_sign: "(if s \<noteq> 0 then ADDCH lim s st else st) = put_chars lim sg st" for st
    by (simp add: s_def sg_def num_sign_def)
  have pfx: "(if bit type 6 \<and> base \<noteq> 10 then (if base = 16 then z - 1 - 1 else z - 1) else z) = z - int (length pf)" for z
    by (simp add: pf_def num_prefix_def)
  have put_pfx: "(if bit type 6 \<and> base \<noteq> 10 then (if base = 16 then ADDCH lim (88 OR num_locase type) (ADDCH lim 48 st)
      else ADDCH lim 48 st) else st) = put_chars lim pf st" for st
    by (simp add: pf_def num_prefix_def)
  define P where "P = (if precision < int (length (rev ds)) then int (length (rev ds)) else precision)"
  define n where "n = sz - int (length sg) - int (length pf) - P"
  have P: "nat (P - int (length (rev ds))) = nat precision - length ds" by (auto simp: P_def nat_diff_distrib)
  have w: "nat (sz - int (length (sg @ pf) + length (replicate (nat precision - length ds) 48 @ ds))) = nat n"
    by (auto simp: n_def P_def algebra_simps)
  have fields: "number lim num base sz precision type st =
      (case if \<not> (bit type 0 \<and> \<not> bit type 4) \<and> \<not> bit type 4 then pad_size lim 32 n st else (n, st) of (sz, st) \<Rightarrow>
       case if \<not> bit type 4
         then pad_size lim (if bit type 0 \<and> \<not> bit type 4 then 48 else 32) sz (put_chars lim pf (put_chars lim sg st))
         else (sz, put_chars lim pf (put_chars lim sg st)) of (sz, st) \<Rightarrow>
       case pad_size lim 32 sz (put_tmp lim (rev ds) (length (rev ds)) (pad_precision lim (int (length (rev ds))) P st)) of
         (sz, st) \<Rightarrow> st)"
    unfolding number_def
    by (simp only: Let_def split T_def[symmetric] flag_bits not_not T sign put_sign pfx put_pfx tmp
        P_def[symmetric] n_def[symmetric] cong: let_weak_cong)
  have txteq: "number_text num base sz precision type =
      (if bit type 4 then sg @ pf @ replicate (nat precision - length ds) 48 @ ds @ replicate (nat n) 32
       else if bit type 0 then sg @ pf @ replicate (nat n) 48 @ replicate (nat precision - length ds) 48 @ ds
       else replicate (nat n) 32 @ sg @ pf @ replicate (nat precision - length ds) 48 @ ds)"
    unfolding number_text_def Let_def ds_def[symmetric] sg_def[symmetric] pf_def[symmetric] w by simp
  have neg: "nat (n - 1 - max 0 n) = 0" by simp
  show ?thesis
    unfolding fields txteq pad_size_put pad_precision_put P split
    by (cases "bit type 4"; cases "bit type 0")
      (simp_all add: put_tmp_put put_chars_append)
qed

end
