(* ===== verification/Strto.thy ===== *)
theory Strto
  imports Number
begin

unbundle bit_operations_syntax

text \<open>
  Reading numbers: the functions of \<^verbatim>\<open>common_uboot/lib/strto.c\<close>, and \<^verbatim>\<open>str2off\<close>, \<^verbatim>\<open>str2long\<close> and
  \<^verbatim>\<open>simple_itoa\<close> of \<^verbatim>\<open>lib/vsprintf.c\<close>. A result comes with the value stored through \<^verbatim>\<open>endp\<close>; a
  scan that never meets a character it stops at does not return, which is \<^const>\<open>None\<close>.
\<close>

section \<open>Reading\<close>

definition parse_integer_fixup_radix :: "ram \<Rightarrow> nat \<Rightarrow> u32 \<Rightarrow> nat \<times> u32" where
  "parse_integer_fixup_radix m s base = (
     let base = (if base = 0 then
                   (if m s = 48 then (if tolower (m (s + 1)) = 120 \<and> isxdigit (m (s + 2)) then 16 else 8)
                    else 10)
                 else base)
     in if base = 16 \<and> m s = 48 \<and> tolower (m (s + 1)) = 120 then (s + 2, base) else (s, base))"

definition digit_value :: "u8 \<Rightarrow> nat" where
  "digit_value c =
     (if isdigit c then unat c - 48 else unat (if islower c then toupper c else c) - 65 + 10)"

partial_function (option) strtoul_loop :: "ram \<Rightarrow> u32 \<Rightarrow> nat \<Rightarrow> u32 \<Rightarrow> (u32 \<times> nat) option" where
  "strtoul_loop m base cp result =
     (if isxdigit (m cp) \<and> (of_nat (digit_value (m cp)) :: u32) < base
      then strtoul_loop m base (cp + 1) (result * base + of_nat (digit_value (m cp)))
      else Some (result, cp))"

definition simple_strtoul :: "ram \<Rightarrow> nat \<Rightarrow> u32 \<Rightarrow> (u32 \<times> nat) option" where
  "simple_strtoul m cp base = (case parse_integer_fixup_radix m cp base of (cp, base) \<Rightarrow> strtoul_loop m base cp 0)"

definition EINVAL :: int where "EINVAL = 22"

definition strict_strtoul :: "ram \<Rightarrow> nat \<Rightarrow> u32 \<Rightarrow> (u32 \<times> int) option" where
  "strict_strtoul m cp base =
     (case strlen m cp of
        None \<Rightarrow> None
      | Some len \<Rightarrow>
          if len = 0 then Some (0, - EINVAL)
          else case simple_strtoul m cp base of
            None \<Rightarrow> None
          | Some (val, tail) \<Rightarrow>
              if tail = cp then Some (0, - EINVAL)
              else if m tail = 0 \<or> (len = (tail - cp) + 1 \<and> m tail = 10) then Some (val, 0)
              else Some (0, - EINVAL))"

definition simple_strtol :: "ram \<Rightarrow> nat \<Rightarrow> u32 \<Rightarrow> (int \<times> nat) option" where
  "simple_strtol m cp base =
     (if m cp = 45 then map_option (\<lambda>(r, e). (sint (- r), e)) (simple_strtoul m (cp + 1) base)
      else map_option (\<lambda>(r, e). (sint r, e)) (simple_strtoul m cp base))"

text \<open>The cases of the \<^verbatim>\<open>switch\<close> fall through: \<^verbatim>\<open>G\<close> multiplies three times, \<^verbatim>\<open>M\<close> twice, \<^verbatim>\<open>K\<close> and \<^verbatim>\<open>k\<close> once.\<close>

definition ustrtoul :: "ram \<Rightarrow> nat \<Rightarrow> u32 \<Rightarrow> (u32 \<times> nat) option" where
  "ustrtoul m cp base =
     (case simple_strtoul m cp base of
        None \<Rightarrow> None
      | Some (result, endp) \<Rightarrow>
          (let c = m endp;
               result = (if c = 71 then result * 1024 else result);
               result = (if c = 71 \<or> c = 77 then result * 1024 else result);
               result = (if c = 71 \<or> c = 77 \<or> c = 75 \<or> c = 107 then result * 1024 else result);
               endp = (if (c = 71 \<or> c = 77 \<or> c = 75 \<or> c = 107) \<and> m (endp + 1) = 105
                       then (if m (endp + 2) = 66 then endp + 3 else endp + 2) else endp)
           in Some (result, endp)))"

partial_function (option) strtoull_loop :: "ram \<Rightarrow> u32 \<Rightarrow> nat \<Rightarrow> u64 \<Rightarrow> (u64 \<times> nat) option" where
  "strtoull_loop m base cp result =
     (if isxdigit (m cp) \<and> (of_nat (digit_value (m cp)) :: u64) < ucast base
      then strtoull_loop m base (cp + 1) (result * ucast base + of_nat (digit_value (m cp)))
      else Some (result, cp))"

definition simple_strtoull :: "ram \<Rightarrow> nat \<Rightarrow> u32 \<Rightarrow> (u64 \<times> nat) option" where
  "simple_strtoull m cp base = (case parse_integer_fixup_radix m cp base of (cp, base) \<Rightarrow> strtoull_loop m base cp 0)"

definition ustrtoull :: "ram \<Rightarrow> nat \<Rightarrow> u32 \<Rightarrow> (u64 \<times> nat) option" where
  "ustrtoull m cp base =
     (case simple_strtoull m cp base of
        None \<Rightarrow> None
      | Some (result, endp) \<Rightarrow>
          (let c = m endp;
               result = (if c = 71 then result * 1024 else result);
               result = (if c = 71 \<or> c = 77 then result * 1024 else result);
               result = (if c = 71 \<or> c = 77 \<or> c = 75 \<or> c = 107 then result * 1024 else result);
               endp = (if (c = 71 \<or> c = 77 \<or> c = 75 \<or> c = 107) \<and> m (endp + 1) = 105
                       then (if m (endp + 2) = 66 then endp + 3 else endp + 2) else endp)
           in Some (result, endp)))"

text \<open>The loop of \<^verbatim>\<open>trailing_strtoln\<close>, from \<open>p\<close> down to \<open>str\<close>.\<close>

fun trailing_loop :: "ram \<Rightarrow> nat \<Rightarrow> nat \<Rightarrow> int option" where
  "trailing_loop m str p =
     (if p > str then
        (if \<not> isdigit (m p) then map_option (\<lambda>(r, _). sint r) (simple_strtoul m (p + 1) 10)
         else trailing_loop m str (p - 1))
      else Some (-1))"

declare trailing_loop.simps [simp del]

definition trailing_strtoln :: "ram \<Rightarrow> nat \<Rightarrow> nat \<Rightarrow> int option" where
  "trailing_strtoln m str endp =
     (case (if endp = NULL then map_option (\<lambda>n. str + n) (strlen m str) else Some endp) of
        None \<Rightarrow> None
      | Some endp \<Rightarrow> if isdigit (m (endp - 1)) then trailing_loop m str (endp - 1) else Some (-1))"

definition trailing_strtol :: "ram \<Rightarrow> nat \<Rightarrow> int option" where
  "trailing_strtol m str = trailing_strtoln m str NULL"

definition str2off :: "ram \<Rightarrow> nat \<Rightarrow> (u64 \<times> bool) option" where
  "str2off m p = map_option (\<lambda>(num, endptr). (num, m p \<noteq> 0 \<and> m endptr = 0)) (simple_strtoull m p 16)"

definition str2long :: "ram \<Rightarrow> nat \<Rightarrow> (u32 \<times> bool) option" where
  "str2long m p = map_option (\<lambda>(num, endptr). (num, m p \<noteq> 0 \<and> m endptr = 0)) (simple_strtoul m p 16)"

text \<open>The characters that \<^verbatim>\<open>simple_itoa\<close> puts before the final NUL of its static buffer.\<close>

function simple_itoa :: "u32 \<Rightarrow> u8 list" where
  "simple_itoa i = (let c = 48 + ucast (i mod 10); i = i div 10 in if i > 0 then simple_itoa i @ [c] else [c])"
  by pat_completeness auto
termination
proof (relation "measure unat")
  fix i x :: u32 and c assume "x = i div 10" "x > 0"
  then have "0 < unat i div 10" "unat x = unat i div 10" by (simp_all add: word_less_nat_alt unat_div_distrib)
  then show "(x, i) \<in> measure unat" by simp
qed simp

declare simple_itoa.simps [simp del]

section \<open>Digits and their values\<close>

definition digit_char :: "int \<Rightarrow> int \<Rightarrow> nat \<Rightarrow> u8" where
  "digit_char base type = (if base = 10 then dec_char else num_char (num_locase type))"

text \<open>The printed digits, with either case of the letters.\<close>

definition hex_chars :: "u8 list" where
  "hex_chars = [48, 49, 50, 51, 52, 53, 54, 55, 56, 57, 65, 66, 67, 68, 69, 70]"

definition hex_small :: "u8 list" where
  "hex_small = [48, 49, 50, 51, 52, 53, 54, 55, 56, 57, 97, 98, 99, 100, 101, 102]"

lemma hex_values:
  "map digit_value hex_chars = [0, 1, 2, 3, 4, 5, 6, 7, 8, 9, 10, 11, 12, 13, 14, 15]"
  "map digit_value hex_small = [0, 1, 2, 3, 4, 5, 6, 7, 8, 9, 10, 11, 12, 13, 14, 15]"
  "list_all isxdigit hex_chars" "list_all isxdigit hex_small"
  "list_all (\<lambda>c. tolower c \<noteq> 120) hex_chars" "list_all (\<lambda>c. tolower c \<noteq> 120) hex_small"
  by (simp_all add: hex_chars_def hex_small_def digit_value_def isdigit_iff islower_iff toupper_def
      isxdigit_iff tolower_def isupper_iff)

lemma num_chars: "map (num_char 0) [0..<16] = hex_chars" "map (num_char 0x20) [0..<16] = hex_small"
  "map dec_char [0..<10] = take 10 hex_chars"
  unfolding upt_16 by (simp_all add: num_char_def digits_def hex_chars_def hex_small_def dec_char_def upt_rec)

lemma digit_char_in:
  assumes "d < nat base" and "base = 8 \<or> base = 10 \<or> base = 16"
  shows "digit_char base type d = hex_chars ! d \<or> digit_char base type d = hex_small ! d" and "d < 16"
proof -
  show d: "d < 16" using assms by auto
  have "num_char 0 d = hex_chars ! d" "num_char 0x20 d = hex_small ! d"
    using d arg_cong[OF num_chars(1), of "\<lambda>xs. xs ! d"] arg_cong[OF num_chars(2), of "\<lambda>xs. xs ! d"]
    by (simp_all del: upt_rec_numeral)
  moreover have "dec_char d = hex_chars ! d" if "d < 10"
    using that arg_cong[OF num_chars(3), of "\<lambda>xs. xs ! d"] by (simp del: upt_rec_numeral)
  ultimately show "digit_char base type d = hex_chars ! d \<or> digit_char base type d = hex_small ! d"
    using assms by (auto simp: digit_char_def num_locase_def)
qed

lemma digit_char_facts:
  assumes "d < nat base" and "base = 8 \<or> base = 10 \<or> base = 16"
  shows "digit_value (digit_char base type d) = d" and "isxdigit (digit_char base type d)"
    and "tolower (digit_char base type d) \<noteq> 120"
proof -
  have l: "length hex_chars = 16" "length hex_small = 16" by (simp_all add: hex_chars_def hex_small_def)
  note d = digit_char_in(1)[OF assms, of type] digit_char_in(2)[OF assms]
  have "hex_chars ! d \<in> set hex_chars" "hex_small ! d \<in> set hex_small" using d(2) l by simp_all
  then show "isxdigit (digit_char base type d)" "tolower (digit_char base type d) \<noteq> 120"
    using d(1) hex_values(3-6) unfolding list_all_iff by auto
  have "map digit_value hex_chars ! d = d" "map digit_value hex_small ! d = d"
    using d(2) unfolding hex_values upt_16[symmetric] by (simp_all del: upt_rec_numeral)
  then show "digit_value (digit_char base type d) = d" using d l by auto
qed

section \<open>The scan\<close>

lemma strtoull_loop_digits:
  assumes "\<forall>c \<in> set cs. isxdigit c \<and> digit_value c < unat base" and "block m cp (length cs) = cs"
    and "\<not> isxdigit (m (cp + length cs))" and "r = of_nat k" and "2 \<le> unat base"
  shows "strtoull_loop m base cp r =
    Some (of_nat (foldl (\<lambda>r c. r * unat base + digit_value c) k cs), cp + length cs)"
  using assms
proof (induction cs arbitrary: cp r k)
  case Nil
  then show ?case by (subst strtoull_loop.simps) simp
next
  case (Cons c cs)
  have m: "m cp = c" "block m (cp + 1) (length cs) = cs" using Cons.prems(2) by (simp_all add: block_Suc)
  have b: "(ucast base :: u64) = of_nat (unat base)" by simp
  have "digit_value c < unat base" using Cons.prems(1) by simp
  moreover have "unat base < 2 ^ LENGTH(32)" by (rule unsigned_less)
  ultimately have "(of_nat (digit_value c) :: u64) < ucast base"
    unfolding b by (subst word_less_nat_alt) (simp add: unat_of_nat take_bit_nat_eq_self del: of_nat_unat)
  then have "strtoull_loop m base cp r = strtoull_loop m base (cp + 1) (r * ucast base + of_nat (digit_value c))"
    using Cons.prems(1) by (subst strtoull_loop.simps) (simp add: m)
  also have "r * ucast base + of_nat (digit_value c) = of_nat (k * unat base + digit_value c)"
    unfolding Cons.prems(4) b by simp
  finally have e: "strtoull_loop m base cp r = strtoull_loop m base (cp + 1) (of_nat (k * unat base + digit_value c))" .
  have ih: "strtoull_loop m base (cp + 1) (of_nat (k * unat base + digit_value c)) =
      Some (of_nat (foldl (\<lambda>r c. r * unat base + digit_value c) (k * unat base + digit_value c) cs), cp + 1 + length cs)"
    using Cons.prems by (intro Cons.IH m(2) refl) simp_all
  show ?case unfolding e ih by simp
qed

lemma foldl_horner:
  "(\<And>d. d \<in> set ds \<Longrightarrow> v (f d) = d) \<Longrightarrow> foldl (\<lambda>r c. r * b + v c) 0 (rev (map f ds)) = horner_sum (\<lambda>d. d) b (ds :: nat list)"
  by (induction ds) (simp_all add: mult.commute)

lemma strtoull_loop_rdigits:
  assumes "base = 8 \<or> base = 10 \<or> base = 16"
    and "cs = replicate z 48 @ rev (map (digit_char base type) (rdigits (nat base) (unat num)))"
    and "block m cp (length cs) = cs" and "m (cp + length cs) = 0"
  shows "strtoull_loop m (word_of_int base) cp 0 = Some (num, cp + length cs)"
proof -
  have b: "unat (word_of_int base :: u32) = nat base" "2 \<le> nat base" using assms(1) by auto
  have v: "digit_value (digit_char base type d) = d \<and> isxdigit (digit_char base type d) \<and> d < nat base"
    if "d \<in> set (rdigits (nat base) (unat num))" for d
    using rdigits_less[OF b(2) that] digit_char_facts[OF _ assms(1), of d type] by simp
  have z: "digit_value 48 = 0" "isxdigit 48" by (simp_all add: digit_value_def isdigit_iff isxdigit_iff)
  from v z have "\<forall>c \<in> set cs. isxdigit c \<and> digit_value c < unat (word_of_int base :: u32)"
    using b(2) unfolding assms(2) b(1) by auto
  moreover have "foldl (\<lambda>r c. r * nat base + digit_value c) 0 (replicate z 48) = 0" by (induction z) (simp_all add: z)
  then have "foldl (\<lambda>r c. r * nat base + digit_value c) 0 cs = unat num"
    unfolding assms(2) using foldl_horner[of "rdigits (nat base) (unat num)" digit_value "digit_char base type" "nat base"] v
    by (simp add: rdigits_value[OF b(2)])
  moreover have "\<not> isxdigit 0" by (simp add: isxdigit_iff)
  ultimately show ?thesis
    using strtoull_loop_digits[of cs "word_of_int base" m cp 0 0] assms(3,4) b by simp
qed

text \<open>The first digit printed of a number other than 0 is not 0.\<close>

lemma last_rdigits: "2 \<le> b \<Longrightarrow> n \<noteq> 0 \<Longrightarrow> last (rdigits b n) \<noteq> 0"
proof (induction b n rule: rdigits.induct)
  case (1 b n)
  show ?case
  proof (cases "n < b")
    case True
    then show ?thesis using "1.prems" by (subst rdigits.simps) simp
  next
    case False
    then have "n div b \<noteq> 0" using "1.prems" by (simp add: div_eq_0_iff)
    then show ?thesis using False 1 by (subst rdigits.simps) simp
  qed
qed

lemma rdigits_0: "2 \<le> b \<Longrightarrow> rdigits b 0 = [0]"
  by (subst rdigits.simps) simp

lemma number_text_plain:
  assumes "\<not> bit type 1"
  shows "number_text num base (-1) (-1) type = num_prefix base type @ rev (map (digit_char base type) (rdigits (nat base) (unat num)))"
  using assms by (simp add: number_text_def num_sign_def num_digits_def num_abs_def digit_char_def Let_def)

lemma text_not_x:
  assumes "base = 8 \<or> base = 10 \<or> base = 16"
    and "cs = replicate z 48 @ rev (map (digit_char base type) (rdigits (nat base) n))"
    and "block m cp (length cs) = cs" and "m (cp + length cs) = 0" and "i \<le> length cs"
  shows "tolower (m (cp + i)) \<noteq> 120"
proof (cases "i = length cs")
  case True
  then show ?thesis using assms(4) by (simp add: tolower_def isupper_iff)
next
  case False
  then have i: "i < length cs" using assms(5) by simp
  then have "m (cp + i) = cs ! i" using assms(3) nth_block[of i "length cs" m cp] by simp
  moreover have "cs ! i \<in> set cs" using i by simp
  moreover have "tolower 48 \<noteq> (120 :: u8)" by (simp add: tolower_def isupper_iff)
  moreover have "2 \<le> nat base" using assms(1) by auto
  ultimately show ?thesis
    using digit_char_facts(3)[OF rdigits_less assms(1)] unfolding assms(2) by auto
qed

lemma strtoull_roundtrip:
  assumes "base = 8 \<or> base = 10 \<or> base = 16" and "\<not> bit type 1"
    and "base' = base \<or> base' = 0 \<and> (bit type 6 \<or> base = 10)"
    and "cs = number_text num base (-1) (-1) type"
    and "block m cp (length cs) = cs" and "m (cp + length cs) = 0"
  shows "simple_strtoull m cp (word_of_int base') = Some (num, cp + length cs)"
proof -
  let ?ds = "rev (map (digit_char base type) (rdigits (nat base) (unat num)))"
  have cs: "cs = num_prefix base type @ ?ds" unfolding assms(4) by (rule number_text_plain[OF assms(2)])
  show ?thesis
  proof (cases "base = 16 \<and> bit type 6")
    case True
    then have p: "cs = [48, 88 OR num_locase type] @ ?ds" unfolding cs by (simp add: num_prefix_def)
    have m: "m cp = 48" "m (cp + 1) = 88 OR num_locase type" "block m (cp + 2) (length ?ds) = ?ds"
      using assms(5) unfolding p by (simp_all add: block_Suc)
    have x: "tolower (88 OR num_locase type) = 120" by (simp add: num_locase_def tolower_def isupper_iff)
    have "m (cp + 2) = hd ?ds" using m(3) by (cases ?ds) (simp_all add: block_Suc)
    moreover have "hd ?ds \<in> set ?ds" by (intro hd_in_set) simp
    ultimately have d: "isxdigit (m (cp + 2))"
      using digit_char_facts(2)[OF rdigits_less assms(1)] True by auto
    have "parse_integer_fixup_radix m cp (word_of_int base') = (cp + 2, 16)"
      using True assms(3) m x d by (auto simp: parse_integer_fixup_radix_def Let_def)
    then show ?thesis
      using strtoull_loop_rdigits[OF assms(1), of ?ds 0 type num m "cp + 2"] m(3) assms(6) True
      unfolding p by (simp add: simple_strtoull_def)
  next
    case False
    define z where "z = length (num_prefix base type)"
    have p: "cs = replicate z 48 @ ?ds" unfolding cs z_def using False assms(1) by (auto simp: num_prefix_def)
    have ne: "?ds \<noteq> []" by simp
    then have x: "tolower (m (cp + 1)) \<noteq> 120"
      by (intro text_not_x[OF assms(1) p assms(5,6)]) (simp add: p Suc_le_eq)
    note scan = strtoull_loop_rdigits[OF assms(1) p assms(5,6)]
    have "cs \<noteq> []" unfolding p by simp
    then have hd: "m cp = hd cs" using assms(5) by (cases cs) (simp_all add: block_Suc)
    consider "base' = base" | "base' = 0" "base = 8" "z = 1" | "base' = 0" "base = 10" "num = 0" | "base' = 0" "base = 10" "num \<noteq> 0"
      using assms(1,3) False by (auto simp: z_def num_prefix_def)
    then show ?thesis
    proof cases
      case 1
      then have "parse_integer_fixup_radix m cp (word_of_int base') = (cp, word_of_int base)"
        using assms(1) x by (auto simp: parse_integer_fixup_radix_def Let_def)
      then show ?thesis by (simp add: simple_strtoull_def scan)
    next
      case 2
      then have "m cp = 48" unfolding hd p by simp
      then have "parse_integer_fixup_radix m cp (word_of_int base') = (cp, word_of_int base)"
        using 2 x by (simp add: parse_integer_fixup_radix_def Let_def)
      then show ?thesis by (simp add: simple_strtoull_def scan)
    next
      case 3
      have c: "cs = [48]"
        using 3 unfolding p by (simp add: z_def num_prefix_def rdigits_0 digit_char_def dec_char_def)
      then have "m cp = 48" unfolding hd by simp
      then have "parse_integer_fixup_radix m cp (word_of_int base') = (cp, 8)"
        using 3 x by (simp add: parse_integer_fixup_radix_def Let_def)
      moreover have "strtoull_loop m (word_of_int 8) cp 0 = Some (0, cp + length cs)"
        by (rule strtoull_loop_rdigits[where z = 0 and type = 0])
          (use assms(5,6) in \<open>simp_all add: c rdigits_0 digit_char_def num_char_def num_locase_def digits_def\<close>)
      ultimately show ?thesis using 3 by (simp add: simple_strtoull_def)
    next
      case 4
      have "last (rdigits 10 (unat num)) \<noteq> 0" "last (rdigits 10 (unat num)) < 10"
        using last_rdigits[of 10 "unat num"] rdigits_less[of 10 "last (rdigits 10 (unat num))" "unat num"] 4 by (simp_all add: unat_eq_0)
      moreover have "m cp = dec_char (last (rdigits 10 (unat num)))"
        using 4 unfolding hd p by (simp add: z_def num_prefix_def digit_char_def hd_rev last_map)
      ultimately have "m cp \<noteq> 48"
        using word_of_nat_eq_small[where 'a = 8, of "48 + last (rdigits 10 (unat num))" 48] by (simp add: dec_char_def)
      then have "parse_integer_fixup_radix m cp (word_of_int base') = (cp, word_of_int base)"
        using 4 by (simp add: parse_integer_fixup_radix_def Let_def)
      then show ?thesis by (simp add: simple_strtoull_def scan)
    qed
  qed
qed

section \<open>The scan ends\<close>

lemma strtoul_loop_returns: "cstr m cp s \<Longrightarrow> \<exists>r i. strtoul_loop m base cp k = Some (r, cp + i) \<and> i \<le> length s"
proof (induction s arbitrary: cp k)
  case Nil
  then show ?case by (subst strtoul_loop.simps) (simp add: isxdigit_iff)
next
  case (Cons c s)
  show ?case
  proof (cases "isxdigit (m cp) \<and> (of_nat (digit_value (m cp)) :: u32) < base")
    case True
    obtain r i where "strtoul_loop m base (cp + 1) (k * base + of_nat (digit_value (m cp))) = Some (r, cp + 1 + i)" "i \<le> length s"
      using Cons by fastforce
    with True show ?thesis by (subst strtoul_loop.simps) (auto intro!: exI[of _ "Suc i"])
  next
    case False
    then show ?thesis by (subst strtoul_loop.simps) (auto intro!: exI[of _ 0])
  qed
qed

lemma strtoull_loop_returns: "cstr m cp s \<Longrightarrow> \<exists>r i. strtoull_loop m base cp k = Some (r, cp + i) \<and> i \<le> length s"
proof (induction s arbitrary: cp k)
  case Nil
  then show ?case by (subst strtoull_loop.simps) (simp add: isxdigit_iff)
next
  case (Cons c s)
  show ?case
  proof (cases "isxdigit (m cp) \<and> (of_nat (digit_value (m cp)) :: u64) < ucast base")
    case True
    obtain r i where "strtoull_loop m base (cp + 1) (k * ucast base + of_nat (digit_value (m cp))) = Some (r, cp + 1 + i)" "i \<le> length s"
      using Cons by fastforce
    with True show ?thesis by (subst strtoull_loop.simps) (auto intro!: exI[of _ "Suc i"])
  next
    case False
    then show ?thesis by (subst strtoull_loop.simps) (auto intro!: exI[of _ 0])
  qed
qed

lemma fixup_in_string:
  assumes "cstr m cp s"
  shows "\<exists>i b. parse_integer_fixup_radix m cp base = (cp + i, b) \<and> i \<le> length s \<and> cstr m (cp + i) (drop i s)"
proof -
  have x: "m cp = 48 \<Longrightarrow> tolower (m (cp + 1)) = 120 \<Longrightarrow> 2 \<le> length s"
    using assms by (cases s; cases "tl s") (auto simp: tolower_def isupper_iff)
  obtain i b where p: "parse_integer_fixup_radix m cp base = (cp + i, b)" and "i = 0 \<or> i = 2 \<and> m cp = 48 \<and> tolower (m (cp + 1)) = 120"
    by (fastforce simp: parse_integer_fixup_radix_def Let_def split: if_splits)
  then have "i \<le> length s" using x by auto
  with p show ?thesis using cstr_drop[OF assms, of i] by blast
qed

lemma simple_strtoul_returns:
  assumes "cstr m cp s"
  shows "\<exists>r i. simple_strtoul m cp base = Some (r, cp + i) \<and> i \<le> length s"
proof -
  obtain i b where p: "parse_integer_fixup_radix m cp base = (cp + i, b)" and i: "i \<le> length s" "cstr m (cp + i) (drop i s)"
    using fixup_in_string[OF assms] by blast
  obtain r j where "strtoul_loop m b (cp + i) 0 = Some (r, cp + i + j)" "j \<le> length (drop i s)"
    using strtoul_loop_returns[OF i(2)] by blast
  then show ?thesis using p i(1) by (auto simp: simple_strtoul_def add.assoc intro!: exI[of _ "i + j"])
qed

lemma simple_strtoull_returns:
  assumes "cstr m cp s"
  shows "\<exists>r i. simple_strtoull m cp base = Some (r, cp + i) \<and> i \<le> length s"
proof -
  obtain i b where p: "parse_integer_fixup_radix m cp base = (cp + i, b)" and i: "i \<le> length s" "cstr m (cp + i) (drop i s)"
    using fixup_in_string[OF assms] by blast
  obtain r j where "strtoull_loop m b (cp + i) 0 = Some (r, cp + i + j)" "j \<le> length (drop i s)"
    using strtoull_loop_returns[OF i(2)] by blast
  then show ?thesis using p i(1) by (auto simp: simple_strtoull_def add.assoc intro!: exI[of _ "i + j"])
qed

lemma trailing_loop_returns:
  "cstr m a s \<Longrightarrow> a \<le> p \<Longrightarrow> p < a + length s \<Longrightarrow> \<exists>r. trailing_loop m a p = Some r"
proof (induction m a p rule: trailing_loop.induct)
  case (1 m a p)
  have "cstr m (p + 1) (drop (p + 1 - a) s)" using cstr_drop[OF "1.prems"(1), of "p + 1 - a"] "1.prems"(2,3) by simp
  then obtain r e where "simple_strtoul m (p + 1) 10 = Some (r, e)" using simple_strtoul_returns by blast
  then show ?case
    unfolding trailing_loop.simps[of m a p] using 1 by auto
qed

section \<open>Properties\<close>

text \<open>
  C38. Printing a number and reading it back gives the number and the end of the text, in base 8, 10 and
  16, with letters of either case and with or without the prefix, when the text and its NUL fit into the
  buffer. The base need not be named again when the prefix, or base 10, lets the reader find it.
\<close>

theorem number_roundtrip:
  assumes "base = 8 \<or> base = 10 \<or> base = 16" and "type AND SIGN = 0"
    and "base' = base \<or> base' = 0 \<and> (type AND SPECIAL \<noteq> 0 \<or> base = 10)"
    and "number lim num base (-1) (-1) type (m, buf) = (m', p)" and "p < lim"
  shows "simple_strtoull (m'(p := 0)) buf (word_of_int base') = Some (num, p)"
proof -
  define cs where "cs = number_text num base (-1) (-1) type"
  have "put_chars lim cs (m, buf) = (m', p)" using assms(1,4) by (simp add: number_put cs_def)
  then have p: "p = buf + length cs"
    and m': "m' = (\<lambda>x. if buf \<le> x \<and> x < buf + length cs \<and> x < lim then cs ! (x - buf) else m x)"
    unfolding put_chars_eq prod.inject by blast+
  have b: "\<not> bit type 1" "base' = base \<or> base' = 0 \<and> (bit type 6 \<or> base = 10)"
    using assms(2,3) flag_bits(1,3)[of type] by auto
  have "block (m'(p := 0)) buf (length cs) = cs"
    by (rule nth_equalityI) (use assms(5) in \<open>simp_all add: p m'\<close>)
  then show ?thesis unfolding p
    by (intro strtoull_roundtrip[OF assms(1) b cs_def]) simp_all
qed

theorem number_roundtrip_witness:
  "simple_strtoull ((fst (number 0x1100 0xCAFE 16 (-1) (-1) (SMALL OR SPECIAL) (\<lambda>_. 0, 0x1000))) (0x1006 := 0)) 0x1000 0 =
    Some (0xCAFE, 0x1006)"
proof -
  have "number_text 0xCAFE 16 (-1) (-1) (SMALL OR SPECIAL) = [48, 120, 99, 97, 102, 101]"
    by (simp add: number_text_def num_sign_def num_prefix_def num_digits_def num_abs_def num_locase_def num_char_def
        digits_def rdigits.simps SMALL_def SPECIAL_def Let_def)
  then have "snd (number 0x1100 0xCAFE 16 (-1) (-1) (SMALL OR SPECIAL) (\<lambda>_. 0, 0x1000)) = 0x1006"
    by (simp add: number_put put_chars_eq)
  then show ?thesis
    using number_roundtrip[of 16 "SMALL OR SPECIAL" 0 "0x1100" "0xCAFE" "\<lambda>_. 0" "0x1000", OF _ _ _ prod.collapse[symmetric]]
    by (simp add: SMALL_def SPECIAL_def SIGN_def)
qed



definition sample_text :: ram where "sample_text a = (if a < 4 then [48, 120, 49, 103] ! a else 0)"


end
