(* ===== verification/Vsprintf.thy ===== *)
theory Vsprintf
  imports Number
begin

unbundle bit_operations_syntax

text \<open>
  Formatted output, \<^verbatim>\<open>common_uboot/lib/vsprintf.c\<close>: the conversions of strings, addresses and
  pointers, the loop over the format, and the functions that call it. The configuration has
  \<^verbatim>\<open>CONFIG_CMD_NET\<close> and is not an SPL build; it has neither \<^verbatim>\<open>CONFIG_EFI_LOADER\<close> nor
  \<^verbatim>\<open>CONFIG_LIB_UUID\<close>, so that \<^verbatim>\<open>%pD\<close> and \<^verbatim>\<open>%pU\<close> print pointers.

  A format is the list of the characters before its NUL; it does not lie in the output buffer.
  The variable arguments are a list of typed values. Taking an argument of another type than the
  one that was passed, or one that was not passed, is undefined, which is \<^const>\<open>None\<close>.
\<close>

section \<open>Strings\<close>

text \<open>The loop \<^verbatim>\<open>while (len < field_width--) ADDCH(buf, ' ')\<close>, with the new \<^verbatim>\<open>field_width\<close>.\<close>

function pad_width :: "nat \<Rightarrow> int \<Rightarrow> int \<Rightarrow> sink \<Rightarrow> int \<times> sink" where
  "pad_width lim len fw st = (if len < fw then pad_width lim len (fw - 1) (ADDCH lim 32 st) else (fw - 1, st))"
  by pat_completeness auto
termination by (relation "measure (\<lambda>(_, len, fw, _). nat (fw - len))") auto

declare pad_width.simps [simp del]

fun put_mem :: "nat \<Rightarrow> nat \<Rightarrow> nat \<Rightarrow> sink \<Rightarrow> sink" where
  "put_mem lim s 0 st = st"
| "put_mem lim s (Suc n) st = put_mem lim (s + 1) n (ADDCH lim (fst st s) st)"

definition NULL_text :: "u8 list" where "NULL_text = [60, 78, 85, 76, 76, 62]"

text \<open>The conversion of a precision to \<^verbatim>\<open>size_t\<close>.\<close>

definition count_of :: "int \<Rightarrow> nat" where "count_of precision = nat (precision mod 2 ^ 32)"

text \<open>\<^verbatim>\<open>string\<close> of a local array that holds \<open>cs\<close> and a NUL.\<close>

definition string_local :: "nat \<Rightarrow> u8 list \<Rightarrow> int \<Rightarrow> int \<Rightarrow> int \<Rightarrow> sink \<Rightarrow> sink" where
  "string_local lim cs field_width precision flags st = (
     let len = min (length cs) (count_of precision);
         (field_width, st) = (if flags AND LEFT = 0 then pad_width lim (int len) field_width st else (field_width, st));
         st = fold (ADDCH lim) (take len cs) st
     in snd (pad_width lim (int len) field_width st))"

definition stringp :: "nat \<Rightarrow> nat \<Rightarrow> int \<Rightarrow> int \<Rightarrow> int \<Rightarrow> sink \<Rightarrow> sink" where
  "stringp lim s field_width precision flags st =
     (if s = NULL then string_local lim NULL_text field_width precision flags st
      else
        let len = strnlen (fst st) s (count_of precision);
            (field_width, st) = (if flags AND LEFT = 0 then pad_width lim (int len) field_width st else (field_width, st));
            st = put_mem lim s len st
        in snd (pad_width lim (int len) field_width st))"

definition string16 :: "nat \<Rightarrow> nat \<Rightarrow> int \<Rightarrow> int \<Rightarrow> int \<Rightarrow> sink \<Rightarrow> sink" where
  "string16 lim s field_width precision flags st = (
     let utf8 = (if s = NULL then take (count_of precision) NULL_text
                 else utf16_to_utf8 (fst st) s (utf16_strnlen (fst st) s (count_of precision)));
         utf8_len = length utf8;
         (field_width, st) = (if flags AND LEFT = 0 then pad_width lim (int utf8_len) field_width st else (field_width, st));
         st = fold (ADDCH lim) utf8 st
     in snd (pad_width lim (int utf8_len) field_width st))"

section \<open>Addresses and pointers\<close>

definition mac_address_string :: "nat \<Rightarrow> nat \<Rightarrow> int \<Rightarrow> int \<Rightarrow> int \<Rightarrow> sink \<Rightarrow> sink" where
  "mac_address_string lim addr field_width precision flags st = (
     let mac_addr = concat (map (\<lambda>i. hex_byte_pack (fst st (addr + i)) @
           (if flags AND SPECIAL = 0 \<and> i \<noteq> 5 then [58] else [])) [0..<6])
     in string_local lim mac_addr field_width precision (flags AND NOT SPECIAL) st)"

definition ip6_addr_string :: "nat \<Rightarrow> nat \<Rightarrow> int \<Rightarrow> int \<Rightarrow> int \<Rightarrow> sink \<Rightarrow> sink" where
  "ip6_addr_string lim addr field_width precision flags st = (
     let ip6_addr = concat (map (\<lambda>i. hex_byte_pack (fst st (addr + 2 * i)) @ hex_byte_pack (fst st (addr + 2 * i + 1)) @
           (if flags AND SPECIAL = 0 \<and> i \<noteq> 7 then [58] else [])) [0..<8])
     in string_local lim ip6_addr field_width precision (flags AND NOT SPECIAL) st)"

definition ip4_addr_string :: "nat \<Rightarrow> nat \<Rightarrow> int \<Rightarrow> int \<Rightarrow> int \<Rightarrow> sink \<Rightarrow> sink" where
  "ip4_addr_string lim addr field_width precision flags st = (
     let ip4_addr = concat (map (\<lambda>i. rev (put_dec_trunc (ucast (fst st (addr + i)))) @
           (if i \<noteq> 3 then [46] else [])) [0..<4])
     in string_local lim ip4_addr field_width precision (flags AND NOT SPECIAL) st)"

text \<open>The character at the head of a format, NUL at its end.\<close>

fun ch :: "u8 list \<Rightarrow> u8" where
  "ch [] = 0"
| "ch (c # fmt) = c"

definition pointer_number :: "nat \<Rightarrow> u64 \<Rightarrow> int \<Rightarrow> int \<Rightarrow> int \<Rightarrow> sink \<Rightarrow> sink" where
  "pointer_number lim num field_width precision flags st = (
     let flags = flags OR SMALL;
         (field_width, flags) = (if field_width = -1 then (2 * 4, flags OR ZEROPAD) else (field_width, flags))
     in number lim num 16 field_width precision flags st)"

definition pointer :: "nat \<Rightarrow> u8 list \<Rightarrow> nat \<Rightarrow> int \<Rightarrow> int \<Rightarrow> int \<Rightarrow> sink \<Rightarrow> sink" where
  "pointer lim fmt ptr field_width precision flags st = (
     let num = of_nat ptr :: u64
     in if ch fmt = 97 then
          pointer_number lim (ucast (load32 (fst st) ptr)) (4 * 2 + 2) precision (flags OR (SPECIAL OR ZEROPAD)) st
        else if ch fmt = 109 then mac_address_string lim ptr field_width precision (flags OR SPECIAL) st
        else if ch fmt = 77 then mac_address_string lim ptr field_width precision flags st
        else if ch fmt = 105 \<or> ch fmt = 73 then
          (let flags = (if ch fmt = 105 then flags OR SPECIAL else flags)
           in if ch (tl fmt) = 54 then ip6_addr_string lim ptr field_width precision flags st
              else if ch (tl fmt) = 52 then ip4_addr_string lim ptr field_width precision flags st
              else pointer_number lim num field_width precision (flags AND NOT SPECIAL) st)
        else pointer_number lim num field_width precision flags st)"

section \<open>The format\<close>

text \<open>
  The arguments: \<^verbatim>\<open>int\<close> and \<^verbatim>\<open>unsigned int\<close>, \<^verbatim>\<open>long\<close>, \<^verbatim>\<open>long long\<close>, \<^verbatim>\<open>size_t\<close>, \<^verbatim>\<open>ptrdiff_t\<close> and
  pointers.
\<close>

datatype va = VInt u32 | VLong u32 | VLongLong u64 | VSize u32 | VPtrdiff u32 | VPtr nat

fun va_int :: "va list \<Rightarrow> (u32 \<times> va list) option" where
  "va_int (VInt w # args) = Some (w, args)"
| "va_int _ = None"

fun va_ptr :: "va list \<Rightarrow> (nat \<times> va list) option" where
  "va_ptr (VPtr a # args) = Some (a, args)"
| "va_ptr _ = None"

definition is_digit :: "u8 \<Rightarrow> bool" where "is_digit c \<longleftrightarrow> c \<ge> 48 \<and> c \<le> 57"

text \<open>A number that does not fit an \<^verbatim>\<open>int\<close> overflows, which is undefined.\<close>

fun skip_atoi :: "int \<Rightarrow> u8 list \<Rightarrow> (int \<times> u8 list) option" where
  "skip_atoi i [] = Some (i, [])"
| "skip_atoi i (c # s) =
     (if is_digit c then (if i * 10 + uint c - 48 < 2 ^ 31 then skip_atoi (i * 10 + uint c - 48) s else None)
      else Some (i, c # s))"

fun fmt_flags :: "int \<Rightarrow> u8 list \<Rightarrow> int \<times> u8 list" where
  "fmt_flags flags [] = (flags, [])"
| "fmt_flags flags (c # fmt) =
     (if c = 45 then fmt_flags (flags OR LEFT) fmt
      else if c = 43 then fmt_flags (flags OR PLUS) fmt
      else if c = 32 then fmt_flags (flags OR SPACE) fmt
      else if c = 35 then fmt_flags (flags OR SPECIAL) fmt
      else if c = 48 then fmt_flags (flags OR ZEROPAD) fmt
      else (flags, c # fmt))"

definition fmt_width :: "int \<Rightarrow> u8 list \<Rightarrow> va list \<Rightarrow> (int \<times> int \<times> u8 list \<times> va list) option" where
  "fmt_width flags fmt args =
     (if is_digit (ch fmt) then map_option (\<lambda>(fw, fmt). (fw, flags, fmt, args)) (skip_atoi 0 fmt)
      else if ch fmt = 42 then
        (case va_int args of
           None \<Rightarrow> None
         | Some (w, args) \<Rightarrow>
             if sint w < 0 then (if sint w = - (2 ^ 31) then None else Some (- sint w, flags OR LEFT, tl fmt, args))
             else Some (sint w, flags, tl fmt, args))
      else Some (-1, flags, fmt, args))"

definition fmt_precision :: "u8 list \<Rightarrow> va list \<Rightarrow> (int \<times> u8 list \<times> va list) option" where
  "fmt_precision fmt args =
     (if ch fmt = 46 then
        (let fmt = tl fmt
         in if is_digit (ch fmt) then map_option (\<lambda>(p, fmt). (if p < 0 then 0 else p, fmt, args)) (skip_atoi 0 fmt)
            else if ch fmt = 42 then
              (case va_int args of
                 None \<Rightarrow> None
               | Some (w, args) \<Rightarrow> Some (if sint w < 0 then 0 else sint w, tl fmt, args))
            else Some (0, fmt, args))
      else Some (-1, fmt, args))"

definition fmt_qualifier :: "u8 list \<Rightarrow> int \<times> u8 list" where
  "fmt_qualifier fmt =
     (if ch fmt = 104 \<or> ch fmt = 108 \<or> ch fmt = 76 \<or> ch fmt = 90 \<or> ch fmt = 122 \<or> ch fmt = 116 then
        (if ch fmt = 108 \<and> ch (tl fmt) = 108 then (76, tl (tl fmt)) else (uint (ch fmt), tl fmt))
      else (-1, fmt))"

text \<open>All of a conversion up to its letter.\<close>

definition fmt_spec :: "u8 list \<Rightarrow> va list \<Rightarrow> (int \<times> int \<times> int \<times> int \<times> u8 list \<times> va list) option" where
  "fmt_spec fmt args =
     (case fmt_flags 0 fmt of (flags, fmt) \<Rightarrow>
      case fmt_width flags fmt args of
        None \<Rightarrow> None
      | Some (field_width, flags, fmt, args) \<Rightarrow>
          case fmt_precision fmt args of
            None \<Rightarrow> None
          | Some (precision, fmt, args) \<Rightarrow>
              case fmt_qualifier fmt of (qualifier, fmt) \<Rightarrow> Some (flags, field_width, precision, qualifier, fmt, args))"

text \<open>The integer argument for a qualifier, as the \<^verbatim>\<open>u64\<close> that \<^verbatim>\<open>number\<close> gets.\<close>

definition va_num :: "int \<Rightarrow> int \<Rightarrow> va list \<Rightarrow> (u64 \<times> va list) option" where
  "va_num qualifier flags args =
     (case args of
        [] \<Rightarrow> None
      | a # args \<Rightarrow>
          if qualifier = 76 then (case a of VLongLong w \<Rightarrow> Some (w, args) | _ \<Rightarrow> None)
          else if qualifier = 108 then
            (case a of VLong w \<Rightarrow> Some (if flags AND SIGN \<noteq> 0 then scast w else ucast w, args) | _ \<Rightarrow> None)
          else if qualifier = 90 \<or> qualifier = 122 then
            (case a of VSize w \<Rightarrow> Some (ucast w, args) | _ \<Rightarrow> None)
          else if qualifier = 116 then (case a of VPtrdiff w \<Rightarrow> Some (scast w, args) | _ \<Rightarrow> None)
          else if qualifier = 104 then
            (case a of
               VInt w \<Rightarrow> Some (if flags AND SIGN \<noteq> 0 then scast (ucast w :: u16) else ucast (ucast w :: u16), args)
             | _ \<Rightarrow> None)
          else (case a of VInt w \<Rightarrow> Some (if flags AND SIGN \<noteq> 0 then scast w else ucast w, args) | _ \<Rightarrow> None))"

text \<open>The loop \<^verbatim>\<open>while (--field_width > 0) ADDCH(str, ' ')\<close>.\<close>

function pad_char :: "nat \<Rightarrow> int \<Rightarrow> sink \<Rightarrow> int \<times> sink" where
  "pad_char lim fw st = (let fw = fw - 1 in if fw > 0 then pad_char lim fw (ADDCH lim 32 st) else (fw, st))"
  by pat_completeness auto
termination by (relation "measure (\<lambda>(_, fw, _). nat fw)") auto

declare pad_char.simps [simp del]

fun skip_alnum :: "u8 list \<Rightarrow> u8 list" where
  "skip_alnum [] = []"
| "skip_alnum (c # fmt) = (if isalnum c then skip_alnum fmt else c # fmt)"

definition MAX_ERRNO :: nat where "MAX_ERRNO = 4095"

definition IS_ERR :: "nat \<Rightarrow> bool" where "IS_ERR ptr \<longleftrightarrow> ptr \<ge> 2 ^ 32 - MAX_ERRNO"

text \<open>
  The \<^verbatim>\<open>switch\<close> on the letter of a conversion, which either goes on with the rest of the format or
  returns an error.
\<close>

datatype conv = Continue "u8 list" "va list" sink | Fail int sink

definition conversion :: "nat \<Rightarrow> nat \<Rightarrow> int \<Rightarrow> int \<Rightarrow> int \<Rightarrow> int \<Rightarrow> u8 list \<Rightarrow> va list \<Rightarrow> sink \<Rightarrow> conv option" where
  "conversion lim buf flags field_width precision qualifier fmt args st =
     (let num_conv = (\<lambda>base flags.
            case va_num qualifier flags args of
              None \<Rightarrow> None
            | Some (num, args) \<Rightarrow> Some (Continue (tl fmt) args (number lim num base field_width precision flags st)))
      in if ch fmt = 99 then
           (case va_int args of
              None \<Rightarrow> None
            | Some (c, args) \<Rightarrow>
                (let (field_width, st) = (if flags AND LEFT = 0 then pad_char lim field_width st else (field_width, st));
                     st = ADDCH lim (ucast c) st
                 in Some (Continue (tl fmt) args (snd (pad_char lim field_width st)))))
         else if ch fmt = 115 then
           (case va_ptr args of
              None \<Rightarrow> None
            | Some (s, args) \<Rightarrow>
                Some (Continue (tl fmt) args
                  (if qualifier = 108 then string16 lim s field_width precision flags st
                   else stringp lim s field_width precision flags st)))
         else if ch fmt = 112 then
           (case va_ptr args of
              None \<Rightarrow> None
            | Some (p, args) \<Rightarrow>
                (let st = pointer lim (tl fmt) p field_width precision flags st
                 in if IS_ERR (snd st) then Some (Fail (int (snd st) - 2 ^ 32) st)
                    else Some (Continue (skip_alnum (tl fmt)) args st)))
         else if ch fmt = 110 then
           (case va_ptr args of
              None \<Rightarrow> None
            | Some (ip, args) \<Rightarrow>
                Some (Continue (tl fmt) args (store32 (fst st) ip (of_nat (snd st - buf)), snd st)))
         else if ch fmt = 37 then Some (Continue (tl fmt) args (ADDCH lim 37 st))
         else if ch fmt = 111 then num_conv 8 flags
         else if ch fmt = 120 then num_conv 16 (flags OR SMALL)
         else if ch fmt = 88 then num_conv 16 flags
         else if ch fmt = 100 \<or> ch fmt = 105 then num_conv 10 (flags OR SIGN)
         else if ch fmt = 117 then num_conv 10 flags
         else
           (let st = ADDCH lim 37 st
            in if ch fmt \<noteq> 0 then Some (Continue (tl fmt) args (ADDCH lim (ch fmt) st))
               else Some (Continue fmt args st)))"

text \<open>No step lengthens the format, so the loop ends.\<close>

lemma length_skip_atoi: "skip_atoi i fmt = Some (n, fmt') \<Longrightarrow> length fmt' \<le> length fmt"
  by (induction i fmt rule: skip_atoi.induct) (auto split: if_splits)

lemma length_fmt_flags: "fmt_flags flags fmt = (flags', fmt') \<Longrightarrow> length fmt' \<le> length fmt"
  by (induction flags fmt rule: fmt_flags.induct) (auto split: if_splits)

lemma length_skip_alnum: "length (skip_alnum fmt) \<le> length fmt"
  by (induction fmt) auto

lemma length_fmt_width: "fmt_width flags fmt args = Some (fw, flags', fmt', args') \<Longrightarrow> length fmt' \<le> length fmt"
  using length_skip_atoi[of 0 fmt] by (auto simp: fmt_width_def split: prod.splits option.splits if_splits)

lemma length_fmt_precision: "fmt_precision fmt args = Some (p, fmt', args') \<Longrightarrow> length fmt' \<le> length fmt"
  using length_skip_atoi[of 0 "tl fmt"]
  by (cases fmt) (auto simp: fmt_precision_def Let_def split: prod.splits option.splits if_splits)

lemma length_fmt_qualifier: "fmt_qualifier fmt = (q, fmt') \<Longrightarrow> length fmt' \<le> length fmt"
  by (auto simp: fmt_qualifier_def split: if_splits)

lemma length_fmt_spec:
  "fmt_spec fmt args = Some (flags, fw, p, q, fmt', args') \<Longrightarrow> length fmt' \<le> length fmt"
  by (auto simp: fmt_spec_def split: prod.splits option.splits
      dest!: length_fmt_flags length_fmt_width length_fmt_precision length_fmt_qualifier)

lemma length_conversion:
  assumes "conversion lim buf flags fw p q fmt args st = Some (Continue fmt' args' st')"
  shows "length fmt' \<le> length fmt"
proof -
  have "fmt' = tl fmt \<or> fmt' = skip_alnum (tl fmt) \<or> fmt' = fmt"
    using assms unfolding conversion_def Let_def
    by (simp split: if_split_asm option.split_asm prod.split_asm)
  then show ?thesis using length_skip_alnum[of "tl fmt"] by auto
qed

function vsn_loop :: "nat \<Rightarrow> nat \<Rightarrow> u8 list \<Rightarrow> va list \<Rightarrow> sink \<Rightarrow> (int option \<times> sink) option" where
  "vsn_loop lim buf [] args st = Some (None, st)"
| "vsn_loop lim buf (c # fmt) args st =
     (if c \<noteq> 37 then vsn_loop lim buf fmt args (ADDCH lim c st)
      else case fmt_spec fmt args of
        None \<Rightarrow> None
      | Some (flags, field_width, precision, qualifier, fmt, args) \<Rightarrow>
          case conversion lim buf flags field_width precision qualifier fmt args st of
            None \<Rightarrow> None
          | Some (Fail e st) \<Rightarrow> Some (Some e, st)
          | Some (Continue fmt args st) \<Rightarrow> vsn_loop lim buf fmt args st)"
  by pat_completeness auto
termination
  by (relation "measure (\<lambda>(_, _, fmt, _, _). length fmt)")
    (auto dest!: length_fmt_spec length_conversion)

declare vsn_loop.simps [simp del]

text \<open>The memory and the value returned.\<close>

definition vsnprintf_internal :: "nat \<Rightarrow> nat \<Rightarrow> u8 list \<Rightarrow> va list \<Rightarrow> ram \<Rightarrow> (ram \<times> int) option" where
  "vsnprintf_internal buf sz fmt args m =
     (let lim = (buf + sz) mod 2 ^ 32;
          (lim, sz) = (if lim < buf then (2 ^ 32 - 1, 2 ^ 32 - 1 - buf) else (lim, sz))
      in case vsn_loop lim buf fmt args (m, buf) of
           None \<Rightarrow> None
         | Some (Some e, st) \<Rightarrow> Some (fst st, e)
         | Some (None, st) \<Rightarrow>
             if sz > 0 then
               (let (m, str) = ADDCH lim 0 st;
                    m = (if str > lim then m(lim - 1 := 0) else m)
                in Some (m, int (str - 1) - int buf))
             else Some (fst st, int (snd st) - int buf))"

definition vsnprintf :: "nat \<Rightarrow> nat \<Rightarrow> u8 list \<Rightarrow> va list \<Rightarrow> ram \<Rightarrow> (ram \<times> int) option" where
  "vsnprintf buf sz fmt args m = vsnprintf_internal buf sz fmt args m"

definition vscnprintf :: "nat \<Rightarrow> nat \<Rightarrow> u8 list \<Rightarrow> va list \<Rightarrow> ram \<Rightarrow> (ram \<times> int) option" where
  "vscnprintf buf sz fmt args m =
     map_option (\<lambda>(m, i). (m, if i mod 2 ^ 32 < int sz then i else if sz \<noteq> 0 then int sz - 1 else 0))
       (vsnprintf buf sz fmt args m)"

definition snprintf :: "nat \<Rightarrow> nat \<Rightarrow> u8 list \<Rightarrow> va list \<Rightarrow> ram \<Rightarrow> (ram \<times> int) option" where
  "snprintf buf sz fmt args m = vsnprintf buf sz fmt args m"

definition scnprintf :: "nat \<Rightarrow> nat \<Rightarrow> u8 list \<Rightarrow> va list \<Rightarrow> ram \<Rightarrow> (ram \<times> int) option" where
  "scnprintf buf sz fmt args m = vscnprintf buf sz fmt args m"

definition INT_MAX :: nat where "INT_MAX = 2 ^ 31 - 1"

definition vsprintf :: "nat \<Rightarrow> u8 list \<Rightarrow> va list \<Rightarrow> ram \<Rightarrow> (ram \<times> int) option" where
  "vsprintf buf fmt args m = vsnprintf_internal buf INT_MAX fmt args m"

definition sprintf :: "nat \<Rightarrow> u8 list \<Rightarrow> va list \<Rightarrow> ram \<Rightarrow> (ram \<times> int) option" where
  "sprintf buf fmt args m = vsprintf buf fmt args m"

section \<open>The text of a format\<close>

text \<open>
  What a conversion stands for, without buffer: a text that depends on the arguments and on the
  memory that they point to. A conversion that reads the buffer, which is \<open>lo\<close> up to \<open>hi\<close>, has no
  text, and neither has \<^verbatim>\<open>%n\<close>, which writes to memory.
\<close>

definition padded_text :: "u8 list \<Rightarrow> int \<Rightarrow> int \<Rightarrow> u8 list" where
  "padded_text cs fw flags =
     (let n = nat (fw - int (length cs)) in if bit flags 4 then cs @ replicate n 32 else replicate n 32 @ cs)"

definition off :: "nat \<Rightarrow> nat \<Rightarrow> nat \<Rightarrow> nat \<Rightarrow> bool" where
  "off lo hi a n \<longleftrightarrow> a + n \<le> lo \<or> hi \<le> a"

definition string_arg :: "nat \<Rightarrow> nat \<Rightarrow> ram \<Rightarrow> nat \<Rightarrow> int \<Rightarrow> u8 list option" where
  "string_arg lo hi m s precision =
     (if s = NULL then Some (take (count_of precision) NULL_text)
      else let n = strnlen m s (count_of precision) in if off lo hi s (n + 1) then Some (block m s n) else None)"

definition string16_arg :: "nat \<Rightarrow> nat \<Rightarrow> ram \<Rightarrow> nat \<Rightarrow> int \<Rightarrow> u8 list option" where
  "string16_arg lo hi m s precision =
     (if s = NULL then Some (take (count_of precision) NULL_text)
      else let n = utf16_strnlen m s (count_of precision)
           in if off lo hi s (2 * (n + 1)) then Some (utf16_to_utf8 m s n) else None)"

definition address_text :: "u8 list \<Rightarrow> int \<Rightarrow> int \<Rightarrow> int \<Rightarrow> u8 list" where
  "address_text cs fw precision flags = padded_text (take (count_of precision) cs) fw flags"

definition mac_text :: "ram \<Rightarrow> nat \<Rightarrow> bool \<Rightarrow> u8 list" where
  "mac_text m addr plain =
     concat (map (\<lambda>i. hex_byte_pack (m (addr + i)) @ (if \<not> plain \<and> i \<noteq> 5 then [58] else [])) [0..<6])"

definition ip6_text :: "ram \<Rightarrow> nat \<Rightarrow> bool \<Rightarrow> u8 list" where
  "ip6_text m addr plain =
     concat (map (\<lambda>i. hex_byte_pack (m (addr + 2 * i)) @ hex_byte_pack (m (addr + 2 * i + 1)) @
       (if \<not> plain \<and> i \<noteq> 7 then [58] else [])) [0..<8])"

definition ip4_text :: "ram \<Rightarrow> nat \<Rightarrow> u8 list" where
  "ip4_text m addr =
     concat (map (\<lambda>i. rev (map dec_char (rdigits 10 (unat (m (addr + i))))) @ (if i \<noteq> 3 then [46] else [])) [0..<4])"

definition address_number_text :: "u64 \<Rightarrow> int \<Rightarrow> int \<Rightarrow> int \<Rightarrow> u8 list" where
  "address_number_text num fw precision flags =
     (if fw = -1 then number_text num 16 8 precision (flags OR SMALL OR ZEROPAD)
      else number_text num 16 fw precision (flags OR SMALL))"

definition pointer_text :: "nat \<Rightarrow> nat \<Rightarrow> ram \<Rightarrow> u8 list \<Rightarrow> nat \<Rightarrow> int \<Rightarrow> int \<Rightarrow> int \<Rightarrow> u8 list option" where
  "pointer_text lo hi m fmt ptr fw precision flags =
     (if ch fmt = 97 then
        (if off lo hi ptr 4 then Some (address_number_text (ucast (load32 m ptr)) 10 precision (flags OR (SPECIAL OR ZEROPAD))) else None)
      else if ch fmt = 109 \<or> ch fmt = 77 then
        (if off lo hi ptr 6 then Some (address_text (mac_text m ptr (ch fmt = 109 \<or> bit flags 6)) fw precision flags) else None)
      else if (ch fmt = 105 \<or> ch fmt = 73) \<and> ch (tl fmt) = 54 then
        (if off lo hi ptr 16 then Some (address_text (ip6_text m ptr (ch fmt = 105 \<or> bit flags 6)) fw precision flags) else None)
      else if (ch fmt = 105 \<or> ch fmt = 73) \<and> ch (tl fmt) = 52 then
        (if off lo hi ptr 4 then Some (address_text (ip4_text m ptr) fw precision flags) else None)
      else if ch fmt = 105 \<or> ch fmt = 73 then
        Some (address_number_text (of_nat ptr) fw precision (flags AND NOT SPECIAL))
      else Some (address_number_text (of_nat ptr) fw precision flags))"

definition conv_text ::
  "nat \<Rightarrow> nat \<Rightarrow> ram \<Rightarrow> int \<Rightarrow> int \<Rightarrow> int \<Rightarrow> int \<Rightarrow> u8 list \<Rightarrow> va list \<Rightarrow> (u8 list \<times> va list \<times> u8 list) option" where
  "conv_text lo hi m flags fw precision qualifier fmt args =
     (let num_text = (\<lambda>base flags. map_option (\<lambda>(num, args). (tl fmt, args, number_text num base fw precision flags))
            (va_num qualifier flags args))
      in if ch fmt = 99 then map_option (\<lambda>(c, args). (tl fmt, args, padded_text [ucast c] fw flags)) (va_int args)
         else if ch fmt = 115 then
           (case va_ptr args of
              None \<Rightarrow> None
            | Some (s, args) \<Rightarrow>
                map_option (\<lambda>cs. (tl fmt, args, padded_text cs fw flags))
                  (if qualifier = 108 then string16_arg lo hi m s precision else string_arg lo hi m s precision))
         else if ch fmt = 112 then
           (case va_ptr args of
              None \<Rightarrow> None
            | Some (p, args) \<Rightarrow>
                map_option (\<lambda>cs. (skip_alnum (tl fmt), args, cs)) (pointer_text lo hi m (tl fmt) p fw precision flags))
         else if ch fmt = 110 then None
         else if ch fmt = 37 then Some (tl fmt, args, [37])
         else if ch fmt = 111 then num_text 8 flags
         else if ch fmt = 120 then num_text 16 (flags OR SMALL)
         else if ch fmt = 88 then num_text 16 flags
         else if ch fmt = 100 \<or> ch fmt = 105 then num_text 10 (flags OR SIGN)
         else if ch fmt = 117 then num_text 10 flags
         else if ch fmt \<noteq> 0 then Some (tl fmt, args, [37, ch fmt])
         else Some (fmt, args, [37]))"

lemma length_conv_text:
  assumes "conv_text lo hi m flags fw p q fmt args = Some (fmt', args', cs)"
  shows "length fmt' \<le> length fmt"
proof -
  have "fmt' = tl fmt \<or> fmt' = skip_alnum (tl fmt) \<or> fmt' = fmt"
    using assms unfolding conv_text_def Let_def
    by (auto split: if_split_asm option.split_asm)
  then show ?thesis using length_skip_alnum[of "tl fmt"] by auto
qed

function format_text :: "nat \<Rightarrow> nat \<Rightarrow> ram \<Rightarrow> u8 list \<Rightarrow> va list \<Rightarrow> u8 list option" where
  "format_text lo hi m [] args = Some []"
| "format_text lo hi m (c # fmt) args =
     (if c \<noteq> 37 then map_option (Cons c) (format_text lo hi m fmt args)
      else case fmt_spec fmt args of
        None \<Rightarrow> None
      | Some (flags, fw, precision, qualifier, fmt, args) \<Rightarrow>
          case conv_text lo hi m flags fw precision qualifier fmt args of
            None \<Rightarrow> None
          | Some (fmt, args, cs) \<Rightarrow> map_option (\<lambda>ds. cs @ ds) (format_text lo hi m fmt args))"
  by pat_completeness auto
termination
  by (relation "measure (\<lambda>(_, _, _, fmt, _). length fmt)")
    (auto dest!: length_fmt_spec length_conv_text)

declare format_text.simps [simp del]

section \<open>The conversions put their text\<close>

lemma pad_width_put:
  "pad_width lim len fw st = (fw - 1 - max 0 (fw - len), put_chars lim (replicate (nat (fw - len)) 32) st)"
proof (induction lim len fw st rule: pad_width.induct)
  case (1 lim len fw st)
  show ?case
  proof (cases "len < fw")
    case True
    then have "nat (fw - len) = Suc (nat (fw - 1 - len))" by simp
    then show ?thesis using True 1 by (subst pad_width.simps) (simp add: max_def)
  next
    case False
    then show ?thesis by (subst pad_width.simps) simp
  qed
qed

lemma pad_char_put:
  "pad_char lim fw st = (fw - 1 - max 0 (fw - 1), put_chars lim (replicate (nat (fw - 1)) 32) st)"
proof (induction lim fw st rule: pad_char.induct)
  case (1 lim fw st)
  show ?case
  proof (cases "1 < fw")
    case True
    then have "nat (fw - 1) = Suc (nat (fw - 1 - 1))" by simp
    then show ?thesis using True 1[OF refl] by (subst pad_char.simps) (simp add: Let_def max_def)
  next
    case False
    then show ?thesis by (subst pad_char.simps) (simp add: Let_def)
  qed
qed

text \<open>The two padding loops around a text.\<close>

lemma padded_put:
  assumes "\<And>st. put st = put_chars lim cs st" and "n = int (length cs)"
  shows "(let (fw, st) = (if flags AND LEFT = 0 then pad_width lim n fw st else (fw, st));
             st = put st in snd (pad_width lim n fw st)) = put_chars lim (padded_text cs fw flags) st"
  by (auto simp: assms pad_width_put flag_bits padded_text_def Let_def put_chars_append max_def)

lemma string_local_put:
  "string_local lim cs fw precision flags st = put_chars lim (address_text cs fw precision flags) st"
  unfolding string_local_def address_text_def Let_def
  by (rule padded_put[unfolded Let_def]) (simp_all add: put_chars_def min_def)

text \<open>Memory that agrees outside of the buffer.\<close>

definition agree :: "nat \<Rightarrow> nat \<Rightarrow> ram \<Rightarrow> ram \<Rightarrow> bool" where
  "agree lo hi m m' \<longleftrightarrow> (\<forall>x. x < lo \<or> hi \<le> x \<longrightarrow> m x = m' x)"

lemma agree_off: "agree lo hi m m' \<Longrightarrow> off lo hi a n \<Longrightarrow> i < n \<Longrightarrow> m' (a + i) = m (a + i)"
  by (auto simp: agree_def off_def)

lemma agree_put: "agree lo hi m m' \<Longrightarrow> lo \<le> str \<Longrightarrow> agree lo hi m (fst (put_chars hi cs (m', str)))"
  by (simp add: put_chars_eq agree_def)

lemma strnlen_loop_agree:
  "agree lo hi m m' \<Longrightarrow> off lo hi a (strnlen_loop m a sc k + 1) \<Longrightarrow> a \<le> sc \<Longrightarrow>
    strnlen_loop m' a sc k = strnlen_loop m a sc k"
proof (induction m a sc k rule: strnlen_loop.induct)
  case (2 m s sc k)
  have "sc - s < strnlen_loop m s sc (Suc k) + 1" for k
  proof -
    have "sc - s \<le> strnlen_loop m s sc k" for sc k
      by (induction m s sc k rule: strnlen_loop.induct) (auto split: if_splits)
    then show ?thesis by (simp only: less_Suc_eq_le Suc_eq_plus1[symmetric])
  qed
  from agree_off[OF 2(2,3) this] 2(4) have "m' sc = m sc" by simp
  then show ?case using 2 by (cases "m sc = 0") simp_all
qed simp

lemma put_mem_put:
  assumes "agree lo hi m m'" and "off lo hi s n" and "lo \<le> str"
  shows "put_mem hi s n (m', str) = put_chars hi (block m s n) (m', str)"
  using assms
proof (induction n arbitrary: s m' str)
  case (Suc n)
  let ?m = "if str < hi then m'(str := m s) else m'"
  have "m' s = m s" using agree_off[OF Suc(2,3), of 0] by simp
  moreover have "agree lo hi m ?m" using Suc(2,4) by (auto simp: agree_def)
  moreover have "off lo hi (s + 1) n" using Suc(3) by (auto simp: off_def)
  moreover have "block m s (Suc n) = m s # block m (s + 1) n" by (simp add: block_Suc)
  ultimately show ?case using Suc.IH[of ?m "s + 1" "str + 1"] Suc(4) by (simp add: ADDCH_def)
qed (simp add: block_def)

lemma stringp_put:
  assumes "agree lo hi m m'" and "lo \<le> str" and "string_arg lo hi m s precision = Some cs"
  shows "stringp hi s fw precision flags (m', str) = put_chars hi (padded_text cs fw flags) (m', str)"
proof (cases "s = NULL")
  case True
  then show ?thesis using assms(3) by (simp add: stringp_def string_arg_def string_local_put address_text_def)
next
  case False
  define n where "n = strnlen m s (count_of precision)"
  have o: "off lo hi s (n + 1)" and cs: "cs = block m s n"
    using assms(3) False by (auto simp: string_arg_def Let_def n_def split: if_splits)
  have n: "strnlen m' s (count_of precision) = n"
    using strnlen_loop_agree[OF assms(1)] o by (simp add: strnlen_def n_def)
  have p: "put_mem hi s n (put_chars hi ds (m', str)) = put_chars hi cs (put_chars hi ds (m', str))" for ds
  proof -
    obtain m1 where m1: "put_chars hi ds (m', str) = (m1, str + length ds)" by (simp add: put_chars_eq)
    have "agree lo hi m m1" using agree_put[OF assms(1,2), of ds] m1 by simp
    then show ?thesis using put_mem_put[of lo hi m m1 s n "str + length ds"] o assms(2) m1 by (auto simp: off_def cs)
  qed
  show ?thesis
    using False p[of "[]"] p
    by (simp add: stringp_def n pad_width_put Let_def padded_text_def flag_bits put_chars_append max_def cs block_def)
qed

lemma load16_agree: "agree lo hi m m' \<Longrightarrow> off lo hi a n \<Longrightarrow> i + 1 < n \<Longrightarrow> load16 m' (a + i) = load16 m (a + i)"
  using agree_off[of lo hi m m' a n i] agree_off[of lo hi m m' a n "i + 1"] by (simp add: load16_def)

lemma load32_agree: "agree lo hi m m' \<Longrightarrow> off lo hi a 4 \<Longrightarrow> load32 m' a = load32 m a"
  using agree_off[of lo hi m m' a 4 0] agree_off[of lo hi m m' a 4 1] agree_off[of lo hi m m' a 4 2]
    agree_off[of lo hi m m' a 4 3] by (simp add: load32_def)

lemma utf16_strnlen_loop_ge: "i \<le> utf16_strnlen_loop m a i k"
  by (induction m a i k rule: utf16_strnlen_loop.induct) auto

lemma utf16_strnlen_loop_agree:
  "agree lo hi m m' \<Longrightarrow> off lo hi a (2 * (utf16_strnlen_loop m a i k + 1)) \<Longrightarrow>
    utf16_strnlen_loop m' a i k = utf16_strnlen_loop m a i k"
proof (induction m a i k rule: utf16_strnlen_loop.induct)
  case (2 m a i k)
  have "load16 m' (a + 2 * i) = load16 m (a + 2 * i)"
    using utf16_strnlen_loop_ge[of i m a "Suc k"] by (intro load16_agree[OF 2(2,3)]) (simp del: utf16_strnlen_loop.simps)
  then show ?case using 2 by (cases "load16 m (a + 2 * i) = 0") simp_all
qed simp

lemma utf16_to_utf8_loop_agree:
  "agree lo hi m m' \<Longrightarrow> off lo hi a (2 * n) \<Longrightarrow> utf16_to_utf8_loop m' a n h = utf16_to_utf8_loop m a n h"
proof (induction n arbitrary: a h)
  case (Suc n)
  have o: "off lo hi (a + 2) (2 * n)" "off lo hi a (2 * n)" using Suc(3) by (auto simp: off_def)
  have "load16 m' a = load16 m a" using load16_agree[OF Suc(2,3), of 0] by simp
  then show ?case by (simp only: utf16_to_utf8_loop.simps Suc.IH[OF Suc(2) o(1)] Suc.IH[OF Suc(2) o(2)])
qed simp

lemma string16_put:
  assumes "agree lo hi m m'" and "string16_arg lo hi m s precision = Some cs"
  shows "string16 hi s fw precision flags (m', str) = put_chars hi (padded_text cs fw flags) (m', str)"
proof -
  have "(if s = NULL then take (count_of precision) NULL_text
    else utf16_to_utf8 m' s (utf16_strnlen m' s (count_of precision))) = cs"
  proof (cases "s = NULL")
    case True
    then show ?thesis using assms(2) by (simp add: string16_arg_def)
  next
    case False
    define n where "n = utf16_strnlen m s (count_of precision)"
    have o: "off lo hi s (2 * (n + 1))" and cs: "cs = utf16_to_utf8 m s n"
      using assms(2) False by (auto simp: string16_arg_def Let_def n_def split: if_splits)
    have "off lo hi s (2 * n)" using o by (auto simp: off_def)
    then show ?thesis
      using False o utf16_strnlen_loop_agree[OF assms(1)] utf16_to_utf8_loop_agree[OF assms(1)]
      by (simp add: utf16_strnlen_def utf16_to_utf8_def cs n_def)
  qed
  then show ?thesis
    unfolding string16_def fst_conv Let_def
    by (simp only:) (rule padded_put[unfolded Let_def], simp_all add: put_chars_def)
qed

text \<open>The local buffers of the addresses.\<close>

lemma flag_special: "bit (flags AND NOT SPECIAL) 4 = bit flags 4" "bit (flags OR SPECIAL) 4 = bit flags 4"
  "flags AND SPECIAL = 0 \<longleftrightarrow> \<not> bit flags 6" "bit (flags OR SPECIAL) 6"
  "(flags OR SPECIAL) AND NOT SPECIAL = flags AND NOT SPECIAL"
  using flag_bits(1)[of flags] by (auto simp: SPECIAL_def bit_simps intro!: bit_eqI)

lemma address_text_special:
  "address_text cs fw precision (flags AND NOT SPECIAL) = address_text cs fw precision flags"
  "address_text cs fw precision (flags OR SPECIAL) = address_text cs fw precision flags"
  by (simp_all add: address_text_def padded_text_def flag_special)

lemma concat_map_upt_cong: "(\<And>i. i < n \<Longrightarrow> f i = g i) \<Longrightarrow> concat (map f [0..<n]) = concat (map g [0..<n])"
  by (rule arg_cong[where f = concat]) (rule map_cong, simp_all del: upt_rec_numeral)

lemma address_text_agree:
  assumes "agree lo hi m m'"
  shows "off lo hi a 6 \<Longrightarrow> mac_text m' a plain = mac_text m a plain"
    and "off lo hi a 16 \<Longrightarrow> ip6_text m' a plain = ip6_text m a plain"
    and "off lo hi a 4 \<Longrightarrow> ip4_text m' a = ip4_text m a"
proof -
  show "mac_text m' a plain = mac_text m a plain" if "off lo hi a 6"
    unfolding mac_text_def using agree_off[OF assms that] by (intro concat_map_upt_cong) simp
  show "ip6_text m' a plain = ip6_text m a plain" if o: "off lo hi a 16"
  proof -
    have "m' (a + 2 * i) = m (a + 2 * i)" "m' (a + 2 * i + 1) = m (a + 2 * i + 1)" if i: "i < 8" and "off lo hi a 16" for i
      using i agree_off[OF assms that(2), of "2 * i"] agree_off[OF assms that(2), of "2 * i + 1"] by simp_all
    with o show ?thesis unfolding ip6_text_def by (intro concat_map_upt_cong) simp
  qed
  show "ip4_text m' a = ip4_text m a" if "off lo hi a 4"
    unfolding ip4_text_def using agree_off[OF assms that] by (intro concat_map_upt_cong) simp
qed

lemma mac_address_string_put:
  "mac_address_string lim a fw precision flags st =
    put_chars lim (address_text (mac_text (fst st) a (bit flags 6)) fw precision flags) st"
  by (simp add: mac_address_string_def mac_text_def string_local_put address_text_special flag_special
      del: upt_rec_numeral)

lemma ip6_addr_string_put:
  "ip6_addr_string lim a fw precision flags st =
    put_chars lim (address_text (ip6_text (fst st) a (bit flags 6)) fw precision flags) st"
  by (simp add: ip6_addr_string_def ip6_text_def string_local_put address_text_special flag_special
      del: upt_rec_numeral)

lemma put_dec_trunc_u8: "put_dec_trunc (ucast (b :: u8)) = map dec_char (rdigits 10 (unat b))"
proof -
  have "unat b < 2 ^ LENGTH(8)" by (rule unsigned_less)
  moreover have "ucast b = (of_nat (unat b) :: u32)" by simp
  ultimately show ?thesis using put_dec_digits(1)[of "unat b"] by (simp only:) simp
qed

lemma ip4_addr_string_put:
  "ip4_addr_string lim a fw precision flags st =
    put_chars lim (address_text (ip4_text (fst st) a) fw precision flags) st"
  by (simp add: ip4_addr_string_def ip4_text_def string_local_put address_text_special put_dec_trunc_u8
      del: upt_rec_numeral)

lemma pointer_number_put:
  "pointer_number lim num fw precision flags st = put_chars lim (address_number_text num fw precision flags) st"
  by (simp add: pointer_number_def address_number_text_def number_put Let_def or.assoc)

lemma pointer_put:
  assumes "agree lo hi m m'" and "pointer_text lo hi m fmt ptr fw precision flags = Some cs"
  shows "pointer hi fmt ptr fw precision flags (m', str) = put_chars hi cs (m', str)"
  using assms(2) unfolding pointer_text_def pointer_def Let_def
  by (auto simp: pointer_number_put load32_agree[OF assms(1)] mac_address_string_put
      ip6_addr_string_put ip4_addr_string_put address_text_agree[OF assms(1)] address_text_special flag_special
      split: if_split_asm)

lemma conversion_put:
  assumes "agree lo hi m m'" and "lo \<le> str" and "\<not> IS_ERR (str + length cs)"
    and "conv_text lo hi m flags fw precision q fmt args = Some (fmt', args', cs)"
  shows "conversion hi lo flags fw precision q fmt args (m', str) =
    Some (Continue fmt' args' (put_chars hi cs (m', str)))"
proof -
  have c: "put_chars hi (padded_text [c] fw flags) st =
      (if bit flags 4 then put_chars hi (replicate (nat (fw - 1)) 32) (ADDCH hi c st)
       else ADDCH hi c (put_chars hi (replicate (nat (fw - 1)) 32) st))" for c st
    by (simp add: padded_text_def put_chars_append)
  have s: "snd (put_chars hi ds (m', str)) = str + length ds" for ds by (simp add: put_chars_eq)
  note p = pointer_put[OF assms(1)] stringp_put[OF assms(1,2)] string16_put[OF assms(1)]
  show ?thesis
    using assms(3,4) unfolding conv_text_def conversion_def
    by (auto simp: c pad_char_put flag_bits max_def number_put p s Let_def split: if_split_asm option.split_asm prod.split_asm)
qed

lemma vsn_loop_put:
  "agree lo hi m m' \<Longrightarrow> lo \<le> str \<Longrightarrow> format_text lo hi m fmt args = Some cs \<Longrightarrow> \<not> IS_ERR (str + length cs) \<Longrightarrow>
    vsn_loop hi lo fmt args (m', str) = Some (None, put_chars hi cs (m', str))"
proof (induction lo hi m fmt args arbitrary: m' str cs rule: format_text.induct)
  case (1 lo hi m args)
  then show ?case by (simp add: format_text.simps vsn_loop.simps)
next
  case (2 lo hi m c fmt args)
  have err: "\<not> IS_ERR (str + n)" if "n \<le> length cs" for n using "2.prems"(4) that by (simp add: IS_ERR_def)
  have put: "\<exists>m1. put_chars hi ds (m', str) = (m1, str + length ds) \<and> agree lo hi m m1" for ds
    using agree_put[OF "2.prems"(1,2), of ds] by (simp add: put_chars_eq)
  show ?case
  proof (cases "c = 37")
    case False
    then obtain ds where ds: "format_text lo hi m fmt args = Some ds" "cs = [c] @ ds"
      using "2.prems"(3) by (auto simp: format_text.simps)
    obtain m1 where m1: "put_chars hi [c] (m', str) = (m1, str + 1)" "agree lo hi m m1" using put[of "[c]"] by auto
    have "vsn_loop hi lo fmt args (m1, str + 1) = Some (None, put_chars hi ds (m1, str + 1))"
      using "2.prems"(2) err[of "length cs"] ds by (intro "2.IH"(1)[OF False m1(2)]) simp_all
    then show ?thesis using False ds(2) m1(1) by (simp add: vsn_loop.simps)
  next
    case True
    then obtain flags fw precision q fmt1 args1 fmt2 args2 ds es
      where sp: "fmt_spec fmt args = Some (flags, fw, precision, q, fmt1, args1)"
        and cv: "conv_text lo hi m flags fw precision q fmt1 args1 = Some (fmt2, args2, ds)"
        and es: "format_text lo hi m fmt2 args2 = Some es" "cs = ds @ es"
      using "2.prems"(3) by (auto simp: format_text.simps split: option.split_asm prod.split_asm)
    obtain m1 where m1: "put_chars hi ds (m', str) = (m1, str + length ds)" "agree lo hi m m1" using put by auto
    have "vsn_loop hi lo fmt2 args2 (m1, str + length ds) = Some (None, put_chars hi es (m1, str + length ds))"
      using True "2.prems"(2) err[of "length cs"] es m1(2)
      by (intro "2.IH"(2)[OF _ sp refl refl refl refl refl cv refl refl]) (auto simp: add.assoc)
    moreover have "conversion hi lo flags fw precision q fmt1 args1 (m', str) =
        Some (Continue fmt2 args2 (put_chars hi ds (m', str)))"
      using err[of "length ds"] es(2) by (intro conversion_put[OF "2.prems"(1,2) _ cv]) simp
    ultimately show ?thesis using True sp es(2) m1(1) by (simp add: vsn_loop.simps put_chars_append)
  qed
qed

text \<open>The memory after the text \<open>cs\<close> and a NUL went to the buffer, cut to its size.\<close>

definition stored :: "ram \<Rightarrow> nat \<Rightarrow> nat \<Rightarrow> u8 list \<Rightarrow> ram" where
  "stored m buf sz cs =
     (let p = fst (put_chars (buf + sz) (cs @ [0]) (m, buf))
      in if sz = 0 then m else if sz < length cs + 1 then p(buf + sz - 1 := 0) else p)"

lemma stored_nth:
  "i < sz \<Longrightarrow> i < length cs \<Longrightarrow> i \<noteq> sz - 1 \<Longrightarrow> stored m buf sz cs (buf + i) = cs ! i"
  "0 < sz \<Longrightarrow> stored m buf sz cs (buf + min (length cs) (sz - 1)) = 0"
  "x < buf \<or> buf + min (length cs + 1) sz \<le> x \<Longrightarrow> stored m buf sz cs x = m x"
  by (auto simp: stored_def put_chars_eq nth_append min_def Let_def split: if_split_asm)

lemma stored_block: "0 < sz \<Longrightarrow> block (stored m buf sz cs) buf (min (length cs) (sz - 1) + 1) = take (sz - 1) cs @ [0]"
proof (rule nth_equalityI)
  fix i assume sz: "0 < sz" and "i < length (block (stored m buf sz cs) buf (min (length cs) (sz - 1) + 1))"
  then have i: "i < min (length cs) (sz - 1) + 1" by simp
  then consider "i < length cs" "i < sz - 1" | "i = min (length cs) (sz - 1)" by linarith
  then have "stored m buf sz cs (buf + i) = (take (sz - 1) cs @ [0]) ! i"
    using sz stored_nth(1)[of i sz cs m buf] stored_nth(2)[of sz m buf cs]
    by cases (simp_all add: nth_append)
  then show "block (stored m buf sz cs) buf (min (length cs) (sz - 1) + 1) ! i = (take (sz - 1) cs @ [0]) ! i"
    using i by (simp only: nth_block)
qed simp

lemma vsnprintf_stored:
  assumes "format_text buf (buf + sz) m fmt args = Some cs" and "buf + sz < 2 ^ 32" and "\<not> IS_ERR (buf + length cs)"
  shows "vsnprintf buf sz fmt args m = Some (stored m buf sz cs, int (length cs))"
proof -
  have l: "vsn_loop (buf + sz) buf fmt args (m, buf) = Some (None, put_chars (buf + sz) cs (m, buf))"
    using assms by (intro vsn_loop_put[of _ _ m]) (simp_all add: agree_def)
  have p: "ADDCH (buf + sz) 0 (put_chars (buf + sz) cs (m, buf)) = put_chars (buf + sz) (cs @ [0]) (m, buf)"
    by (simp add: put_chars_append)
  show ?thesis
  proof (cases "sz = 0")
    case True
    then show ?thesis using assms(2) l
      by (auto simp: vsnprintf_def vsnprintf_internal_def put_chars_eq stored_def fun_eq_iff)
  next
    case False
    then show ?thesis using assms(2)
      by (simp add: vsnprintf_def vsnprintf_internal_def l p) (simp add: put_chars_eq stored_def Let_def)
  qed
qed


definition sample_ram :: ram where "sample_ram = (\<lambda>_. 0)(0x200 := 104, 0x201 := 105)"


end
