(* ===== verification/Spec2Isabelle.thy ===== *)
theory Spec2Isabelle
  imports Cstart Shell Startup Cstring Sha256 Sha1 Md5 Crc Aes Strto Vsprintf
begin

text \<open>Verification of the bare-metal ARM examples.\<close>

end
